(* ===== verification/Prelude.thy ===== *)
theory Prelude
  imports Main "HOL-Library.Word"
begin

text \<open>
  What the components share: Go's fixed-width integers written out over \<open>int\<close>, panics as
  values, the string functions of the Go library that the code calls, and the generic
  simulation argument that every stateful component instantiates.
\<close>

unbundle bit_operations_syntax

section \<open>Shared names and collections\<close>

named_theorems go_defs \<open>definitions of primitive operations, unfolded on demand\<close>
named_theorems inv_intros \<open>preservation of component invariants\<close>

type_synonym byte = "8 word"
type_synonym u32 = "32 word"
type_synonym u64 = "64 word"

text \<open>A run-time panic carries the message given to \<open>panic\<close>.\<close>

datatype go_panic = Panic string

type_synonym 'a may_panic = "go_panic + 'a"

section \<open>Go's int and int64\<close>

text \<open>
  \<open>int\<close> is 64 bits wide on every platform the program supports. A value is kept as an
  \<open>int\<close> and every operation that can leave the range is followed by \<open>wrap64\<close>, two's
  complement reduction. Division truncates towards zero.
\<close>

definition wrap64 :: "int \<Rightarrow> int" where
  "wrap64 x = (x + 2 ^ 63) mod 2 ^ 64 - 2 ^ 63"

definition int64 :: "int \<Rightarrow> bool" where
  "int64 x \<longleftrightarrow> - (2 ^ 63) \<le> x \<and> x < 2 ^ 63"

definition go_quot :: "int \<Rightarrow> int \<Rightarrow> int" where
  "go_quot a b = sgn a * sgn b * (\<bar>a\<bar> div \<bar>b\<bar>)"

lemma wrap64_id [simp]: "int64 x \<Longrightarrow> wrap64 x = x"
  by (simp add: wrap64_def int64_def)

lemma int64_wrap64 [simp, intro]: "int64 (wrap64 x)"
proof -
  have "0 \<le> (x + 2 ^ 63) mod 2 ^ 64" "(x + 2 ^ 63) mod 2 ^ 64 < (2::int) ^ 64"
    by simp_all
  then show ?thesis unfolding wrap64_def int64_def by simp
qed

lemma go_quot_nonneg: "0 \<le> a \<Longrightarrow> 0 < b \<Longrightarrow> go_quot a b = a div b"
  by (cases "a = 0") (simp_all add: go_quot_def)

section \<open>Strings\<close>

text \<open>
  A Go string is a sequence of bytes; HOL's \<open>char\<close> is a byte, so a string is a
  \<open>char list\<close>. The functions below are those of package \<open>strings\<close> and \<open>strconv\<close> on
  ASCII input, the only characters that matter to the code.
\<close>

definition has_prefix :: "string \<Rightarrow> string \<Rightarrow> bool" where
  "has_prefix s p \<longleftrightarrow> take (length p) s = p"

fun contains_sub :: "string \<Rightarrow> string \<Rightarrow> bool" where
  "contains_sub [] p \<longleftrightarrow> p = []"
| "contains_sub (c # s) p \<longleftrightarrow> has_prefix (c # s) p \<or> contains_sub s p"

definition contains_any :: "string \<Rightarrow> string \<Rightarrow> bool" where
  "contains_any s cs \<longleftrightarrow> list_ex (\<lambda>c. c \<in> set cs) s"

definition lower_char :: "char \<Rightarrow> char" where
  "lower_char c = (let n = of_char c :: nat in
     if 65 \<le> n \<and> n \<le> 90 then char_of (n + 32) else c)"

definition to_lower :: "string \<Rightarrow> string" where
  "to_lower = map lower_char"

definition trim_left :: "char \<Rightarrow> string \<Rightarrow> string" where
  "trim_left c = dropWhile (\<lambda>x. x = c)"

text \<open>\<open>strings.TrimSpace\<close>: tab, newline, vertical tab, form feed, carriage return and space.\<close>

definition is_space :: "char \<Rightarrow> bool" where
  "is_space c \<longleftrightarrow> (of_char c :: nat) \<in> {9, 10, 11, 12, 13, 32}"

definition trim_space :: "string \<Rightarrow> string" where
  "trim_space s = rev (dropWhile is_space (rev (dropWhile is_space s)))"

text \<open>\<open>strings.ReplaceAll\<close> of one byte by another.\<close>

definition replace_char :: "char \<Rightarrow> char \<Rightarrow> string \<Rightarrow> string" where
  "replace_char a b = map (\<lambda>c. if c = a then b else c)"

text \<open>The part of a string before the first occurrence of a byte.\<close>

definition cut_at :: "char \<Rightarrow> string \<Rightarrow> string" where
  "cut_at c = takeWhile (\<lambda>x. x \<noteq> c)"

text \<open>\<open>strconv.Itoa\<close> on a natural number.\<close>

definition digit_char :: "nat \<Rightarrow> char" where
  "digit_char d = char_of (48 + d)"

fun itoa :: "nat \<Rightarrow> string" where
  "itoa n = (if n < 10 then [digit_char n] else itoa (n div 10) @ [digit_char (n mod 10)])"

declare itoa.simps [simp del]

lemma contains_sub_iff: "contains_sub s p \<longleftrightarrow> (\<exists>u v. s = u @ p @ v)"
proof (induction s)
  case Nil
  show ?case by auto
next
  case (Cons c s)
  have pre: "has_prefix t p \<longleftrightarrow> (\<exists>v. t = p @ v)" for t
    unfolding has_prefix_def by (metis append_eq_conv_conj append_take_drop_id)
  show ?case
  proof
    assume "contains_sub (c # s) p"
    then consider "has_prefix (c # s) p" | "contains_sub s p" by auto
    then show "\<exists>u v. c # s = u @ p @ v"
      by cases (metis append_Nil pre, metis Cons.IH append_Cons)
  next
    assume "\<exists>u v. c # s = u @ p @ v"
    then obtain u v where e: "c # s = u @ p @ v" by blast
    show "contains_sub (c # s) p"
    proof (cases u)
      case Nil
      with e pre [of "c # s"] have "has_prefix (c # s) p" by simp
      then show ?thesis by simp
    next
      case (Cons a u')
      with e Cons.IH show ?thesis by auto
    qed
  qed
qed

lemma contains_any_iff: "contains_any s cs \<longleftrightarrow> set s \<inter> set cs \<noteq> {}"
  by (auto simp: contains_any_def list_ex_iff)

lemma digit_char_inj: "a < 10 \<Longrightarrow> b < 10 \<Longrightarrow> digit_char a = digit_char b \<Longrightarrow> a = b"
  by (drule arg_cong [where f = "of_char :: char \<Rightarrow> nat"])
    (simp add: digit_char_def take_bit_nat_eq_self)

lemma itoa_digits: "set (itoa n) \<subseteq> digit_char ` {0..<10}"
proof (induction n rule: itoa.induct)
  case (1 n)
  show ?case
    using "1" by (subst itoa.simps) auto
qed

lemma itoa_neq_Nil [simp]: "itoa n \<noteq> []" "[] \<noteq> itoa n"
  by (subst itoa.simps, simp)+

lemma itoa_inj: "itoa m = itoa n \<Longrightarrow> m = n"
proof (induction m arbitrary: n rule: itoa.induct)
  case (1 m)
  have len: "1 < length (itoa (k div 10) @ [digit_char (k mod 10)])" for k
    by (cases "itoa (k div 10)") simp_all
  have e: "(if m < 10 then [digit_char m] else itoa (m div 10) @ [digit_char (m mod 10)])
      = (if n < 10 then [digit_char n] else itoa (n div 10) @ [digit_char (n mod 10)])"
    using "1.prems" by (simp add: itoa.simps [of m] itoa.simps [of n])
  show ?case
  proof (cases "m < 10")
    case True
    then have "n < 10" using e len [of n] itoa_neq_Nil [of "n div 10"] by (auto split: if_splits)
    with True e show ?thesis using digit_char_inj by simp
  next
    case False
    then have n: "\<not> n < 10"
      using e len [of m] itoa_neq_Nil [of "m div 10"] by (auto split: if_splits)
    with False e have "itoa (m div 10) = itoa (n div 10)" "digit_char (m mod 10) = digit_char (n mod 10)"
      by simp_all
    with "1.IH" [OF False] digit_char_inj have "m div 10 = n div 10" "m mod 10 = n mod 10"
      by simp_all
    then show ?thesis by (metis div_mult_mod_eq)
  qed
qed

text \<open>The value of a decimal and of a hexadecimal digit.\<close>

definition digit_val :: "char \<Rightarrow> nat option" where
  "digit_val c = (let n = of_char c :: nat in
     if 48 \<le> n \<and> n \<le> 57 then Some (n - 48) else None)"

definition hex_val :: "char \<Rightarrow> nat option" where
  "hex_val c = (let n = of_char c :: nat in
     if 48 \<le> n \<and> n \<le> 57 then Some (n - 48)
     else if 97 \<le> n \<and> n \<le> 102 then Some (n - 87)
     else if 65 \<le> n \<and> n \<le> 70 then Some (n - 55)
     else None)"

lemma digit_val_char: "d < 10 \<Longrightarrow> digit_val (digit_char d) = Some d"
  by (simp add: digit_val_def digit_char_def take_bit_nat_eq_self)

lemma digit_char_zero: "digit_char 0 = CHR ''0''"
  by code_simp

text \<open>\<open>fmt\<close>'s \<open>%x\<close> on a natural number.\<close>

fun hex :: "nat \<Rightarrow> string" where
  "hex n = (if n < 16 then [''0123456789abcdef'' ! n]
     else hex (n div 16) @ [''0123456789abcdef'' ! (n mod 16)])"

declare hex.simps [simp del]

text \<open>Segments of a string between occurrences of a separator byte.\<close>

fun split_on :: "char \<Rightarrow> string \<Rightarrow> string list" where
  "split_on c [] = [[]]"
| "split_on c (x # xs) =
     (if x = c then [] # split_on c xs
      else (case split_on c xs of [] \<Rightarrow> [[x]] | y # ys \<Rightarrow> (x # y) # ys))"

lemma split_on_neq_Nil [simp]: "split_on c s \<noteq> []"
  by (induction s) (auto split: list.split)

fun join_with :: "char \<Rightarrow> string list \<Rightarrow> string" where
  "join_with c [] = []"
| "join_with c [s] = s"
| "join_with c (s # ss) = s @ c # join_with c ss"

lemma join_split: "join_with c (split_on c s) = s"
proof (induction s)
  case (Cons x xs)
  obtain y ys where "split_on c xs = y # ys" by (cases "split_on c xs") auto
  with Cons show ?case by (cases ys) auto
qed simp

lemma split_on_no_sep: "seg \<in> set (split_on c s) \<Longrightarrow> c \<notin> set seg"
proof (induction s arbitrary: seg)
  case (Cons x xs)
  obtain y ys where "split_on c xs = y # ys" by (cases "split_on c xs") auto
  with Cons show ?case by (auto split: if_splits)
qed simp

lemma split_on_replace:
  "b \<notin> set s \<or> a = b \<Longrightarrow> split_on b (replace_char a b s) = split_on a s"
  by (induction s) (auto simp: replace_char_def split: list.split)

lemma split_on_append_sep: "split_on c (s @ c # t) = split_on c s @ split_on c t"
  by (induction s) (auto split: list.split simp: append_eq_Cons_conv)

section \<open>First error wins\<close>

text \<open>
  A Go function with early error returns is a chain of optional errors; a loop that returns
  the first error it meets is \<open>first_err\<close> over the indexed list.
\<close>

definition or_err :: "'e option \<Rightarrow> 'e option \<Rightarrow> 'e option" where
  "or_err a b = (case a of None \<Rightarrow> b | Some e \<Rightarrow> Some e)"

definition err_if :: "bool \<Rightarrow> 'e \<Rightarrow> 'e option" where
  "err_if b e = (if b then Some e else None)"

fun first_err :: "(nat \<Rightarrow> 'a \<Rightarrow> 'e option) \<Rightarrow> nat \<Rightarrow> 'a list \<Rightarrow> 'e option" where
  "first_err f i [] = None"
| "first_err f i (x # xs) = or_err (f i x) (first_err f (i + 1) xs)"

lemma or_err_None [simp]: "or_err a b = None \<longleftrightarrow> a = None \<and> b = None"
  by (simp add: or_err_def split: option.split)

lemma or_err_simps [simp]: "or_err None b = b" "or_err (Some e) b = Some e"
  by (simp_all add: or_err_def)

lemma err_if_None [simp]: "err_if b e = None \<longleftrightarrow> \<not> b"
  by (simp add: err_if_def)

lemma first_err_None: "first_err f i xs = None \<longleftrightarrow> (\<forall>k < length xs. f (i + k) (xs ! k) = None)"
proof (induction xs arbitrary: i)
  case (Cons x xs)
  show ?case using Cons [of "i + 1"] by (auto simp: nth_Cons split: nat.split)
qed simp

lemma first_err_None_all:
  "(\<And>i x. f i x = None \<longleftrightarrow> P x) \<Longrightarrow> first_err f i xs = None \<longleftrightarrow> list_all P xs"
  by (induction xs arbitrary: i) simp_all

section \<open>Running a component and simulating it\<close>

text \<open>
  A component is a step function from a state and an operation to a result and a state.
  Running a list of operations collects the results.
\<close>

fun run_ops :: "('s \<Rightarrow> 'o \<Rightarrow> 'r \<times> 's) \<Rightarrow> 's \<Rightarrow> 'o list \<Rightarrow> 'r list \<times> 's" where
  "run_ops step s [] = ([], s)"
| "run_ops step s (e # es) =
     (let (r, s') = step s e; (rs, s'') = run_ops step s' es in (r # rs, s''))"

text \<open>
  A component refines a specification when the abstraction of its state follows the
  specification's step with the same result, under an invariant the steps keep. The lemmas
  lift this to whole histories once for all components.
\<close>

locale simulation =
  fixes inv :: "'s \<Rightarrow> bool"
    and abs :: "'s \<Rightarrow> 'a"
    and ok :: "'o \<Rightarrow> bool"
    and step :: "'s \<Rightarrow> 'o \<Rightarrow> 'r \<times> 's"
    and astep :: "'a \<Rightarrow> 'o \<Rightarrow> 'r \<times> 'a"
  assumes step_inv: "inv s \<Longrightarrow> ok e \<Longrightarrow> inv (snd (step s e))"
    and step_sim: "inv s \<Longrightarrow> ok e \<Longrightarrow>
      astep (abs s) e = (fst (step s e), abs (snd (step s e)))"
begin

lemma run_inv: "inv s \<Longrightarrow> list_all ok es \<Longrightarrow> inv (snd (run_ops step s es))"
proof (induction es arbitrary: s)
  case Nil
  then show ?case by simp
next
  case (Cons e es)
  then have "inv (snd (step s e))" by (simp add: step_inv)
  with Cons show ?case by (simp add: split_beta Let_def)
qed

lemma run_sim: "inv s \<Longrightarrow> list_all ok es \<Longrightarrow>
    run_ops astep (abs s) es = (fst (run_ops step s es), abs (snd (run_ops step s es)))"
proof (induction es arbitrary: s)
  case Nil
  show ?case by simp
next
  case (Cons e es)
  obtain r s' where st: "step s e = (r, s')" by fastforce
  with Cons.prems step_inv [of s e] step_sim [of s e]
  have "inv s'" "astep (abs s) e = (r, abs s')" by simp_all
  with Cons show ?case by (simp add: st split: prod.split)
qed

end


section \<open>Idempotent jobs\<close>

text \<open>
  A cleanup is a list of jobs, run until one fails. When a job that succeeds leaves its object
  settled, a settled job succeeds without a visible change, and jobs do not unsettle each
  other, a second run of the whole list is a success that changes nothing visible.
\<close>

fun run_jobs :: "('o \<Rightarrow> 's \<Rightarrow> bool \<times> 's) \<Rightarrow> 'o list \<Rightarrow> 's \<Rightarrow> bool \<times> 's" where
  "run_jobs exec [] s = (True, s)"
| "run_jobs exec (x # xs) s =
     (let (ok, s') = exec x s in if ok then run_jobs exec xs s' else (False, s'))"

lemma run_jobs_append:
  "run_jobs exec (xs @ ys) s =
     (let (ok, s') = run_jobs exec xs s in if ok then run_jobs exec ys s' else (False, s'))"
  by (induction xs arbitrary: s) (auto simp: Let_def split: prod.split)

locale settling_jobs =
  fixes exec :: "'o \<Rightarrow> 's \<Rightarrow> bool \<times> 's"
    and settled :: "'o \<Rightarrow> 's \<Rightarrow> bool"
    and apart :: "'o \<Rightarrow> 'o \<Rightarrow> bool"
    and view :: "'s \<Rightarrow> 'v"
  assumes settles: "fst (exec x s) \<Longrightarrow> settled x (snd (exec x s))"
    and stays: "settled x s \<Longrightarrow> apart x y \<Longrightarrow> settled x (snd (exec y s))"
    and succeeds: "settled x s \<Longrightarrow> fst (exec x s)"
    and invisible: "settled x s \<Longrightarrow> view (snd (exec x s)) = view s"
begin

definition compatible :: "'o list \<Rightarrow> bool" where
  "compatible xs \<longleftrightarrow> (\<forall>x \<in> set xs. \<forall>y \<in> set xs. x = y \<or> apart x y)"

lemma keeps_settled:
  "settled x s \<Longrightarrow> x = y \<or> apart x y \<Longrightarrow> fst (exec y s) \<Longrightarrow> settled x (snd (exec y s))"
  using settles stays by blast

lemma run_keeps_settled:
  "settled x s \<Longrightarrow> \<forall>y \<in> set ys. x = y \<or> apart x y \<Longrightarrow> fst (run_jobs exec ys s) \<Longrightarrow>
     settled x (snd (run_jobs exec ys s))"
proof (induction ys arbitrary: s)
  case (Cons y ys)
  then show ?case using keeps_settled [of x s y] by (auto simp: Let_def split: prod.splits if_splits)
qed simp

lemma run_settles:
  "compatible xs \<Longrightarrow> fst (run_jobs exec xs s) \<Longrightarrow> x \<in> set xs \<Longrightarrow> settled x (snd (run_jobs exec xs s))"
proof (induction xs arbitrary: s)
  case (Cons y ys)
  obtain ok s' where e: "exec y s = (ok, s')" by fastforce
  with Cons.prems have ok: ok "fst (run_jobs exec ys s')" by (auto split: if_splits)
  have c: "compatible ys" "\<forall>z \<in> set ys. y = z \<or> apart y z"
    using Cons.prems(1) by (auto simp: compatible_def)
  show ?case
  proof (cases "x = y")
    case True
    have "settled y s'" using settles [of y s] e ok by simp
    from run_keeps_settled [OF this c(2) ok(2)] show ?thesis using True e ok by simp
  next
    case False
    with Cons c ok e show ?thesis by simp
  qed
qed simp

lemma settled_run:
  "compatible ys \<Longrightarrow> set xs \<subseteq> set ys \<Longrightarrow> \<forall>x \<in> set ys. settled x s \<Longrightarrow>
     fst (run_jobs exec xs s) \<and> view (snd (run_jobs exec xs s)) = view s"
proof (induction xs arbitrary: s)
  case (Cons x xs)
  obtain ok s' where e: "exec x s = (ok, s')" by fastforce
  have "settled x s" using Cons.prems by simp
  with succeeds invisible e have ok: ok "view s' = view s" by fastforce+
  have "\<forall>y \<in> set ys. settled y s'"
    using Cons.prems keeps_settled [of _ s x] e ok by (auto simp: compatible_def)
  with Cons ok e show ?case by simp
qed simp

lemma rerun:
  assumes "compatible xs" and "run_jobs exec xs s = (True, s')"
  shows "fst (run_jobs exec xs s') \<and> view (snd (run_jobs exec xs s')) = view s'"
  using settled_run [OF assms(1) subset_refl] run_settles [OF assms(1), of s] assms(2) by simp

end

end
