(* ===== verification/Ring.thy ===== *)
theory Ring
  imports Prelude
begin

text \<open>
  The fixed-capacity circular buffer of \<open>internal/bounded/ring.go\<close>. The type parameter's
  zero value, which the code writes over a vacated slot, is the argument \<open>z\<close>. The head
  index and the count are never negative, so they are \<open>nat\<close>; neither reaches the slice
  length's double, so no addition overflows.
\<close>

record 'a ring =
  buf :: "'a list"
  head :: nat
  count :: nat

definition ring_new :: "'a \<Rightarrow> int \<Rightarrow> 'a ring may_panic" where
  "ring_new z capacity =
     (if capacity \<le> 0 then Inl (Panic ''bounded: NewRing capacity must be > 0'')
      else Inr \<lparr>buf = replicate (nat capacity) z, head = 0, count = 0\<rparr>)"

definition ring_cap :: "'a ring \<Rightarrow> nat" where
  "ring_cap r = length (buf r)"

definition ring_len :: "'a ring \<Rightarrow> nat" where
  "ring_len r = count r"

definition ring_empty :: "'a ring \<Rightarrow> bool" where
  "ring_empty r \<longleftrightarrow> count r = 0"

definition ring_full :: "'a ring \<Rightarrow> bool" where
  "ring_full r \<longleftrightarrow> count r = length (buf r)"

definition ring_push :: "'a ring \<Rightarrow> 'a \<Rightarrow> bool \<times> 'a ring" where
  "ring_push r v =
     (if count r = length (buf r) then (False, r)
      else (True, r\<lparr>buf := (buf r)[(head r + count r) mod length (buf r) := v],
                   count := count r + 1\<rparr>))"

text \<open>The dropped element and the flag are one option, \<open>None\<close> for \<open>evicted=false\<close>.\<close>

definition ring_push_evict :: "'a \<Rightarrow> 'a ring \<Rightarrow> 'a \<Rightarrow> 'a option \<times> 'a ring" where
  "ring_push_evict z r v =
     (let (dropped, r1) =
        (if count r = length (buf r)
         then (Some (buf r ! head r),
               r\<lparr>buf := (buf r)[head r := z], head := (head r + 1) mod length (buf r),
                 count := count r - 1\<rparr>)
         else (None, r))
      in (dropped, r1\<lparr>buf := (buf r1)[(head r1 + count r1) mod length (buf r1) := v],
                      count := count r1 + 1\<rparr>))"

definition ring_pop :: "'a \<Rightarrow> 'a ring \<Rightarrow> 'a option \<times> 'a ring" where
  "ring_pop z r =
     (if count r = 0 then (None, r)
      else (Some (buf r ! head r),
            r\<lparr>buf := (buf r)[head r := z], head := (head r + 1) mod length (buf r),
              count := count r - 1\<rparr>))"

definition ring_peek :: "'a ring \<Rightarrow> 'a option" where
  "ring_peek r = (if count r = 0 then None else Some (buf r ! head r))"

definition ring_reset :: "'a \<Rightarrow> 'a ring \<Rightarrow> 'a ring" where
  "ring_reset z r = r\<lparr>buf := map (\<lambda>_. z) (buf r), head := 0, count := 0\<rparr>"

section \<open>Invariant and abstraction\<close>

text \<open>
  The slots in use are \<open>count\<close> positions from \<open>head\<close>, modulo the capacity. A ring is clean
  when every other slot holds the zero value, so that nothing keeps a removed element alive.
\<close>

definition ring_slot :: "'a ring \<Rightarrow> nat \<Rightarrow> nat" where
  "ring_slot r i = (head r + i) mod length (buf r)"

definition ring_wf :: "'a ring \<Rightarrow> bool" where
  "ring_wf r \<longleftrightarrow> head r < length (buf r) \<and> count r \<le> length (buf r)"

definition ring_list :: "'a ring \<Rightarrow> 'a list" where
  "ring_list r = map (\<lambda>i. buf r ! ring_slot r i) [0..<count r]"

definition ring_clean :: "'a \<Rightarrow> 'a ring \<Rightarrow> bool" where
  "ring_clean z r \<longleftrightarrow> (\<forall>i. count r \<le> i \<and> i < length (buf r) \<longrightarrow> buf r ! ring_slot r i = z)"

definition ring_inv :: "'a \<Rightarrow> 'a ring \<Rightarrow> bool" where
  "ring_inv z r \<longleftrightarrow> ring_wf r \<and> ring_clean z r"

lemma ring_slot_less: "ring_wf r \<Longrightarrow> ring_slot r i < length (buf r)"
  unfolding ring_wf_def ring_slot_def by (metis gr_implies_not_zero mod_less_divisor neq0_conv)

lemma mod_window_inj:
  fixes h i j n :: nat
  assumes "i < n" "j < n" "(h + i) mod n = (h + j) mod n"
  shows "i = j"
proof -
  define k where "k = h mod n"
  have k: "k < n" using assms(1) by (simp add: k_def)
  have fold: "(h + x) mod n = (if k + x < n then k + x else k + x - n)" if "x < n" for x
  proof -
    have "(h + x) mod n = (k + x) mod n" by (simp add: k_def mod_add_left_eq)
    then show ?thesis using k that by (simp add: mod_if)
  qed
  show ?thesis using assms(3) k unfolding fold [OF assms(1)] fold [OF assms(2)]
    using assms(1,2) by (auto split: if_splits)
qed

lemma ring_slot_inj:
  "i < length (buf r) \<Longrightarrow> j < length (buf r) \<Longrightarrow> ring_slot r i = ring_slot r j \<longleftrightarrow> i = j"
  unfolding ring_slot_def using mod_window_inj by metis

lemma length_ring_list [simp]: "length (ring_list r) = count r"
  by (simp add: ring_list_def)

section \<open>The operations on the abstraction\<close>

lemma ring_new_inv: "ring_new z c = Inr r \<Longrightarrow> ring_inv z r \<and> ring_list r = [] \<and> int (ring_cap r) = c"
  by (auto simp: ring_new_def ring_inv_def ring_wf_def ring_clean_def ring_list_def ring_cap_def
      ring_slot_def split: if_splits)

lemma ring_push_full: "ring_full r \<Longrightarrow> ring_push r v = (False, r)"
  by (simp add: ring_push_def ring_full_def)

lemma ring_push_ex:
  assumes "ring_inv z r" "\<not> ring_full r"
  obtains r' where "ring_push r v = (True, r')" "ring_inv z r'"
    "ring_list r' = ring_list r @ [v]" "ring_cap r' = ring_cap r"
proof -
  let ?n = "length (buf r)"
  define r' where "r' = r\<lparr>buf := (buf r)[ring_slot r (count r) := v], count := count r + 1\<rparr>"
  have wf: "ring_wf r" and clean: "ring_clean z r" and lt: "count r < ?n"
    using assms by (auto simp: ring_inv_def ring_full_def ring_wf_def)
  have slot: "ring_slot r' i = ring_slot r i" for i by (simp add: r'_def ring_slot_def)
  have rd: "buf r' ! ring_slot r i = (if i = count r then v else buf r ! ring_slot r i)"
    if "i < ?n" for i
    using that lt ring_slot_less [OF wf] ring_slot_inj [of i r "count r"]
    by (auto simp: r'_def nth_list_update)
  have "ring_push r v = (True, r')"
    using lt by (simp add: ring_push_def r'_def ring_slot_def)
  moreover have "ring_list r' = ring_list r @ [v]"
  proof -
    have "map (\<lambda>i. buf r' ! ring_slot r i) [0..<count r] = map (\<lambda>i. buf r ! ring_slot r i) [0..<count r]"
      using lt rd by (intro map_cong) auto
    moreover have "buf r' ! ring_slot r (count r) = v" using rd [OF lt] by simp
    moreover have "count r' = Suc (count r)" by (simp add: r'_def)
    ultimately show ?thesis by (simp add: ring_list_def slot)
  qed
  moreover have "ring_inv z r'"
  proof -
    have "buf r' ! ring_slot r' i = z" if "count r' \<le> i" "i < length (buf r')" for i
      using that clean rd [of i] unfolding slot by (simp add: r'_def ring_clean_def)
    moreover have "ring_wf r'" using wf lt by (simp add: ring_wf_def r'_def)
    ultimately show ?thesis by (simp add: ring_inv_def ring_clean_def)
  qed
  moreover have "ring_cap r' = ring_cap r" by (simp add: ring_cap_def r'_def)
  ultimately show thesis using that by blast
qed

lemma ring_push_room:
  assumes "ring_inv z r" "\<not> ring_full r"
  shows "fst (ring_push r v) \<and> ring_inv z (snd (ring_push r v))
    \<and> ring_list (snd (ring_push r v)) = ring_list r @ [v]
    \<and> ring_cap (snd (ring_push r v)) = ring_cap r"
  by (rule ring_push_ex [OF assms, of v]) simp

lemma ring_peek_list: "ring_wf r \<Longrightarrow> ring_peek r = (case ring_list r of [] \<Rightarrow> None | x # _ \<Rightarrow> Some x)"
proof (cases "count r")
  case (Suc n)
  assume "ring_wf r"
  then have "ring_slot r 0 = head r" by (simp add: ring_slot_def ring_wf_def)
  with Suc show ?thesis
    by (simp add: ring_peek_def ring_list_def upt_conv_Cons del: upt_Suc)
qed (simp add: ring_peek_def ring_list_def)

lemma ring_pop_empty: "ring_list r = [] \<Longrightarrow> ring_pop z r = (None, r)"
  by (simp add: ring_pop_def ring_list_def)

lemma upt_0_Cons: "0 < n \<Longrightarrow> [0..<n] = 0 # map Suc [0..<n - 1]"
  by (cases n) (simp_all add: upt_conv_Cons map_Suc_upt del: upt_Suc)

lemma ring_pop_ex:
  assumes inv: "ring_inv z r" and ls: "ring_list r = x # xs"
  obtains r' where "ring_pop z r = (Some x, r')" "ring_inv z r'" "ring_list r' = xs"
    "ring_cap r' = ring_cap r"
proof -
  let ?n = "length (buf r)"
  define r' where "r' = r\<lparr>buf := (buf r)[head r := z], head := (head r + 1) mod ?n,
    count := count r - 1\<rparr>"
  have wf: "ring_wf r" and clean: "ring_clean z r" using inv by (auto simp: ring_inv_def)
  have pos: "0 < count r" using ls by (metis length_ring_list length_greater_0_conv list.distinct(1))
  have le: "count r \<le> ?n" and hd: "head r = ring_slot r 0"
    using wf by (auto simp: ring_wf_def ring_slot_def)
  have slot: "ring_slot r' i = ring_slot r (i + 1)" for i
    by (simp add: r'_def ring_slot_def mod_add_left_eq)
  have ne: "buf r \<noteq> []" using pos le by auto
  have rd: "buf r' ! ring_slot r i = (if i = 0 then z else buf r ! ring_slot r i)" if "i < ?n" for i
    using that ne ring_slot_less [OF wf] ring_slot_inj [of i r 0]
    by (auto simp: r'_def hd nth_list_update)
  have last: "ring_slot r ?n = ring_slot r 0" by (simp add: ring_slot_def)
  have split: "ring_list r = buf r ! head r # map (\<lambda>i. buf r ! ring_slot r (i + 1)) [0..<count r - 1]"
    by (simp add: ring_list_def hd upt_0_Cons [OF pos] comp_def)
  have "ring_list r' = map (\<lambda>i. buf r ! ring_slot r (i + 1)) [0..<count r - 1]"
    unfolding ring_list_def using rd le by (simp add: slot) (simp add: r'_def)
  then have "ring_list r' = xs" using ls split by simp
  moreover have "ring_pop z r = (Some x, r')"
    using pos ls split by (simp add: ring_pop_def r'_def)
  moreover have "ring_inv z r'"
  proof -
    have "buf r' ! ring_slot r' i = z" if "count r' \<le> i" "i < length (buf r')" for i
    proof (cases "i + 1 < ?n")
      case True
      with that clean rd [of "i + 1"] show ?thesis unfolding slot
        by (simp add: r'_def ring_clean_def)
    next
      case False
      with that have "i + 1 = ?n" by (simp add: r'_def)
      with last rd [of 0] ne show ?thesis unfolding slot by simp
    qed
    moreover have "ring_wf r'" 
      using wf pos ne by (auto simp: ring_wf_def r'_def intro!: mod_less_divisor)
    ultimately show ?thesis by (simp add: ring_inv_def ring_clean_def)
  qed
  moreover have "ring_cap r' = ring_cap r" by (simp add: ring_cap_def r'_def)
  ultimately show thesis using that by blast
qed

lemma ring_pop_Cons:
  assumes "ring_inv z r" "ring_list r = x # xs"
  shows "fst (ring_pop z r) = Some x \<and> ring_inv z (snd (ring_pop z r))
    \<and> ring_list (snd (ring_pop z r)) = xs \<and> ring_cap (snd (ring_pop z r)) = ring_cap r"
  by (rule ring_pop_ex [OF assms]) simp

lemma ring_push_evict_room:
  assumes "\<not> ring_full r"
  shows "ring_push_evict z r v = (None, snd (ring_push r v))"
  using assms by (simp add: ring_push_evict_def ring_push_def ring_full_def)

text \<open>On a full ring, eviction is a pop followed by a push.\<close>

lemma ring_push_evict_full:
  assumes "ring_inv z r" "ring_full r"
  shows "ring_push_evict z r v =
    (fst (ring_pop z r), snd (ring_push (snd (ring_pop z r)) v))"
proof -
  have "0 < count r" "count r = length (buf r)" "length (buf r) - 1 \<noteq> length (buf r)"
    using assms by (auto simp: ring_full_def ring_inv_def ring_wf_def)
  then show ?thesis
    by (cases r) (simp add: ring_push_evict_def ring_pop_def ring_push_def)
qed

lemma ring_push_evict_list:
  assumes inv: "ring_inv z r"
  shows "ring_inv z (snd (ring_push_evict z r v)) \<and> ring_cap (snd (ring_push_evict z r v)) = ring_cap r
    \<and> fst (ring_push_evict z r v) = (if ring_full r then Some (hd (ring_list r)) else None)
    \<and> ring_list (snd (ring_push_evict z r v)) =
      (if ring_full r then tl (ring_list r) else ring_list r) @ [v]"
proof (cases "ring_full r")
  case True
  with inv have "count r \<noteq> 0" by (auto simp: ring_full_def ring_inv_def ring_wf_def)
  then obtain x xs where ls: "ring_list r = x # xs"
    by (metis length_ring_list list.exhaust list.size(3))
  let ?r1 = "snd (ring_pop z r)"
  note r1 = ring_pop_Cons [OF inv ls]
  have "length (ring_list ?r1) < ring_cap ?r1"
    using r1 True ls length_ring_list [of r] by (simp add: ring_cap_def ring_full_def)
  then have "\<not> ring_full ?r1" by (simp add: ring_full_def ring_cap_def)
  with r1 ring_push_room [of z ?r1 v] show ?thesis
    using True ls by (simp add: ring_push_evict_full [OF inv True])
next
  case False
  then show ?thesis
    using ring_push_room [OF inv False, of v] by (simp add: ring_push_evict_room)
qed

lemma ring_reset_inv:
  "ring_inv z r \<Longrightarrow> ring_inv z (ring_reset z r) \<and> ring_list (ring_reset z r) = []
     \<and> ring_cap (ring_reset z r) = ring_cap r"
  by (auto simp: ring_inv_def ring_wf_def ring_clean_def ring_reset_def ring_list_def ring_cap_def
      ring_slot_def)

section \<open>The interface its clients rely on\<close>

text \<open>
  A bounded first-in first-out buffer: a push succeeds exactly when there is room, a pop
  takes the oldest element. The queues of the data path use a ring only through these laws.
\<close>

locale bounded_fifo =
  fixes inv :: "'s \<Rightarrow> bool"
    and elems :: "'s \<Rightarrow> 'a list"
    and cap :: "'s \<Rightarrow> nat"
    and push :: "'s \<Rightarrow> 'a \<Rightarrow> bool \<times> 's"
    and pop :: "'s \<Rightarrow> 'a option \<times> 's"
    and peek :: "'s \<Rightarrow> 'a option"
  assumes bound: "inv s \<Longrightarrow> length (elems s) \<le> cap s"
    and push_ok: "inv s \<Longrightarrow> length (elems s) < cap s \<Longrightarrow>
      fst (push s v) \<and> inv (snd (push s v)) \<and> elems (snd (push s v)) = elems s @ [v]
        \<and> cap (snd (push s v)) = cap s"
    and push_full: "inv s \<Longrightarrow> length (elems s) = cap s \<Longrightarrow> push s v = (False, s)"
    and pop_nil: "inv s \<Longrightarrow> elems s = [] \<Longrightarrow> pop s = (None, s)"
    and pop_Cons: "inv s \<Longrightarrow> elems s = x # xs \<Longrightarrow>
      fst (pop s) = Some x \<and> inv (snd (pop s)) \<and> elems (snd (pop s)) = xs
        \<and> cap (snd (pop s)) = cap s"
    and peek_elems: "inv s \<Longrightarrow> peek s = (case elems s of [] \<Rightarrow> None | x # _ \<Rightarrow> Some x)"
begin

lemma push_elems: "inv s \<Longrightarrow> elems (snd (push s v)) =
    (if length (elems s) < cap s then elems s @ [v] else elems s)"
  using push_ok [of s v] push_full [of s v] bound [of s] by (cases "length (elems s) < cap s") auto

lemma push_inv: "inv s \<Longrightarrow> inv (snd (push s v))"
  using push_ok [of s v] push_full [of s v] bound [of s] by (cases "length (elems s) < cap s") auto

lemma push_cap: "inv s \<Longrightarrow> cap (snd (push s v)) = cap s"
  using push_ok [of s v] push_full [of s v] bound [of s] by (cases "length (elems s) < cap s") auto

lemma pop_inv: "inv s \<Longrightarrow> inv (snd (pop s))"
  using pop_nil [of s] pop_Cons [of s] by (cases "elems s") auto

lemma pop_cap: "inv s \<Longrightarrow> cap (snd (pop s)) = cap s"
  using pop_nil [of s] pop_Cons [of s] by (cases "elems s") auto

lemma pop_elems: "inv s \<Longrightarrow> elems (snd (pop s)) = tl (elems s)"
  using pop_nil [of s] pop_Cons [of s] by (cases "elems s") auto

lemma pop_result: "inv s \<Longrightarrow> fst (pop s) = (case elems s of [] \<Rightarrow> None | x # _ \<Rightarrow> Some x)"
  using pop_nil [of s] pop_Cons [of s] by (cases "elems s") auto

lemma peek_pop: "inv s \<Longrightarrow> fst (pop s) = peek s"
  by (simp add: pop_result peek_elems)

lemmas fifo_laws = push_elems push_inv push_cap pop_inv pop_cap pop_elems pop_result

end

interpretation ring_fifo:
  bounded_fifo "ring_inv z" ring_list ring_cap ring_push "ring_pop z" ring_peek for z :: 'a
proof unfold_locales
  fix s :: "'a ring" and v x xs
  assume inv: "ring_inv z s"
  show "length (ring_list s) \<le> ring_cap s"
    using inv by (simp add: ring_inv_def ring_wf_def ring_cap_def)
  show "length (ring_list s) < ring_cap s \<Longrightarrow>
      fst (ring_push s v) \<and> ring_inv z (snd (ring_push s v))
      \<and> ring_list (snd (ring_push s v)) = ring_list s @ [v]
      \<and> ring_cap (snd (ring_push s v)) = ring_cap s"
    using ring_push_room [OF inv, of v] by (auto simp: ring_full_def ring_cap_def)
  show "length (ring_list s) = ring_cap s \<Longrightarrow> ring_push s v = (False, s)"
    by (simp add: ring_push_full ring_full_def ring_cap_def)
  show "ring_list s = [] \<Longrightarrow> ring_pop z s = (None, s)" by (rule ring_pop_empty)
  show "ring_list s = x # xs \<Longrightarrow> fst (ring_pop z s) = Some x \<and> ring_inv z (snd (ring_pop z s))
      \<and> ring_list (snd (ring_pop z s)) = xs \<and> ring_cap (snd (ring_pop z s)) = ring_cap s"
    using ring_pop_Cons [OF inv, of x xs] by auto
  show "ring_peek s = (case ring_list s of [] \<Rightarrow> None | x # _ \<Rightarrow> Some x)"
    using inv by (simp add: ring_peek_list ring_inv_def)
qed

section \<open>Histories\<close>

datatype 'a ring_op = Push 'a | PushEvict 'a | Pop | Peek | Reset

datatype 'a ring_res = Pushed bool | Evicted "'a option" | Popped "'a option" | Peeked "'a option" | Cleared

fun ring_step :: "'a \<Rightarrow> 'a ring \<Rightarrow> 'a ring_op \<Rightarrow> 'a ring_res \<times> 'a ring" where
  "ring_step z r (Push v) = map_prod Pushed id (ring_push r v)"
| "ring_step z r (PushEvict v) = map_prod Evicted id (ring_push_evict z r v)"
| "ring_step z r Pop = map_prod Popped id (ring_pop z r)"
| "ring_step z r Peek = (Peeked (ring_peek r), r)"
| "ring_step z r Reset = (Cleared, ring_reset z r)"

text \<open>The specification: a list of at most \<open>c\<close> elements.\<close>

fun fifo_step :: "nat \<times> 'a list \<Rightarrow> 'a ring_op \<Rightarrow> 'a ring_res \<times> nat \<times> 'a list" where
  "fifo_step (c, xs) (Push v) =
     (if length xs < c then (Pushed True, c, xs @ [v]) else (Pushed False, c, xs))"
| "fifo_step (c, xs) (PushEvict v) =
     (if length xs < c then (Evicted None, c, xs @ [v]) else (Evicted (Some (hd xs)), c, tl xs @ [v]))"
| "fifo_step (c, xs) Pop = (case xs of [] \<Rightarrow> (Popped None, c, []) | x # ys \<Rightarrow> (Popped (Some x), c, ys))"
| "fifo_step (c, xs) Peek = (Peeked (case xs of [] \<Rightarrow> None | x # _ \<Rightarrow> Some x), c, xs)"
| "fifo_step (c, xs) Reset = (Cleared, c, [])"

definition ring_abs :: "'a ring \<Rightarrow> nat \<times> 'a list" where
  "ring_abs r = (ring_cap r, ring_list r)"

lemma ring_not_full_iff: "ring_inv z r \<Longrightarrow> (length (ring_list r) < ring_cap r) = (\<not> ring_full r)"
  by (auto simp: ring_inv_def ring_wf_def ring_cap_def ring_full_def)

lemma ring_step_refines:
  assumes "ring_inv z r"
  shows "ring_inv z (snd (ring_step z r e))"
    and "fifo_step (ring_abs r) e = (fst (ring_step z r e), ring_abs (snd (ring_step z r e)))"
proof -
  note laws = ring_fifo.fifo_laws [OF assms]
  show "ring_inv z (snd (ring_step z r e))"
    using assms laws ring_push_evict_list [OF assms] ring_reset_inv [OF assms]
    by (cases e) simp_all
  show "fifo_step (ring_abs r) e = (fst (ring_step z r e), ring_abs (snd (ring_step z r e)))"
  proof (cases e)
    case (Push v)
    then show ?thesis
      using ring_fifo.push_ok [OF assms, of v] ring_fifo.push_full [OF assms, of v]
        ring_fifo.bound [OF assms]
      by (cases "length (ring_list r) < ring_cap r") (auto simp: ring_abs_def)
  next
    case (PushEvict v)
    then show ?thesis using ring_push_evict_list [OF assms, of v] ring_not_full_iff [OF assms]
      by (auto simp: ring_abs_def)
  next
    case Pop
    then show ?thesis
      using laws ring_fifo.pop_nil [OF assms] by (auto simp: ring_abs_def split: list.split)
  next
    case Peek
    then show ?thesis using ring_fifo.peek_elems [OF assms] by (simp add: ring_abs_def)
  next
    case Reset
    then show ?thesis using ring_reset_inv [OF assms] by (simp add: ring_abs_def)
  qed
qed

interpretation ring_sim: simulation "ring_inv z" ring_abs "\<lambda>_. True" "ring_step z" fifo_step for z :: 'a
  by unfold_locales (simp_all add: ring_step_refines)

lemma fifo_step_cap [simp]: "fst (snd (fifo_step s e)) = fst s"
  by (cases s; cases e) (auto split: list.split)

lemma fifo_run_cap: "fst (snd (run_ops fifo_step (c, xs) es)) = c"
proof (induction es arbitrary: xs)
  case (Cons e es)
  obtain r ys where "fifo_step (c, xs) e = (r, c, ys)"
    using fifo_step_cap [of "(c, xs)" e] by (metis fst_conv prod.collapse)
  with Cons show ?case by (simp add: split_beta)
qed simp

section \<open>Properties\<close>

text \<open>
  C23. A ring built by \<open>NewRing\<close> and driven through any sequence of Push, PushEvict, Pop,
  Peek and Reset calls returns exactly what a list bounded by its capacity returns, and its
  contents are that list: first in first out, no element lost, duplicated or reordered by the
  wrap-around of the indices.
\<close>

theorem ring_history_is_bounded_fifo:
  assumes "ring_new z capacity = Inr r"
  shows "run_ops fifo_step (nat capacity, []) es =
      (fst (run_ops (ring_step z) r es), nat capacity, ring_list (snd (run_ops (ring_step z) r es)))
    \<and> ring_cap (snd (run_ops (ring_step z) r es)) = nat capacity"
proof -
  have inv: "ring_inv z r" and a: "ring_abs r = (nat capacity, [])"
    using ring_new_inv [OF assms] by (auto simp: ring_abs_def)
  have sim: "run_ops fifo_step (nat capacity, []) es =
      (fst (run_ops (ring_step z) r es), ring_abs (snd (run_ops (ring_step z) r es)))"
    using ring_sim.run_sim [OF inv, of es] unfolding a by (simp add: list_all_iff)
  have "fst (snd (run_ops fifo_step (nat capacity, []) es)) = nat capacity"
    by (rule fifo_run_cap)
  with sim show ?thesis by (simp add: ring_abs_def)
qed

theorem ring_history_is_bounded_fifo_witness:
  "fst (run_ops (ring_step 0) \<lparr>buf = [0, 0], head = 0, count = 0\<rparr>
       [Push 1, Push 2, PushEvict (3::nat), Pop, Push 4, Push 5, Peek])
     = [Pushed True, Pushed True, Evicted (Some 1), Popped (Some 2), Pushed True, Pushed False,
       Peeked (Some 3)]"
proof -
  have "ring_new (0::nat) 2 = Inr \<lparr>buf = [0, 0], head = 0, count = 0\<rparr>"
    by (simp add: ring_new_def numeral_2_eq_2)
  from ring_history_is_bounded_fifo [OF this]
  have "fst (run_ops (ring_step 0) \<lparr>buf = [0, 0], head = 0, count = 0\<rparr> es) =
      fst (run_ops fifo_step (2, []) es)" for es :: "nat ring_op list"
    by (simp add: prod_eq_iff)
  note this [of "[Push 1, Push 2, PushEvict 3, Pop, Push 4, Push 5, Peek]"]
  also have "fst (run_ops fifo_step (2, []) [Push 1, Push 2, PushEvict (3::nat), Pop, Push 4, Push 5, Peek])
    = [Pushed True, Pushed True, Evicted (Some 1), Popped (Some 2), Pushed True, Pushed False,
       Peeked (Some 3)]" by simp
  finally show ?thesis .
qed

text \<open>
  Whatever the history, every slot that holds no stored element holds the zero value, so
  popped, evicted and reset elements are released to the garbage collector.
\<close>

theorem ring_releases_removed:
  assumes "ring_new z capacity = Inr r"
    and "r' = snd (run_ops (ring_step z) r es)"
    and "count r' \<le> i" and "i < length (buf r')"
  shows "buf r' ! ((head r' + i) mod length (buf r')) = z"
proof -
  have "ring_inv z r'"
    using ring_sim.run_inv [of z r es] ring_new_inv [OF assms(1)] assms(2) by (simp add: list_all_iff)
  with assms(3,4) show ?thesis by (simp add: ring_inv_def ring_clean_def ring_slot_def)
qed

theorem ring_releases_removed_witness:
  "buf (snd (run_ops (ring_step 0) \<lparr>buf = [0, 0], head = 0, count = 0\<rparr> [Push (7::nat), Pop])) ! 0 = 0"
proof -
  have n: "ring_new (0::nat) 2 = Inr \<lparr>buf = [0, 0], head = 0, count = 0\<rparr>"
    by (simp add: ring_new_def numeral_2_eq_2)
  let ?r' = "snd (run_ops (ring_step 0) \<lparr>buf = [0, 0], head = 0, count = 0\<rparr> [Push (7::nat), Pop])"
  have r': "?r' = \<lparr>buf = [0, 0], head = 1, count = 0\<rparr>"
    by (simp add: ring_push_def ring_pop_def)
  show ?thesis using ring_releases_removed [OF n refl, of "[Push 7, Pop]" 1] unfolding r' by simp
qed

end
