(* ===== verification/ByteQueue.thy ===== *)
theory ByteQueue
  imports Ring
begin

text \<open>
  The byte-budgeted queue of \<open>internal/bounded/queue.go\<close>, built on the ring. Instants are
  nanoseconds on an unbounded \<open>int\<close>; the byte counters are Go \<open>int\<close>s, so their additions
  and subtractions go through \<open>wrap64\<close>. The injected clock appears as the reading \<open>now\<close>
  that \<open>q.clk.Now()\<close> returns, and \<open>z\<close> is the zero value of the ring's element type.
\<close>

datatype queue_err = ErrQueueFullPackets | ErrQueueFullBytes | ErrItemTooLarge

record 'a queue_item =
  qvalue :: 'a
  qbytes :: int
  enqueued :: int

record 'a byte_queue =
  items :: "'a queue_item ring"
  max_bytes :: int
  cur_bytes :: int

definition new_byte_queue :: "'a queue_item \<Rightarrow> bool \<Rightarrow> int \<Rightarrow> int \<Rightarrow> 'a byte_queue may_panic" where
  "new_byte_queue z has_clock maxPackets maxBytes =
     (if maxPackets \<le> 0 \<or> maxBytes \<le> 0
      then Inl (Panic ''bounded: NewByteQueue limits must be > 0'')
      else if \<not> has_clock then Inl (Panic ''bounded: NewByteQueue clock must not be nil'')
      else (case ring_new z maxPackets of
              Inl p \<Rightarrow> Inl p
            | Inr r \<Rightarrow> Inr \<lparr>items = r, max_bytes = maxBytes, cur_bytes = 0\<rparr>))"

definition enqueue ::
  "int \<Rightarrow> 'a byte_queue \<Rightarrow> 'a \<Rightarrow> int \<Rightarrow> (queue_err option \<times> 'a byte_queue) may_panic" where
  "enqueue now q value sizeBytes =
     (if sizeBytes \<le> 0 then Inl (Panic ''bounded: Enqueue sizeBytes must be > 0'')
      else if sizeBytes > max_bytes q then Inr (Some ErrItemTooLarge, q)
      else if ring_full (items q) then Inr (Some ErrQueueFullPackets, q)
      else if wrap64 (cur_bytes q + sizeBytes) > max_bytes q then Inr (Some ErrQueueFullBytes, q)
      else let (_, r) = ring_push (items q) \<lparr>qvalue = value, qbytes = sizeBytes, enqueued = now\<rparr>
           in Inr (None, q\<lparr>items := r, cur_bytes := wrap64 (cur_bytes q + sizeBytes)\<rparr>))"

definition dequeue ::
  "'a queue_item \<Rightarrow> 'a byte_queue \<Rightarrow> 'a queue_item option \<times> 'a byte_queue" where
  "dequeue z q =
     (case ring_pop z (items q) of
        (None, r) \<Rightarrow> (None, q\<lparr>items := r\<rparr>)
      | (Some it, r) \<Rightarrow> (Some it, q\<lparr>items := r, cur_bytes := wrap64 (cur_bytes q - qbytes it)\<rparr>))"

definition queue_peek :: "'a byte_queue \<Rightarrow> 'a queue_item option" where
  "queue_peek q = ring_peek (items q)"

definition drop_oldest ::
  "'a queue_item \<Rightarrow> 'a byte_queue \<Rightarrow> 'a queue_item option \<times> 'a byte_queue" where
  "drop_oldest z q = dequeue z q"

text \<open>
  The loop of \<open>DropExpired\<close>: every round looks at the head and removes it, and each removal
  lowers the ring's count, which is what terminates it.
\<close>

function drop_expired ::
  "'a queue_item \<Rightarrow> 'a byte_queue \<Rightarrow> int \<Rightarrow> 'a queue_item list \<times> 'a byte_queue" where
  "drop_expired z q cutoff =
     (case ring_peek (items q) of
        None \<Rightarrow> ([], q)
      | Some h \<Rightarrow>
          if enqueued h > cutoff then ([], q)
          else (case ring_pop z (items q) of
                  (None, r) \<Rightarrow> ([], q\<lparr>items := r\<rparr>)
                | (Some it, r) \<Rightarrow>
                    let (ds, q') = drop_expired z
                          (q\<lparr>items := r, cur_bytes := wrap64 (cur_bytes q - qbytes it)\<rparr>) cutoff
                    in (it # ds, q')))"
  by pat_completeness auto
termination
  by (relation "measure (\<lambda>(z, q, c). count (items q))")
    (auto simp: ring_pop_def split: if_splits)

declare drop_expired.simps [simp del]


definition queue_bytes :: "'a byte_queue \<Rightarrow> int" where
  "queue_bytes q = cur_bytes q"

definition queue_max_bytes :: "'a byte_queue \<Rightarrow> int" where
  "queue_max_bytes q = max_bytes q"

definition queue_max_packets :: "'a byte_queue \<Rightarrow> nat" where
  "queue_max_packets q = ring_cap (items q)"

section \<open>Invariant\<close>

definition queue_list :: "'a byte_queue \<Rightarrow> 'a queue_item list" where
  "queue_list q = ring_list (items q)"

definition total_bytes :: "'a queue_item list \<Rightarrow> int" where
  "total_bytes xs = sum_list (map qbytes xs)"

text \<open>
  The budget bound \<open>2 ^ 62\<close> is what keeps \<open>q.curBytes+sizeBytes\<close> inside an \<open>int\<close>; without
  it the guard of \<open>Enqueue\<close> overflows (\<open>enqueue_guard_overflow\<close> below).
\<close>

definition queue_inv :: "'a queue_item \<Rightarrow> 'a byte_queue \<Rightarrow> bool" where
  "queue_inv z q \<longleftrightarrow> ring_inv z (items q) \<and> cur_bytes q = total_bytes (queue_list q)
     \<and> (\<forall>it \<in> set (queue_list q). 0 < qbytes it)
     \<and> cur_bytes q \<le> max_bytes q \<and> 0 < max_bytes q \<and> max_bytes q < 2 ^ 62"

lemma total_bytes_simps [simp]:
  "total_bytes [] = 0" "total_bytes (x # xs) = qbytes x + total_bytes xs"
  "total_bytes (xs @ ys) = total_bytes xs + total_bytes ys"
  by (simp_all add: total_bytes_def)

lemma total_bytes_nonneg: "\<forall>it \<in> set xs. 0 < qbytes it \<Longrightarrow> 0 \<le> total_bytes xs"
  by (induction xs) auto

lemma new_byte_queue_inv:
  assumes "new_byte_queue z b mp mb = Inr q" "mb < 2 ^ 62"
  shows "queue_inv z q \<and> queue_list q = [] \<and> int (queue_max_packets q) = mp \<and> max_bytes q = mb"
  using assms ring_new_inv [of z mp "items q"]
  by (auto simp: new_byte_queue_def queue_inv_def queue_list_def queue_max_packets_def
      split: if_splits sum.splits)

lemma queue_inv_ring [simp]: "queue_inv z q \<Longrightarrow> ring_inv z (items q)"
  by (simp add: queue_inv_def)

lemma queue_inv_range:
  assumes "queue_inv z q" "0 < n" "n \<le> max_bytes q"
  shows "int64 (cur_bytes q + n)"
  using assms total_bytes_nonneg [of "queue_list q"] by (auto simp: queue_inv_def int64_def)

section \<open>Operations on the abstraction\<close>

text \<open>What \<open>Enqueue\<close> decides, as arithmetic on the queued items.\<close>

definition admit :: "nat \<Rightarrow> int \<Rightarrow> 'a queue_item list \<Rightarrow> int \<Rightarrow> queue_err option" where
  "admit maxPackets maxBytes xs n =
     (if n > maxBytes then Some ErrItemTooLarge
      else if length xs = maxPackets then Some ErrQueueFullPackets
      else if total_bytes xs + n > maxBytes then Some ErrQueueFullBytes
      else None)"

lemma enqueue_spec:
  assumes inv: "queue_inv z q" and pos: "0 < n"
  shows "\<exists>q'. enqueue now q v n = Inr (admit (queue_max_packets q) (max_bytes q) (queue_list q) n, q')
     \<and> queue_inv z q' \<and> queue_max_packets q' = queue_max_packets q \<and> max_bytes q' = max_bytes q
     \<and> queue_list q' =
        (if admit (queue_max_packets q) (max_bytes q) (queue_list q) n = None
         then queue_list q @ [\<lparr>qvalue = v, qbytes = n, enqueued = now\<rparr>] else queue_list q)"
proof -
  let ?it = "\<lparr>qvalue = v, qbytes = n, enqueued = now\<rparr>"
  let ?a = "admit (queue_max_packets q) (max_bytes q) (queue_list q) n"
  have rinv: "ring_inv z (items q)" and cur: "cur_bytes q = total_bytes (queue_list q)"
    using inv by (simp_all add: queue_inv_def)
  have full: "ring_full (items q) \<longleftrightarrow> length (queue_list q) = queue_max_packets q"
    by (simp add: ring_full_def queue_list_def queue_max_packets_def ring_cap_def)
  show ?thesis
  proof (cases "?a = None")
    case False
    then have "enqueue now q v n = Inr (?a, q)"
      using pos queue_inv_range [OF inv pos] full cur
      by (auto simp: enqueue_def admit_def split: if_splits)
    with False inv show ?thesis by simp
  next
    case True
    then have le: "n \<le> max_bytes q" "\<not> ring_full (items q)" "cur_bytes q + n \<le> max_bytes q"
      using full cur by (auto simp: admit_def split: if_splits)
    define q' where "q' = q\<lparr>items := snd (ring_push (items q) ?it), cur_bytes := cur_bytes q + n\<rparr>"
    have "enqueue now q v n = Inr (None, q')"
      using pos le queue_inv_range [OF inv pos le(1)]
      by (simp add: enqueue_def q'_def split_beta)
    moreover have "queue_inv z q'" "queue_list q' = queue_list q @ [?it]"
      "queue_max_packets q' = queue_max_packets q" "max_bytes q' = max_bytes q"
      using ring_push_room [OF rinv le(2), of ?it] inv pos le
      by (auto simp: queue_inv_def q'_def queue_list_def queue_max_packets_def)
    ultimately show ?thesis using True by auto
  qed
qed

lemma dequeue_Nil: "queue_inv z q \<Longrightarrow> queue_list q = [] \<Longrightarrow> dequeue z q = (None, q)"
  by (simp add: dequeue_def queue_list_def ring_pop_empty)

lemma dequeue_Cons:
  assumes inv: "queue_inv z q" and ls: "queue_list q = x # xs"
  shows "fst (dequeue z q) = Some x \<and> queue_inv z (snd (dequeue z q))
    \<and> queue_list (snd (dequeue z q)) = xs \<and> max_bytes (snd (dequeue z q)) = max_bytes q
    \<and> queue_max_packets (snd (dequeue z q)) = queue_max_packets q"
proof -
  have pop: "fst (ring_pop z (items q)) = Some x \<and> ring_inv z (snd (ring_pop z (items q)))
      \<and> ring_list (snd (ring_pop z (items q))) = xs
      \<and> ring_cap (snd (ring_pop z (items q))) = ring_cap (items q)"
    using ring_fifo.pop_Cons [OF queue_inv_ring [OF inv]] ls by (simp add: queue_list_def)
  have xs: "\<forall>it \<in> set xs. 0 < qbytes it" "0 < qbytes x"
    using inv ls by (auto simp: queue_inv_def)
  have cur: "cur_bytes q - qbytes x = total_bytes xs"
    using inv ls by (simp add: queue_inv_def)
  then have "wrap64 (cur_bytes q - qbytes x) = total_bytes xs"
    using inv total_bytes_nonneg [OF xs(1)] xs(2) by (simp add: queue_inv_def int64_def)
  with pop inv xs cur show ?thesis
    by (auto simp: dequeue_def queue_inv_def queue_list_def queue_max_packets_def split_beta
        split: option.split prod.split)
qed

lemma drop_expired_step:
  "drop_expired z q cutoff =
     (case queue_peek q of
        None \<Rightarrow> ([], q)
      | Some h \<Rightarrow> if enqueued h > cutoff then ([], q)
          else (case dequeue z q of
                  (None, q') \<Rightarrow> ([], q')
                | (Some it, q') \<Rightarrow> let (ds, q'') = drop_expired z q' cutoff in (it # ds, q'')))"
  by (subst drop_expired.simps)
    (auto simp: queue_peek_def dequeue_def split: option.split prod.split)

lemma drop_expired_spec:
  assumes "queue_inv z q"
  shows "fst (drop_expired z q cutoff) = takeWhile (\<lambda>it. enqueued it \<le> cutoff) (queue_list q)
    \<and> queue_inv z (snd (drop_expired z q cutoff))
    \<and> queue_list (snd (drop_expired z q cutoff)) = dropWhile (\<lambda>it. enqueued it \<le> cutoff) (queue_list q)
    \<and> max_bytes (snd (drop_expired z q cutoff)) = max_bytes q
    \<and> queue_max_packets (snd (drop_expired z q cutoff)) = queue_max_packets q"
  using assms
proof (induction "queue_list q" arbitrary: q)
  case Nil
  then show ?case
    using ring_fifo.peek_elems [OF queue_inv_ring [OF Nil.prems]]
    by (subst (1 2 3 4 5) drop_expired_step) (simp add: queue_peek_def queue_list_def)
next
  case (Cons x xs)
  have pk: "queue_peek q = Some x"
    using ring_fifo.peek_elems [OF queue_inv_ring [OF Cons.prems]] Cons.hyps(2) [symmetric]
    by (simp add: queue_peek_def queue_list_def)
  note d = dequeue_Cons [OF Cons.prems Cons.hyps(2) [symmetric]]
  obtain q' where q': "dequeue z q = (Some x, q')" using d by (metis prod.collapse)
  have step: "drop_expired z q cutoff =
      (if enqueued x > cutoff then ([], q)
       else (x # fst (drop_expired z q' cutoff), snd (drop_expired z q' cutoff)))"
    by (subst drop_expired_step) (simp add: pk q' split_beta)
  show ?case
  proof (cases "enqueued x > cutoff")
    case True
    with Cons.prems show ?thesis by (simp add: step flip: Cons.hyps(2))
  next
    case False
    have "queue_inv z q'" "xs = queue_list q'" using d q' by simp_all
    from Cons.hyps(1) [OF this(2) this(1)] False d q' show ?thesis
      by (simp add: step flip: Cons.hyps(2))
  qed
qed

section \<open>Histories\<close>

datatype 'a queue_op =
    Enqueue int 'a int \<comment> \<open>clock reading, value, size\<close>
  | Dequeue
  | PeekHead
  | DropOldest
  | DropExpired int

datatype 'a queue_res =
    Enqueued "queue_err option may_panic"
  | Item "'a queue_item option"
  | Dropped "'a queue_item list"

fun queue_step ::
  "'a queue_item \<Rightarrow> 'a byte_queue \<Rightarrow> 'a queue_op \<Rightarrow> 'a queue_res \<times> 'a byte_queue" where
  "queue_step z q (Enqueue now v n) =
     (case enqueue now q v n of
        Inl p \<Rightarrow> (Enqueued (Inl p), q)
      | Inr (e, q') \<Rightarrow> (Enqueued (Inr e), q'))"
| "queue_step z q Dequeue = map_prod Item id (dequeue z q)"
| "queue_step z q PeekHead = (Item (queue_peek q), q)"
| "queue_step z q DropOldest = map_prod Item id (drop_oldest z q)"
| "queue_step z q (DropExpired cutoff) = map_prod Dropped id (drop_expired z q cutoff)"

text \<open>The specification state: packet limit, byte limit, queued items.\<close>

type_synonym 'a queue_spec = "nat \<times> int \<times> 'a queue_item list"

fun queue_spec_step :: "'a queue_spec \<Rightarrow> 'a queue_op \<Rightarrow> 'a queue_res \<times> 'a queue_spec" where
  "queue_spec_step (p, m, xs) (Enqueue now v n) =
     (if n \<le> 0 then (Enqueued (Inl (Panic ''bounded: Enqueue sizeBytes must be > 0'')), p, m, xs)
      else (Enqueued (Inr (admit p m xs n)), p, m,
            if admit p m xs n = None then xs @ [\<lparr>qvalue = v, qbytes = n, enqueued = now\<rparr>] else xs))"
| "queue_spec_step (p, m, xs) Dequeue =
     (case xs of [] \<Rightarrow> (Item None, p, m, []) | x # ys \<Rightarrow> (Item (Some x), p, m, ys))"
| "queue_spec_step (p, m, xs) PeekHead =
     (Item (case xs of [] \<Rightarrow> None | x # _ \<Rightarrow> Some x), p, m, xs)"
| "queue_spec_step (p, m, xs) DropOldest =
     (case xs of [] \<Rightarrow> (Item None, p, m, []) | x # ys \<Rightarrow> (Item (Some x), p, m, ys))"
| "queue_spec_step (p, m, xs) (DropExpired c) =
     (Dropped (takeWhile (\<lambda>it. enqueued it \<le> c) xs), p, m, dropWhile (\<lambda>it. enqueued it \<le> c) xs)"

definition queue_abs :: "'a byte_queue \<Rightarrow> 'a queue_spec" where
  "queue_abs q = (queue_max_packets q, max_bytes q, queue_list q)"

lemma dequeue_refines:
  assumes inv: "queue_inv z q"
  shows "queue_inv z (snd (dequeue z q)) \<and> queue_spec_step (queue_abs q) Dequeue =
    (Item (fst (dequeue z q)), queue_abs (snd (dequeue z q)))"
proof (cases "queue_list q")
  case Nil
  with inv show ?thesis by (simp add: dequeue_Nil queue_abs_def)
next
  case (Cons x xs)
  from dequeue_Cons [OF inv this] Cons show ?thesis by (simp add: queue_abs_def)
qed

lemma queue_step_refines:
  assumes inv: "queue_inv z q"
  shows "queue_inv z (snd (queue_step z q e)) \<and> queue_spec_step (queue_abs q) e =
    (fst (queue_step z q e), queue_abs (snd (queue_step z q e)))"
proof (cases e)
  case (Enqueue now v n)
  show ?thesis
  proof (cases "0 < n")
    case True
    obtain q' where "enqueue now q v n =
        Inr (admit (queue_max_packets q) (max_bytes q) (queue_list q) n, q')" "queue_inv z q'"
      "queue_abs q' = (queue_max_packets q, max_bytes q,
        if admit (queue_max_packets q) (max_bytes q) (queue_list q) n = None
        then queue_list q @ [\<lparr>qvalue = v, qbytes = n, enqueued = now\<rparr>] else queue_list q)"
      using enqueue_spec [OF inv True, of now v] by (auto simp: queue_abs_def)
    with True Enqueue show ?thesis by (simp add: queue_abs_def [of q])
  next
    case False
    with inv Enqueue show ?thesis by (simp add: enqueue_def queue_abs_def)
  qed
next
  case Dequeue
  with dequeue_refines [OF inv] show ?thesis by simp
next
  case DropOldest
  with dequeue_refines [OF inv] show ?thesis
    by (simp add: drop_oldest_def queue_abs_def split: list.splits)
next
  case PeekHead
  with inv ring_fifo.peek_elems [OF queue_inv_ring [OF inv]] show ?thesis
    by (simp add: queue_peek_def queue_abs_def queue_list_def)
next
  case (DropExpired c)
  with drop_expired_spec [OF inv, of c] show ?thesis by (simp add: queue_abs_def)
qed

interpretation queue_sim:
  simulation "queue_inv z" queue_abs "\<lambda>_. True" "queue_step z" queue_spec_step for z :: "'a queue_item"
  by unfold_locales (simp_all add: queue_step_refines)

section \<open>Properties\<close>

text \<open>
  C20. A byte queue with a budget below \<open>2 ^ 62\<close> behaves, over any sequence of Enqueue,
  Dequeue, Peek, DropOldest and DropExpired calls, as a list of items: an item is admitted
  exactly when it fits the packet limit and the byte budget (with the first applicable error
  otherwise), leaves in order, and DropExpired removes exactly the longest expired prefix.
\<close>

theorem byte_queue_history:
  assumes "new_byte_queue z True maxPackets maxBytes = Inr q" and "maxBytes < 2 ^ 62"
  shows "run_ops queue_spec_step (nat maxPackets, maxBytes, []) es =
    (fst (run_ops (queue_step z) q es), queue_abs (snd (run_ops (queue_step z) q es)))"
proof -
  have inv: "queue_inv z q" and a: "queue_abs q = (nat maxPackets, maxBytes, [])"
    using new_byte_queue_inv [OF assms] by (auto simp: queue_abs_def)
  show ?thesis using queue_sim.run_sim [OF inv, of es] unfolding a by (simp add: list_all_iff)
qed

theorem byte_queue_history_witness:
  "fst (run_ops (queue_step \<lparr>qvalue = 0::nat, qbytes = 0, enqueued = 0\<rparr>)
      \<lparr>items = \<lparr>buf = replicate 3 \<lparr>qvalue = 0, qbytes = 0, enqueued = 0\<rparr>, head = 0, count = 0\<rparr>,
        max_bytes = 100, cur_bytes = 0\<rparr>
      [Enqueue 5 1 60, Enqueue 6 2 50, Enqueue 7 3 40, DropExpired 5])
   = [Enqueued (Inr None), Enqueued (Inr (Some ErrQueueFullBytes)), Enqueued (Inr None),
      Dropped [\<lparr>qvalue = 1, qbytes = 60, enqueued = 5\<rparr>]]"
  (is "fst (run_ops (queue_step ?z) ?q ?es) = ?rs")
proof -
  have "new_byte_queue ?z True 3 100 = Inr ?q"
    by (simp add: new_byte_queue_def ring_new_def)
  from byte_queue_history [OF this, of ?es]
  have "fst (run_ops (queue_step ?z) ?q ?es) = fst (run_ops queue_spec_step (3, 100, []) ?es)"
    by (simp only: nat_numeral fst_conv) simp
  also have "\<dots> = ?rs" by (simp add: admit_def)
  finally show ?thesis .
qed



text \<open>
  When the enqueue instants never decrease along the queue (a monotone clock), no item
  that DropExpired leaves behind has expired.
\<close>

theorem drop_expired_complete:
  assumes "queue_inv z q" and "sorted (map enqueued (queue_list q))"
    and "it \<in> set (queue_list (snd (drop_expired z q cutoff)))"
  shows "cutoff < enqueued it"
proof -
  have "x \<in> set (dropWhile (\<lambda>it. enqueued it \<le> cutoff) xs) \<Longrightarrow> sorted (map enqueued xs)
      \<Longrightarrow> cutoff < enqueued x" for x :: "'a queue_item" and xs
    by (induction xs) (auto split: if_splits)
  with assms drop_expired_spec [OF assms(1), of cutoff] show ?thesis by simp
qed

theorem drop_expired_complete_witness:
  "let z = \<lparr>qvalue = 0::nat, qbytes = 0, enqueued = 0\<rparr>; it = \<lparr>qvalue = 7, qbytes = 9, enqueued = 5\<rparr>;
       q = \<lparr>items = \<lparr>buf = [it], head = 0, count = Suc 0\<rparr>, max_bytes = 10, cur_bytes = 9\<rparr>
   in it \<in> set (queue_list (snd (drop_expired z q 3))) \<and> 3 < enqueued it"
proof -
  let ?z = "\<lparr>qvalue = 0::nat, qbytes = 0, enqueued = 0\<rparr>"
  let ?it = "\<lparr>qvalue = 7::nat, qbytes = 9, enqueued = 5\<rparr>"
  let ?q = "\<lparr>items = \<lparr>buf = [?it], head = 0, count = Suc 0\<rparr>, max_bytes = 10, cur_bytes = 9\<rparr>"
  have ls: "queue_list ?q = [?it]" by (simp add: queue_list_def ring_list_def ring_slot_def)
  have inv: "queue_inv ?z ?q"
    by (simp add: queue_inv_def ls ring_inv_def ring_wf_def ring_clean_def)
  have mem: "?it \<in> set (queue_list (snd (drop_expired ?z ?q 3)))"
    using drop_expired_spec [OF inv, of 3] by (simp add: ls)
  from drop_expired_complete [OF inv _ mem] mem show ?thesis by (simp add: ls Let_def)
qed

text \<open>
  The guard of Enqueue adds before it compares, so a budget near the top of the int range
  is not enforced: with a budget of \<open>2 ^ 63 - 1\<close> a second item is accepted although the two
  together exceed the budget, and the byte count becomes negative.
\<close>

theorem enqueue_guard_overflow:
  "let z = \<lparr>qvalue = 0::nat, qbytes = 0, enqueued = 0\<rparr>;
       q = \<lparr>items = \<lparr>buf = [z, z], head = 0, count = 0\<rparr>, max_bytes = 2 ^ 63 - 1, cur_bytes = 0\<rparr>;
       (rs, q') = run_ops (queue_step z) q [Enqueue 0 1 (2 ^ 63 - 1), Enqueue 0 2 1]
   in new_byte_queue z True 2 (2 ^ 63 - 1) = Inr q \<and> rs = [Enqueued (Inr None), Enqueued (Inr None)]
      \<and> queue_bytes q' = - (2 ^ 63) \<and> total_bytes (queue_list q') = 2 ^ 63"
  by (simp add: new_byte_queue_def ring_new_def enqueue_def ring_full_def ring_push_def wrap64_def
      queue_bytes_def queue_list_def ring_list_def ring_slot_def numeral_2_eq_2 upt_rec)

end
