(* ===== verification/TestClock.thy ===== *)
theory TestClock
  imports Prelude
begin

text \<open>
  The deterministic clock of \<open>internal/testclock/clock.go\<close>. Instants and durations are
  nanoseconds on an unbounded \<open>int\<close>. The map of timers is a list of entries with distinct
  ids; a channel of capacity one is a cell of \<open>chans\<close>, named by the id of the timer it was
  made for. A callback of \<open>AfterFunc\<close> is a name that the argument \<open>cb\<close> interprets as a
  function on the clock and the rest of the program's state, which is how the code runs it:
  with the lock released, free to call back into the clock. The 64-bit id counter is a \<open>nat\<close>.
\<close>

section \<open>Firing order\<close>

datatype tkey = TKey (key_deadline: int) (key_seq: nat)

instantiation tkey :: linorder
begin

definition less_eq_tkey :: "tkey \<Rightarrow> tkey \<Rightarrow> bool" where
  "less_eq_tkey a b \<longleftrightarrow> key_deadline a < key_deadline b
     \<or> key_deadline a = key_deadline b \<and> key_seq a \<le> key_seq b"

definition less_tkey :: "tkey \<Rightarrow> tkey \<Rightarrow> bool" where
  "less_tkey a b \<longleftrightarrow> key_deadline a < key_deadline b
     \<or> key_deadline a = key_deadline b \<and> key_seq a < key_seq b"

instance
  by standard (auto simp: less_eq_tkey_def less_tkey_def tkey.expand)

end

section \<open>State\<close>

record 'f entry =
  eid :: nat
  deadline :: int
  period :: int
  eseq :: nat
  active :: bool
  ticks :: int
  chan :: "nat option"
  callback :: "'f option"

record 'f tclock =
  clock_id :: nat
  now :: int
  next_id :: nat
  timers :: "'f entry list"
  chans :: "nat \<Rightarrow> int option"

text \<open>The value a caller holds: \<open>timer\<close> or \<open>ticker\<close>.\<close>

record handle =
  hclock :: nat
  hid :: nat
  hchan :: "nat option"

definition entry_key :: "'f entry \<Rightarrow> tkey" where
  "entry_key e = TKey (deadline e) (eseq e)"

definition lookup_entry :: "nat \<Rightarrow> 'f entry list \<Rightarrow> 'f entry option" where
  "lookup_entry i ts = find (\<lambda>e. eid e = i) ts"

definition delete_entry :: "nat \<Rightarrow> 'f entry list \<Rightarrow> 'f entry list" where
  "delete_entry i ts = filter (\<lambda>e. eid e \<noteq> i) ts"

definition update_entry :: "nat \<Rightarrow> ('f entry \<Rightarrow> 'f entry) \<Rightarrow> 'f entry list \<Rightarrow> 'f entry list" where
  "update_entry i f ts = map (\<lambda>e. if eid e = i then f e else e) ts"

definition clock_new :: "nat \<Rightarrow> int \<Rightarrow> 'f tclock" where
  "clock_new k start =
     \<lparr>clock_id = k, now = start, next_id = 0, timers = [], chans = (\<lambda>_. None)\<rparr>"

definition clock_now :: "'f tclock \<Rightarrow> int" where
  "clock_now c = now c"

text \<open>\<open>Since\<close> is \<open>Now().Sub(t)\<close>, and \<open>time.Time.Sub\<close> saturates at the int64 limits.\<close>

definition clock_since :: "'f tclock \<Rightarrow> int \<Rightarrow> int" where
  "clock_since c t = max (- (2 ^ 63)) (min (2 ^ 63 - 1) (now c - t))"

section \<open>Creating timers\<close>

definition add_entry ::
  "int \<Rightarrow> int \<Rightarrow> nat option \<Rightarrow> 'f option \<Rightarrow> 'f tclock \<Rightarrow> 'f tclock" where
  "add_entry d p ch f c =
     c\<lparr>next_id := next_id c + 1,
       timers := timers c @ [\<lparr>eid = next_id c + 1, deadline = now c + d, period = p,
         eseq = next_id c + 1, active = True, ticks = 0, chan = ch, callback = f\<rparr>],
       chans := (case ch of None \<Rightarrow> chans c | Some k \<Rightarrow> (chans c)(k := None))\<rparr>"

definition new_timer :: "int \<Rightarrow> 'f tclock \<Rightarrow> handle \<times> 'f tclock" where
  "new_timer d c = (let i = next_id c + 1 in
     (\<lparr>hclock = clock_id c, hid = i, hchan = Some i\<rparr>, add_entry d 0 (Some i) None c))"

definition after_func :: "int \<Rightarrow> 'f \<Rightarrow> 'f tclock \<Rightarrow> handle \<times> 'f tclock" where
  "after_func d f c =
     (\<lparr>hclock = clock_id c, hid = next_id c + 1, hchan = None\<rparr>, add_entry d 0 None (Some f) c)"

definition new_ticker :: "int \<Rightarrow> 'f tclock \<Rightarrow> (handle \<times> 'f tclock) may_panic" where
  "new_ticker d c =
     (if d \<le> 0 then Inl (Panic ''testclock: non-positive interval for NewTicker'')
      else let i = next_id c + 1 in
        Inr (\<lparr>hclock = clock_id c, hid = i, hchan = Some i\<rparr>, add_entry d d (Some i) None c))"

section \<open>Moving time\<close>

text \<open>
  The loop sorts the due timers by deadline, then creation order, and takes the first.
\<close>

definition earliest_due :: "int \<Rightarrow> 'f tclock \<Rightarrow> 'f entry option" where
  "earliest_due t c =
     (case sort_key entry_key (filter (\<lambda>e. active e \<and> deadline e \<le> t) (timers c)) of
        [] \<Rightarrow> None | e # _ \<Rightarrow> Some e)"

text \<open>One round: step the clock, re-arm or remove the entry, then deliver without the lock.\<close>

definition fire ::
  "('f \<Rightarrow> 'f tclock \<times> 'w \<Rightarrow> 'f tclock \<times> 'w) \<Rightarrow> 'f entry \<Rightarrow> 'f tclock \<times> 'w \<Rightarrow> 'f tclock \<times> 'w" where
  "fire cb e s =
     (let (c, w) = s;
          c1 = c\<lparr>now := deadline e,
                timers :=
                  (if period e > 0
                   then update_entry (eid e)
                     (\<lambda>x. x\<lparr>deadline := deadline x + period x, ticks := ticks x + 1\<rparr>) (timers c)
                   else delete_entry (eid e) (timers c))\<rparr>
      in case callback e of
           Some f \<Rightarrow> cb f (c1, w)
         | None \<Rightarrow> (case chan e of
               None \<Rightarrow> (c1, w)
             | Some k \<Rightarrow>
                 (if chans c1 k = None then c1\<lparr>chans := (chans c1)(k \<mapsto> deadline e)\<rparr> else c1, w)))"

text \<open>
  The loop of \<open>Set\<close>. Callbacks may keep arming timers that are due at once, so the loop may
  run forever: the result is then \<open>None\<close>. The first argument of the result is the list of
  entries in the order they fired, which the code does not keep.
\<close>

partial_function (option) set_loop ::
  "('f \<Rightarrow> 'f tclock \<times> 'w \<Rightarrow> 'f tclock \<times> 'w) \<Rightarrow> int \<Rightarrow> 'f entry list \<Rightarrow> 'f tclock \<times> 'w \<Rightarrow>
     ('f entry list \<times> 'f tclock \<times> 'w) option" where
  "set_loop cb t tr s =
     (case earliest_due t (fst s) of
        None \<Rightarrow> Some (tr, s)
      | Some e \<Rightarrow> set_loop cb t (tr @ [e]) (fire cb e s))"

definition clock_set ::
  "('f \<Rightarrow> 'f tclock \<times> 'w \<Rightarrow> 'f tclock \<times> 'w) \<Rightarrow> int \<Rightarrow> 'f tclock \<times> 'w \<Rightarrow>
     ('f entry list \<times> 'f tclock \<times> 'w) may_panic option" where
  "clock_set cb t s =
     (if t < now (fst s)
      then Some (Inl (Panic ''testclock: Set to a time before the current time''))
      else map_option (\<lambda>(tr, c, w). Inr (tr, c\<lparr>now := t\<rparr>, w)) (set_loop cb t [] s))"

definition clock_advance ::
  "('f \<Rightarrow> 'f tclock \<times> 'w \<Rightarrow> 'f tclock \<times> 'w) \<Rightarrow> int \<Rightarrow> 'f tclock \<times> 'w \<Rightarrow>
     ('f entry list \<times> 'f tclock \<times> 'w) may_panic option" where
  "clock_advance cb d s =
     (if d < 0 then Some (Inl (Panic ''testclock: negative duration for Advance''))
      else clock_set cb (now (fst s) + d) s)"

section \<open>Handles\<close>

definition clock_len :: "'f tclock \<Rightarrow> nat" where
  "clock_len c = length (filter active (timers c))"

definition tick_count :: "handle \<Rightarrow> 'f tclock \<Rightarrow> int may_panic" where
  "tick_count h c =
     (if hclock h \<noteq> clock_id c
      then Inl (Panic ''testclock: TickCount on a ticker from a different clock'')
      else Inr (case lookup_entry (hid h) (timers c) of Some e \<Rightarrow> ticks e | None \<Rightarrow> 0))"

definition timer_stop :: "handle \<Rightarrow> 'f tclock \<Rightarrow> bool \<times> 'f tclock" where
  "timer_stop h c =
     (case lookup_entry (hid h) (timers c) of
        None \<Rightarrow> (False, c)
      | Some e \<Rightarrow> if \<not> active e then (False, c)
          else (True, c\<lparr>timers := delete_entry (hid h) (timers c)\<rparr>))"

definition timer_reset :: "handle \<Rightarrow> int \<Rightarrow> 'f tclock \<Rightarrow> bool \<times> 'f tclock" where
  "timer_reset h d c =
     (case lookup_entry (hid h) (timers c) of
        None \<Rightarrow>
          (False, c\<lparr>next_id := next_id c + 1,
            timers := timers c @ [\<lparr>eid = hid h, deadline = now c + d, period = 0,
              eseq = next_id c + 1, active = True, ticks = 0, chan = hchan h, callback = None\<rparr>]\<rparr>)
      | Some e \<Rightarrow>
          (active e, c\<lparr>timers := update_entry (hid h)
             (\<lambda>x. x\<lparr>deadline := now c + d, active := True\<rparr>) (timers c)\<rparr>))"

definition ticker_stop :: "handle \<Rightarrow> 'f tclock \<Rightarrow> 'f tclock" where
  "ticker_stop h c = c\<lparr>timers := update_entry (hid h) (\<lambda>x. x\<lparr>active := False\<rparr>) (timers c)\<rparr>"

definition ticker_reset :: "handle \<Rightarrow> int \<Rightarrow> 'f tclock \<Rightarrow> 'f tclock may_panic" where
  "ticker_reset h d c =
     (if d \<le> 0 then Inl (Panic ''testclock: non-positive interval for Ticker.Reset'')
      else Inr (c\<lparr>timers := update_entry (hid h)
        (\<lambda>x. x\<lparr>period := d, deadline := now c + d, active := True\<rparr>) (timers c)\<rparr>))"

text \<open>A non-blocking receive on the channel of a handle.\<close>

definition chan_recv :: "handle \<Rightarrow> 'f tclock \<Rightarrow> int option \<times> 'f tclock" where
  "chan_recv h c =
     (case hchan h of None \<Rightarrow> (None, c)
      | Some k \<Rightarrow> (chans c k, c\<lparr>chans := (chans c)(k := None)\<rparr>))"

section \<open>Choosing the entry to fire\<close>

lemma sort_key_hd:
  assumes "sort_key k xs = e # es"
  shows "e \<in> set xs \<and> (\<forall>x \<in> set xs. k e \<le> k x)"
proof -
  have "sorted (map k (e # es))" using sorted_sort_key [of k xs] assms by simp
  moreover have "set xs = set (e # es)" using set_sort [of k xs] assms by simp
  ultimately show ?thesis by auto
qed

lemma sort_key_Nil: "sort_key k xs = [] \<longleftrightarrow> xs = []"
proof -
  have "length (sort_key k xs) = 0 \<longleftrightarrow> length xs = 0" by simp
  then show ?thesis unfolding length_0_conv .
qed

lemma earliest_due_None:
  "earliest_due t c = None \<longleftrightarrow> (\<forall>x \<in> set (timers c). active x \<longrightarrow> t < deadline x)"
proof -
  let ?due = "filter (\<lambda>e. active e \<and> deadline e \<le> t) (timers c)"
  have "earliest_due t c = None \<longleftrightarrow> sort_key entry_key ?due = []"
    by (simp add: earliest_due_def split: list.split)
  also have "\<dots> \<longleftrightarrow> ?due = []" by (rule sort_key_Nil)
  finally show ?thesis by (simp add: filter_empty_conv not_le)
qed

lemma earliest_due_Some:
  assumes "earliest_due t c = Some e"
  shows "e \<in> set (timers c) \<and> active e \<and> deadline e \<le> t
    \<and> (\<forall>x \<in> set (timers c). active x \<longrightarrow> entry_key e \<le> entry_key x)"
proof -
  let ?due = "filter (\<lambda>e. active e \<and> deadline e \<le> t) (timers c)"
  obtain es where "sort_key entry_key ?due = e # es"
    using assms by (auto simp: earliest_due_def split: list.splits)
  from sort_key_hd [OF this] have e: "e \<in> set ?due" "\<forall>x \<in> set ?due. entry_key e \<le> entry_key x"
    by auto
  have "entry_key e \<le> entry_key x" if "x \<in> set (timers c)" "active x" for x
    using that e by (cases "deadline x \<le> t") (auto simp: entry_key_def less_eq_tkey_def)
  with e show ?thesis by auto
qed

section \<open>Invariant\<close>

definition entry_ok :: "'f tclock \<Rightarrow> 'f entry \<Rightarrow> bool" where
  "entry_ok c e \<longleftrightarrow> eid e \<le> next_id c \<and> eseq e \<le> next_id c \<and> 0 \<le> period e
     \<and> (active e \<longrightarrow> now c \<le> deadline e) \<and> (chan e = None \<or> chan e = Some (eid e))"

definition clock_ok :: "'f tclock \<Rightarrow> bool" where
  "clock_ok c \<longleftrightarrow> distinct (map eid (timers c)) \<and> distinct (map eseq (timers c))
     \<and> (\<forall>e \<in> set (timers c). entry_ok c e)"

definition handle_ok :: "'f tclock \<Rightarrow> handle \<Rightarrow> bool" where
  "handle_ok c h \<longleftrightarrow> hid h \<le> next_id c \<and> (hchan h = None \<or> hchan h = Some (hid h))"

lemma lookup_entry_Some: "lookup_entry i ts = Some e \<Longrightarrow> e \<in> set ts \<and> eid e = i"
  by (auto simp: lookup_entry_def find_Some_iff)

lemma lookup_entry_None: "lookup_entry i ts = None \<longleftrightarrow> i \<notin> eid ` set ts"
  by (auto simp: lookup_entry_def find_None_iff)

lemma lookup_entry_mem:
  "distinct (map eid ts) \<Longrightarrow> e \<in> set ts \<Longrightarrow> lookup_entry (eid e) ts = Some e"
  by (induction ts) (auto simp: lookup_entry_def)

lemma set_delete_entry [simp]: "set (delete_entry i ts) = {e \<in> set ts. eid e \<noteq> i}"
  by (auto simp: delete_entry_def)

lemma set_update_entry:
  "set (update_entry i f ts) = (\<lambda>e. if eid e = i then f e else e) ` set ts"
  by (simp add: update_entry_def)

lemma distinct_delete_entry [simp]:
  "distinct (map g ts) \<Longrightarrow> distinct (map g (delete_entry i ts))"
  by (simp add: delete_entry_def distinct_map_filter)

lemma map_update_entry [simp]:
  "(\<And>e. g (f e) = g e) \<Longrightarrow> map g (update_entry i f ts) = map g ts"
  by (simp add: update_entry_def)

lemma lookup_update [simp]:
  "(\<And>e. eid (f e) = eid e) \<Longrightarrow> lookup_entry j (update_entry i f ts) =
     (if j = i then map_option f (lookup_entry j ts) else lookup_entry j ts)"
  by (induction ts) (auto simp: lookup_entry_def update_entry_def)

lemma lookup_delete [simp]:
  "lookup_entry j (delete_entry i ts) = (if j = i then None else lookup_entry j ts)"
  by (induction ts) (auto simp: lookup_entry_def delete_entry_def)

lemma lookup_append [simp]:
  "lookup_entry j (ts @ [e]) =
     (case lookup_entry j ts of Some x \<Rightarrow> Some x | None \<Rightarrow> if eid e = j then Some e else None)"
  by (induction ts) (auto simp: lookup_entry_def)

lemma entry_ok_timers [simp]: "entry_ok (c\<lparr>timers := ts\<rparr>) e = entry_ok c e"
  by (simp add: entry_ok_def)

lemma update_entry_ok:
  assumes "clock_ok c" "\<And>x. eid (f x) = eid x" "\<And>x. eseq (f x) = eseq x"
    and "\<And>x. entry_ok c x \<Longrightarrow> eid x = i \<Longrightarrow> entry_ok c (f x)"
  shows "clock_ok (c\<lparr>timers := update_entry i f (timers c)\<rparr>)"
  using assms by (auto simp: clock_ok_def set_update_entry)

lemma delete_entry_ok:
  "clock_ok c \<Longrightarrow> clock_ok (c\<lparr>timers := delete_entry i (timers c)\<rparr>)"
  by (simp add: clock_ok_def)

text \<open>Every operation keeps the invariant when its duration is not negative.\<close>

lemma clock_new_ok [inv_intros]: "clock_ok (clock_new k t)"
  by (simp add: clock_ok_def clock_new_def)

lemma add_entry_ok [inv_intros]:
  assumes "clock_ok c" "0 \<le> d" "0 \<le> p" "ch = None \<or> ch = Some (next_id c + 1)"
  shows "clock_ok (add_entry d p ch f c)"
proof -
  have "Suc (next_id c) \<notin> eid ` set (timers c)" "Suc (next_id c) \<notin> eseq ` set (timers c)"
    using assms(1) by (fastforce simp: clock_ok_def entry_ok_def)+
  with assms show ?thesis by (auto simp: clock_ok_def entry_ok_def add_entry_def)
qed

lemma new_timer_ok [inv_intros]: "clock_ok c \<Longrightarrow> 0 \<le> d \<Longrightarrow> clock_ok (snd (new_timer d c))"
  by (simp add: new_timer_def Let_def add_entry_ok)

lemma after_func_ok [inv_intros]: "clock_ok c \<Longrightarrow> 0 \<le> d \<Longrightarrow> clock_ok (snd (after_func d f c))"
  by (simp add: after_func_def add_entry_ok)

lemma new_ticker_ok [inv_intros]: "clock_ok c \<Longrightarrow> new_ticker d c = Inr (h, c') \<Longrightarrow> clock_ok c'"
  by (auto simp: new_ticker_def Let_def intro: add_entry_ok split: if_splits)

lemma timer_stop_ok [inv_intros]: "clock_ok c \<Longrightarrow> clock_ok (snd (timer_stop h c))"
  by (simp add: timer_stop_def delete_entry_ok split: option.split)

lemma ticker_stop_ok [inv_intros]: "clock_ok c \<Longrightarrow> clock_ok (ticker_stop h c)"
  unfolding ticker_stop_def by (rule update_entry_ok) (simp_all add: entry_ok_def)

lemma ticker_reset_ok [inv_intros]:
  assumes "clock_ok c" "ticker_reset h d c = Inr c'"
  shows "clock_ok c'"
proof -
  have c': "0 < d" "c' = c\<lparr>timers := update_entry (hid h)
        (\<lambda>x. x\<lparr>period := d, deadline := now c + d, active := True\<rparr>) (timers c)\<rparr>"
    using assms(2) by (auto simp: ticker_reset_def split: if_splits)
  show ?thesis unfolding c'(2)
    by (rule update_entry_ok [OF assms(1)]) (use c'(1) in \<open>auto simp: entry_ok_def\<close>)
qed

lemma timer_reset_ok [inv_intros]:
  assumes "clock_ok c" "handle_ok c h" "0 \<le> d"
  shows "clock_ok (snd (timer_reset h d c))"
proof (cases "lookup_entry (hid h) (timers c)")
  case None
  then have "hid h \<notin> eid ` set (timers c)" by (simp add: lookup_entry_None)
  moreover have "Suc (next_id c) \<notin> eseq ` set (timers c)"
    using assms(1) by (fastforce simp: clock_ok_def entry_ok_def)
  ultimately show ?thesis
    using None assms by (auto simp: timer_reset_def clock_ok_def entry_ok_def handle_ok_def)
next
  case (Some e)
  have "clock_ok (c\<lparr>timers := update_entry (hid h)
      (\<lambda>x. x\<lparr>deadline := now c + d, active := True\<rparr>) (timers c)\<rparr>)"
    by (rule update_entry_ok [OF assms(1)]) (use assms(3) in \<open>auto simp: entry_ok_def\<close>)
  with Some show ?thesis by (simp add: timer_reset_def)
qed

text \<open>
  A callback is well behaved when it keeps the invariant and does not move the clock, which
  the package forbids; it is quiet when it does not touch the clock at all.
\<close>

definition well_behaved :: "('f \<Rightarrow> 'f tclock \<times> 'w \<Rightarrow> 'f tclock \<times> 'w) \<Rightarrow> bool" where
  "well_behaved cb \<longleftrightarrow> (\<forall>f c w. clock_ok c \<longrightarrow>
     clock_ok (fst (cb f (c, w))) \<and> now (fst (cb f (c, w))) = now c)"

definition quiet :: "('f \<Rightarrow> 'f tclock \<times> 'w \<Rightarrow> 'f tclock \<times> 'w) \<Rightarrow> bool" where
  "quiet cb \<longleftrightarrow> (\<forall>f c w. fst (cb f (c, w)) = c)"

lemma quiet_well_behaved: "quiet cb \<Longrightarrow> well_behaved cb"
  by (simp add: quiet_def well_behaved_def)

text \<open>The clock right after an entry fired, before its callback runs.\<close>

definition after_fire :: "'f entry \<Rightarrow> 'f tclock \<Rightarrow> 'f tclock" where
  "after_fire e c = c\<lparr>now := deadline e,
     timers :=
       (if period e > 0
        then update_entry (eid e)
          (\<lambda>x. x\<lparr>deadline := deadline x + period x, ticks := ticks x + 1\<rparr>) (timers c)
        else delete_entry (eid e) (timers c)),
     chans := (case callback e of Some _ \<Rightarrow> chans c
       | None \<Rightarrow> (case chan e of None \<Rightarrow> chans c
           | Some k \<Rightarrow> if chans c k = None then (chans c)(k \<mapsto> deadline e) else chans c))\<rparr>"

lemma fire_after_fire:
  "fire cb e (c, w) =
     (case callback e of Some f \<Rightarrow> cb f (after_fire e c, w) | None \<Rightarrow> (after_fire e c, w))"
  by (cases c) (auto simp: fire_def after_fire_def Let_def split: option.split)

lemma fst_fire_quiet: "quiet cb \<Longrightarrow> fst (fire cb e (c, w)) = after_fire e c"
  by (simp add: fire_after_fire quiet_def split: option.split)

lemma after_fire_ok:
  assumes ok: "clock_ok c" and due: "earliest_due t c = Some e"
  shows "clock_ok (after_fire e c)"
proof -
  note e = earliest_due_Some [OF due]
  have le: "deadline e \<le> deadline x" if "x \<in> set (timers c)" "active x" for x
    using e that by (fastforce simp: entry_key_def less_eq_tkey_def)
  have "x = e" if "x \<in> set (timers c)" "eid x = eid e" for x
    using ok e that by (metis clock_ok_def lookup_entry_mem option.inject)
  with ok e le show ?thesis
    by (fastforce simp: clock_ok_def entry_ok_def after_fire_def set_update_entry)
qed

lemma fire_ok:
  assumes "clock_ok (fst s)" "well_behaved cb" "earliest_due t (fst s) = Some e"
  shows "clock_ok (fst (fire cb e s)) \<and> now (fst (fire cb e s)) = deadline e"
proof (cases s)
  case (Pair c w)
  have "clock_ok (after_fire e c)" using assms Pair after_fire_ok by simp
  moreover have "now (after_fire e c) = deadline e" by (simp add: after_fire_def)
  ultimately show ?thesis
    using assms(2) Pair by (auto simp: fire_after_fire well_behaved_def split: option.split)
qed

section \<open>The loop\<close>

text \<open>The rule all facts about a finished loop come from.\<close>

lemma set_loop_rule:
  assumes run: "set_loop cb t tr s = Some (tr', s')"
    and start: "I tr s"
    and step: "\<And>tr s e. I tr s \<Longrightarrow> earliest_due t (fst s) = Some e \<Longrightarrow> I (tr @ [e]) (fire cb e s)"
  shows "I tr' s' \<and> earliest_due t (fst s') = None"
proof -
  have "I tr s \<longrightarrow> I (fst r) (snd r) \<and> earliest_due t (fst (snd r)) = None"
    if "set_loop cb t tr s = Some r" for r
  proof (rule set_loop.raw_induct [where P = "\<lambda>cb' t' tr s r. cb' = cb \<longrightarrow> t' = t \<longrightarrow> I tr s
        \<longrightarrow> I (fst r) (snd r) \<and> earliest_due t (fst (snd r)) = None", OF _ that, simplified])
    fix loop cb' t' tr s and r :: "'a entry list \<times> 'a tclock \<times> 'b"
    assume ih: "\<And>cb' t' tr s r. loop cb' t' tr s = Some r \<Longrightarrow> cb' = cb \<longrightarrow> t' = t \<longrightarrow> I tr s
        \<longrightarrow> I (fst r) (snd r) \<and> earliest_due t (fst (snd r)) = None"
      and eq: "(case earliest_due t' (fst s) of None \<Rightarrow> Some (tr, s)
        | Some e \<Rightarrow> loop cb' t' (tr @ [e]) (fire cb' e s)) = Some r"
    show "cb' = cb \<longrightarrow> t' = t \<longrightarrow> I tr s \<longrightarrow> I (fst r) (snd r) \<and> earliest_due t (fst (snd r)) = None"
    proof (intro impI)
      assume cb': "cb' = cb" "t' = t" and I: "I tr s"
      show "I (fst r) (snd r) \<and> earliest_due t (fst (snd r)) = None"
      proof (cases "earliest_due t (fst s)")
        case None
        with eq cb' I show ?thesis by auto
      next
        case (Some e)
        with eq cb' have "loop cb t (tr @ [e]) (fire cb e s) = Some r" by simp
        from ih [OF this] step [OF I Some] show ?thesis by simp
      qed
    qed
  qed
  with run start show ?thesis by auto
qed

section \<open>Termination\<close>

text \<open>How often an entry still fires up to \<open>t\<close>, when nothing re-arms it.\<close>

definition due_rounds :: "int \<Rightarrow> 'f entry \<Rightarrow> nat" where
  "due_rounds t e =
     (if active e \<and> deadline e \<le> t
      then if period e > 0 then Suc (nat ((t - deadline e) div period e)) else 1
      else 0)"

definition rounds :: "int \<Rightarrow> 'f tclock \<Rightarrow> nat" where
  "rounds t c = sum_list (map (due_rounds t) (timers c))"

lemma split_timers:
  assumes "clock_ok c" "e \<in> set (timers c)"
  obtains xs ys where "timers c = xs @ e # ys"
    "delete_entry (eid e) (timers c) = xs @ ys"
    "\<And>f. update_entry (eid e) f (timers c) = xs @ f e # ys"
proof -
  obtain xs ys where ts: "timers c = xs @ e # ys" using assms(2) by (auto dest: split_list)
  with assms(1) have "\<forall>x \<in> set xs. eid x \<noteq> eid e" "\<forall>x \<in> set ys. eid x \<noteq> eid e"
    unfolding clock_ok_def by (auto simp: image_iff)
  then have "filter (\<lambda>x. eid x \<noteq> eid e) xs = xs" "filter (\<lambda>x. eid x \<noteq> eid e) ys = ys"
    "map (\<lambda>x. if eid x = eid e then f x else x) xs = xs"
    "map (\<lambda>x. if eid x = eid e then f x else x) ys = ys" for f
    by (auto simp: filter_id_conv intro!: map_idI)
  with ts show thesis by (intro that) (simp_all add: delete_entry_def update_entry_def)
qed

lemma due_rounds_rearm:
  assumes "0 < period e" "active e" "deadline e \<le> t"
  shows "due_rounds t (e\<lparr>deadline := deadline e + period e, ticks := k\<rparr>) < due_rounds t e"
proof (cases "deadline e + period e \<le> t")
  case True
  have "(t - deadline e) div period e = (t - (deadline e + period e)) div period e + 1"
    using assms(1) div_add_self2 [of "period e" "t - (deadline e + period e)"] by simp
  moreover have "0 \<le> (t - (deadline e + period e)) div period e"
    using True assms(1) by (simp add: pos_imp_zdiv_nonneg_iff)
  ultimately show ?thesis using assms True by (simp add: due_rounds_def)
next
  case False
  with assms show ?thesis by (simp add: due_rounds_def)
qed

lemma rounds_decrease:
  assumes ok: "clock_ok c" and due: "earliest_due t c = Some e"
  shows "rounds t (after_fire e c) < rounds t c"
proof -
  note e = earliest_due_Some [OF due]
  obtain xs ys where "timers c = xs @ e # ys" "delete_entry (eid e) (timers c) = xs @ ys"
    "\<And>f. update_entry (eid e) f (timers c) = xs @ f e # ys"
    using split_timers [OF ok] e by metis
  moreover have "0 < due_rounds t e" using e by (simp add: due_rounds_def)
  ultimately show ?thesis
    using e due_rounds_rearm [of e t] by (simp add: rounds_def after_fire_def)
qed

lemma set_loop_returns:
  "quiet cb \<Longrightarrow> clock_ok (fst s) \<Longrightarrow> \<exists>r. set_loop cb t tr s = Some r"
proof (induction "rounds t (fst s)" arbitrary: tr s rule: less_induct)
  case less
  show ?case
  proof (cases "earliest_due t (fst s)")
    case None
    then show ?thesis by (subst set_loop.simps) simp
  next
    case (Some e)
    have "fst (fire cb e s) = after_fire e (fst s)"
      using fst_fire_quiet [OF less.prems(1), of e "fst s" "snd s"] by simp
    with rounds_decrease [OF less.prems(2) Some] after_fire_ok [OF less.prems(2) Some]
      less.hyps [of "fire cb e s" "tr @ [e]"] less.prems(1)
    obtain r where "set_loop cb t (tr @ [e]) (fire cb e s) = Some r" by auto
    then have "set_loop cb t tr s = Some r" using Some by (subst set_loop.simps) simp
    then show ?thesis by blast
  qed
qed

lemma clock_set_ex:
  assumes "quiet cb" "clock_ok c" "now c \<le> t"
  shows "\<exists>tr c' w'. clock_set cb t (c, w) = Some (Inr (tr, c', w'))"
proof -
  obtain r where "set_loop cb t [] (c, w) = Some r"
    using set_loop_returns [OF assms(1), of "(c, w)"] assms(2) by fastforce
  with assms(3) show ?thesis by (cases r) (simp add: clock_set_def)
qed

lemma clock_set_Inr:
  "clock_set cb t s = Some (Inr (tr, c', w')) \<Longrightarrow>
     now (fst s) \<le> t \<and> (\<exists>c1. set_loop cb t [] s = Some (tr, c1, w') \<and> c' = c1\<lparr>now := t\<rparr>)"
  by (auto simp: clock_set_def split: if_splits)

lemma fire_later:
  assumes ok: "clock_ok c" and due: "earliest_due t c = Some e"
    and x: "x \<in> set (timers (after_fire e c))" "active x"
  shows "entry_key e < entry_key x"
proof -
  note e = earliest_due_Some [OF due]
  obtain xs ys where ts: "timers c = xs @ e # ys" "delete_entry (eid e) (timers c) = xs @ ys"
    "\<And>f. update_entry (eid e) f (timers c) = xs @ f e # ys"
    using split_timers [OF ok] e by metis
  have "x \<in> set (xs @ ys) \<or> 0 < period e
      \<and> x = e\<lparr>deadline := deadline e + period e, ticks := ticks e + 1\<rparr>"
    using x ts by (auto simp: after_fire_def split: if_splits)
  then show ?thesis
  proof
    assume mem: "x \<in> set (xs @ ys)"
    with ok ts(1) have "eseq x \<noteq> eseq e"
      unfolding clock_ok_def by (auto simp: image_iff)
    then have "entry_key x \<noteq> entry_key e" by (simp add: entry_key_def)
    moreover have "entry_key e \<le> entry_key x" using e mem ts(1) x(2) by auto
    ultimately show ?thesis by simp
  qed (simp add: entry_key_def less_tkey_def)
qed

section \<open>Properties\<close>

text \<open>
  C38. Whatever well-behaved callbacks do, a Set that returns has fired timers in deadline
  order, each between the old and the new instant; the clock then reads the new instant, no
  active timer is left due, and the clock's invariant holds.
\<close>

theorem clock_set_fires_in_order:
  assumes "clock_ok c" and "well_behaved cb"
    and "clock_set cb t (c, w) = Some (Inr (tr, c', w'))"
  shows "now c' = t \<and> sorted (map deadline tr)
    \<and> (\<forall>e \<in> set tr. active e \<and> now c \<le> deadline e \<and> deadline e \<le> t)
    \<and> (\<forall>e \<in> set (timers c'). active e \<longrightarrow> t < deadline e) \<and> clock_ok c'"
proof -
  define I where "I = (\<lambda>(tr :: 'a entry list) (s :: 'a tclock \<times> 'b). clock_ok (fst s) \<and> sorted (map deadline tr)
    \<and> now c \<le> now (fst s) \<and> now (fst s) \<le> t
    \<and> (\<forall>e \<in> set tr. active e \<and> now c \<le> deadline e \<and> deadline e \<le> now (fst s)))"
  obtain c1 where c1: "set_loop cb t [] (c, w) = Some (tr, c1, w')" "c' = c1\<lparr>now := t\<rparr>" "now c \<le> t"
    using clock_set_Inr [OF assms(3)] by auto
  have "I tr (c1, w') \<and> earliest_due t (fst (c1, w')) = None"
  proof (rule set_loop_rule [OF c1(1)])
    show "I [] (c, w)" using assms(1) c1(3) by (simp add: I_def)
  next
    fix tr :: "'a entry list" and s :: "'a tclock \<times> 'b" and e
    assume I: "I tr s" and due: "earliest_due t (fst s) = Some e"
    then have ok: "clock_ok (fst s)" by (simp add: I_def)
    note e = earliest_due_Some [OF due]
    then have "now (fst s) \<le> deadline e" using ok by (auto simp: clock_ok_def entry_ok_def)
    with I e fire_ok [OF ok assms(2) due] show "I (tr @ [e]) (fire cb e s)"
      by (fastforce simp: I_def sorted_append)
  qed
  then have I: "I tr (c1, w')" and none: "\<forall>x \<in> set (timers c1). active x \<longrightarrow> t < deadline x"
    by (auto simp: earliest_due_None)
  have "clock_ok c'" using I none c1(2) by (fastforce simp: I_def clock_ok_def entry_ok_def)
  with I none c1(2) show ?thesis by (fastforce simp: I_def)
qed

text \<open>
  When no callback touches the clock, Set and Advance return, and the timers fire in
  strictly increasing order of deadline and creation.
\<close>

theorem clock_set_returns:
  assumes "clock_ok c" and "quiet cb" and "now c \<le> t"
  shows "\<exists>tr c' w'. clock_set cb t (c, w) = Some (Inr (tr, c', w'))
    \<and> sorted_wrt (\<lambda>a b. entry_key a < entry_key b) tr"
proof -
  define I where "I = (\<lambda>(tr :: 'a entry list) (s :: 'a tclock \<times> 'b). clock_ok (fst s)
    \<and> sorted_wrt (\<lambda>a b. entry_key a < entry_key b) tr
    \<and> (\<forall>a \<in> set tr. \<forall>x \<in> set (timers (fst s)). active x \<longrightarrow> entry_key a < entry_key x))"
  obtain tr c1 w' where run: "set_loop cb t [] (c, w) = Some (tr, c1, w')"
    using set_loop_returns [OF assms(2), of "(c, w)" t "[]"] assms(1) by (auto simp: split_paired_Ex)
  have "I tr (c1, w') \<and> earliest_due t (fst (c1, w')) = None"
  proof (rule set_loop_rule [OF run])
    show "I [] (c, w)" using assms(1) by (simp add: I_def)
  next
    fix tr :: "'a entry list" and s :: "'a tclock \<times> 'b" and e
    assume I: "I tr s" and due: "earliest_due t (fst s) = Some e"
    then have ok: "clock_ok (fst s)" by (simp add: I_def)
    note e = earliest_due_Some [OF due]
    have fs: "fst (fire cb e s) = after_fire e (fst s)"
      using fst_fire_quiet [OF assms(2), of e "fst s" "snd s"] by simp
    have later: "entry_key e < entry_key x" if x: "x \<in> set (timers (after_fire e (fst s)))" "active x" for x
      using fire_later [OF ok due x] .
    have before: "entry_key a < entry_key e" if "a \<in> set tr" for a using I e that by (simp add: I_def)
    have "entry_key a < entry_key x"
      if "a \<in> set tr" "x \<in> set (timers (after_fire e (fst s)))" "active x" for a x
      using before later that by (blast intro: order.strict_trans)
    with later before show "I (tr @ [e]) (fire cb e s)"
      using I after_fire_ok [OF ok due] unfolding I_def fs by (auto simp: sorted_wrt_append)
  qed
  with run assms(3) show ?thesis by (auto simp: clock_set_def I_def)
qed

text \<open>A concrete clock: one timer of 10ns and a ticker of 4ns, armed at instant 100.\<close>

definition sample_clock :: "nat tclock" where
  "sample_clock = (let c0 = clock_new 0 100; c1 = snd (new_timer 10 c0) in
     case new_ticker 4 c1 of Inr (_, c2) \<Rightarrow> c2 | Inl _ \<Rightarrow> c1)"

definition no_callback :: "nat \<Rightarrow> nat tclock \<times> unit \<Rightarrow> nat tclock \<times> unit" where
  "no_callback f s = s"

lemma sample_clock_ok: "clock_ok sample_clock"
  by (simp add: sample_clock_def Let_def new_ticker_def add_entry_ok new_timer_ok clock_new_ok)

lemma no_callback_quiet: "quiet no_callback"
  by (simp add: quiet_def no_callback_def)

theorem clock_set_returns_witness:
  "\<exists>tr c' w'. clock_set no_callback 111 (sample_clock, ()) = Some (Inr (tr, c', w'))
    \<and> sorted_wrt (\<lambda>a b. entry_key a < entry_key b) tr"
proof -
  have "now sample_clock \<le> 111"
    by (simp add: sample_clock_def Let_def new_ticker_def new_timer_def add_entry_def clock_new_def)
  from clock_set_returns [OF sample_clock_ok no_callback_quiet this, of "()"] show ?thesis .
qed

theorem clock_set_fires_in_order_witness:
  "\<exists>tr c' w'. clock_set no_callback 111 (sample_clock, ()) = Some (Inr (tr, c', w'))
    \<and> now c' = 111 \<and> sorted (map deadline tr)"
proof -
  have "now sample_clock \<le> 111"
    by (simp add: sample_clock_def Let_def new_ticker_def new_timer_def add_entry_def clock_new_def)
  then obtain tr c' w' where run: "clock_set no_callback 111 (sample_clock, ()) = Some (Inr (tr, c', w'))"
    using clock_set_ex [OF no_callback_quiet sample_clock_ok] by blast
  from clock_set_fires_in_order [OF sample_clock_ok quiet_well_behaved [OF no_callback_quiet] run] run
  show ?thesis by blast
qed

text \<open>
  The entry of a ticker during a run whose callbacks leave the clock alone: its deadline
  counts the intervals crossed since \<open>t0\<close>, and its channel holds the first of them.
\<close>

definition ticker_at :: "nat \<Rightarrow> int \<Rightarrow> int \<Rightarrow> int \<Rightarrow> 'f tclock \<Rightarrow> bool" where
  "ticker_at i p t0 k c \<longleftrightarrow> (\<exists>q. lookup_entry i (timers c) =
      Some \<lparr>eid = i, deadline = t0 + (k + 1) * p, period = p, eseq = q, active = True, ticks = k,
        chan = Some i, callback = None\<rparr>)
    \<and> chans c i = (if k = 0 then None else Some (t0 + p))"

lemma ticker_at_after_fire:
  assumes ok: "clock_ok c" and due: "earliest_due t c = Some e"
    and at: "ticker_at i p t0 k c" and p: "0 < p" and k: "0 \<le> k" "k = 0 \<or> t0 + k * p \<le> t"
  shows "\<exists>k'. 0 \<le> k' \<and> (k' = 0 \<or> t0 + k' * p \<le> t) \<and> ticker_at i p t0 k' (after_fire e c)"
proof -
  note e = earliest_due_Some [OF due]
  obtain q where l: "lookup_entry i (timers c) =
      Some \<lparr>eid = i, deadline = t0 + (k + 1) * p, period = p, eseq = q, active = True, ticks = k,
        chan = Some i, callback = None\<rparr>" and ch: "chans c i = (if k = 0 then None else Some (t0 + p))"
    using at by (auto simp: ticker_at_def)
  show ?thesis
  proof (cases "eid e = i")
    case True
    with ok e l have e': "e = \<lparr>eid = i, deadline = t0 + (k + 1) * p, period = p, eseq = q,
        active = True, ticks = k, chan = Some i, callback = None\<rparr>"
      by (metis clock_ok_def lookup_entry_mem option.inject)
    have "ticker_at i p t0 (k + 1) (after_fire e c)"
      using l ch p k e' by (simp add: ticker_at_def after_fire_def algebra_simps)
    with k e e' show ?thesis by (intro exI [of _ "k + 1"]) simp
  next
    case False
    then have "chans (after_fire e c) i = chans c i"
      using ok e by (auto simp: after_fire_def clock_ok_def entry_ok_def split: option.split)
    moreover have "lookup_entry i (timers (after_fire e c)) = lookup_entry i (timers c)"
      using False by (simp add: after_fire_def)
    ultimately have "ticker_at i p t0 k (after_fire e c)" using at by (simp add: ticker_at_def)
    with k show ?thesis by blast
  qed
qed

text \<open>What a finished loop leaves of a ticker that was made at \<open>t0\<close>.\<close>

lemma ticker_run:
  assumes "clock_ok c1" and "quiet cb" and "ticker_at i p t0 0 c1" and p: "0 < p"
    and run: "set_loop cb t [] (c1, w) = Some (tr, c3, w')"
  shows "\<exists>k. 0 \<le> k \<and> (k = 0 \<or> t0 + k * p \<le> t) \<and> ticker_at i p t0 k c3 \<and> clock_id c3 = clock_id c1
    \<and> t < t0 + (k + 1) * p"
proof -
  define I where "I = (\<lambda>(_ :: 'a entry list) (s :: 'a tclock \<times> 'b). clock_ok (fst s)
    \<and> clock_id (fst s) = clock_id c1
    \<and> (\<exists>k. 0 \<le> k \<and> (k = 0 \<or> t0 + k * p \<le> t) \<and> ticker_at i p t0 k (fst s)))"
  have "I tr (c3, w') \<and> earliest_due t (fst (c3, w')) = None"
  proof (rule set_loop_rule [OF run])
    show "I [] (c1, w)" using assms(1,3) unfolding I_def by auto
  next
    fix tr' :: "'a entry list" and s :: "'a tclock \<times> 'b" and e
    assume I: "I tr' s" and due: "earliest_due t (fst s) = Some e"
    have fs: "fst (fire cb e s) = after_fire e (fst s)"
      using fst_fire_quiet [OF assms(2), of e "fst s" "snd s"] by simp
    have ok: "clock_ok (fst s)" using I by (simp add: I_def)
    have "clock_id (after_fire e (fst s)) = clock_id (fst s)" by (simp add: after_fire_def)
    with I ticker_at_after_fire [OF ok due _ p] after_fire_ok [OF ok due]
    show "I (tr' @ [e]) (fire cb e s)" unfolding I_def fs by metis
  qed
  then obtain k where "0 \<le> k" "k = 0 \<or> t0 + k * p \<le> t" "ticker_at i p t0 k c3"
    "clock_id c3 = clock_id c1" "earliest_due t c3 = None"
    by (auto simp: I_def)
  moreover from this have "t < t0 + (k + 1) * p"
    using lookup_entry_Some by (fastforce simp: earliest_due_None ticker_at_def)
  ultimately show ?thesis by blast
qed

lemma periods_elapsed:
  fixes p :: int
  assumes "0 < p" and "0 \<le> k" and "k = 0 \<or> t0 + k * p \<le> t" and "t < t0 + (k + 1) * p" and "t0 \<le> t"
  shows "(t - t0) div p = k" and "t < t0 + p \<longleftrightarrow> k = 0"
proof -
  show "(t - t0) div p = k"
    by (rule int_div_pos_eq [where r = "t - t0 - k * p"]) (use assms in \<open>auto simp: algebra_simps\<close>)
  have "p \<le> k * p" if "1 \<le> k" using mult_right_mono [OF that, of p] assms(1) by simp
  then have "\<not> t < t0 + p" if "k \<noteq> 0" using that assms(2,3) by (smt (verit))
  then show "t < t0 + p \<longleftrightarrow> k = 0" using assms(4) by auto
qed

text \<open>
  C39. A ticker of period \<open>p\<close> counts every interval crossed, however far one Set jumps: its
  TickCount is the whole number of periods elapsed since it was made, while its channel, of
  capacity one, holds only the first tick. Callbacks of other timers leave the clock alone.
\<close>

theorem ticker_counts_every_interval:
  assumes "clock_ok c" and "quiet cb" and "new_ticker p c = Inr (h, c1)"
    and "clock_set cb t (c1, w) = Some (Inr (tr, c2, w'))"
  shows "tick_count h c2 = Inr ((t - now c) div p)
    \<and> fst (chan_recv h c2) = (if t < now c + p then None else Some (now c + p))"
proof -
  let ?i = "next_id c + 1"
  have p: "0 < p" and h: "h = \<lparr>hclock = clock_id c, hid = ?i, hchan = Some ?i\<rparr>"
    and c1: "c1 = add_entry p p (Some ?i) None c"
    using assms(3) by (auto simp: new_ticker_def Let_def split: if_splits)
  have "lookup_entry (Suc (next_id c)) (timers c) = None"
    using assms(1) by (fastforce simp: lookup_entry_None clock_ok_def entry_ok_def)
  then have at: "ticker_at ?i p (now c) 0 c1" by (simp add: ticker_at_def c1 add_entry_def)
  obtain c3 where run: "set_loop cb t [] (c1, w) = Some (tr, c3, w')" "c2 = c3\<lparr>now := t\<rparr>"
    and le: "now c \<le> t"
    using clock_set_Inr [OF assms(4)] by (auto simp: c1 add_entry_def)
  from ticker_run [OF new_ticker_ok [OF assms(1,3)] assms(2) at p run(1)]
  obtain k where k: "0 \<le> k" "k = 0 \<or> now c + k * p \<le> t" "ticker_at ?i p (now c) k c3"
    "clock_id c3 = clock_id c1" "t < now c + (k + 1) * p" by blast
  have "clock_id c1 = clock_id c" by (simp add: c1 add_entry_def)
  with k periods_elapsed [OF p k(1,2,5) le] run(2) h show ?thesis
    by (auto simp: tick_count_def ticker_at_def chan_recv_def)
qed

theorem ticker_counts_every_interval_witness:
  "\<exists>h c1 tr c2 w'. new_ticker 4 (clock_new 0 100 :: nat tclock) = Inr (h, c1)
    \<and> clock_set no_callback 111 (c1, ()) = Some (Inr (tr, c2, w'))
    \<and> tick_count h c2 = Inr 2 \<and> fst (chan_recv h c2) = Some 104"
proof -
  obtain h c1 where mk: "new_ticker 4 (clock_new 0 100 :: nat tclock) = Inr (h, c1)"
    by (auto simp: new_ticker_def Let_def)
  then have "now c1 = 100" by (auto simp: new_ticker_def Let_def add_entry_def clock_new_def)
  then obtain tr c2 w' where run: "clock_set no_callback 111 (c1, ()) = Some (Inr (tr, c2, w'))"
    using clock_set_ex [OF no_callback_quiet new_ticker_ok [OF clock_new_ok mk], of 111] by auto
  from ticker_counts_every_interval [OF clock_new_ok no_callback_quiet mk run] mk run
  show ?thesis by (auto simp: clock_new_def)
qed

text \<open>The entry of a one-shot timer before and after its deadline.\<close>

definition timer_at :: "nat \<Rightarrow> int \<Rightarrow> bool \<Rightarrow> 'f tclock \<Rightarrow> bool" where
  "timer_at i D fired c \<longleftrightarrow>
     (if fired then lookup_entry i (timers c) = None \<and> chans c i = Some D
      else chans c i = None \<and> (\<exists>q. lookup_entry i (timers c) =
        Some \<lparr>eid = i, deadline = D, period = 0, eseq = q, active = True, ticks = 0,
          chan = Some i, callback = None\<rparr>))"

lemma timer_at_after_fire:
  assumes ok: "clock_ok c" and due: "earliest_due t c = Some e" and at: "timer_at i D b c"
  shows "\<exists>b'. (b' \<longrightarrow> b \<or> D \<le> t) \<and> timer_at i D b' (after_fire e c)"
proof -
  note e = earliest_due_Some [OF due]
  have le: "lookup_entry (eid e) (timers c) = Some e"
    using ok e by (simp add: clock_ok_def lookup_entry_mem)
  show ?thesis
  proof (cases "eid e = i")
    case True
    with le at obtain q where nb: "\<not> b" "chans c i = None" and q: "e =
        \<lparr>eid = i, deadline = D, period = 0, eseq = q, active = True, ticks = 0,
          chan = Some i, callback = None\<rparr>"
      unfolding timer_at_def by (metis option.distinct(1) option.inject)
    have "deadline e = D" "period e = 0" "chan e = Some i" "callback e = None"
      unfolding q by simp_all
    with nb e True have "timer_at i D True (after_fire e c) \<and> D \<le> t"
      by (auto simp: timer_at_def after_fire_def)
    then show ?thesis by blast
  next
    case False
    then have "chans (after_fire e c) i = chans c i"
      using ok e by (auto simp: after_fire_def clock_ok_def entry_ok_def split: option.split)
    moreover have "lookup_entry i (timers (after_fire e c)) = lookup_entry i (timers c)"
      using False by (simp add: after_fire_def)
    ultimately have "timer_at i D b (after_fire e c)" using at by (simp add: timer_at_def)
    then show ?thesis by blast
  qed
qed

text \<open>
  A one-shot timer of duration \<open>d\<close> delivers nothing while the clock is before its
  deadline, and once the clock reaches it exactly the deadline is on its channel and the
  timer is gone: Stop reports false from then on, true before.
\<close>

theorem timer_fires_exactly_at_deadline:
  assumes "clock_ok c" and "quiet cb" and "0 \<le> d" and "new_timer d c = (h, c1)"
    and "clock_set cb t (c1, w) = Some (Inr (tr, c2, w'))"
  shows "fst (chan_recv h c2) = (if t < now c + d then None else Some (now c + d))
    \<and> fst (timer_stop h c2) = (t < now c + d)"
proof -
  let ?i = "next_id c + 1"
  let ?D = "now c + d"
  have h: "h = \<lparr>hclock = clock_id c, hid = ?i, hchan = Some ?i\<rparr>"
    and c1: "c1 = add_entry d 0 (Some ?i) None c"
    using assms(4) by (auto simp: new_timer_def Let_def)
  have ok1: "clock_ok c1" using new_timer_ok [OF assms(1,3)] assms(4) by simp
  have "lookup_entry (Suc (next_id c)) (timers c) = None"
    using assms(1) by (fastforce simp: lookup_entry_None clock_ok_def entry_ok_def)
  then have at: "timer_at ?i ?D False c1" by (simp add: timer_at_def c1 add_entry_def)
  obtain c3 where run: "set_loop cb t [] (c1, w) = Some (tr, c3, w')" "c2 = c3\<lparr>now := t\<rparr>"
    using clock_set_Inr [OF assms(5)] by auto
  define I where "I = (\<lambda>(_ :: 'a entry list) (s :: 'a tclock \<times> 'b). clock_ok (fst s)
    \<and> (\<exists>b. (b \<longrightarrow> ?D \<le> t) \<and> timer_at ?i ?D b (fst s)))"
  have "I tr (c3, w') \<and> earliest_due t (fst (c3, w')) = None"
  proof (rule set_loop_rule [OF run(1)])
    show "I [] (c1, w)" unfolding I_def fst_conv
      using ok1 at by (intro conjI exI [of _ False]) simp_all
  next
    fix tr' :: "'a entry list" and s :: "'a tclock \<times> 'b" and e
    assume I: "I tr' s" and due: "earliest_due t (fst s) = Some e"
    have fs: "fst (fire cb e s) = after_fire e (fst s)"
      using fst_fire_quiet [OF assms(2), of e "fst s" "snd s"] by simp
    have ok: "clock_ok (fst s)" using I by (simp add: I_def)
    from I timer_at_after_fire [OF ok due] after_fire_ok [OF ok due]
    show "I (tr' @ [e]) (fire cb e s)" unfolding I_def fs by metis
  qed
  then obtain b where b: "b \<longrightarrow> ?D \<le> t" "timer_at ?i ?D b c3" and none: "earliest_due t c3 = None"
    by (auto simp: I_def)
  have "t < ?D" if nb: "\<not> b"
  proof -
    obtain q where "lookup_entry ?i (timers c3) =
        Some \<lparr>eid = ?i, deadline = ?D, period = 0, eseq = q, active = True, ticks = 0,
          chan = Some ?i, callback = None\<rparr>"
      using b(2) nb by (auto simp: timer_at_def)
    from lookup_entry_Some [OF this] none show ?thesis by (fastforce simp: earliest_due_None)
  qed
  with b(1) have "b \<longleftrightarrow> ?D \<le> t" by (metis linorder_not_le)
  with b(2) show ?thesis
    by (auto simp: h run(2) chan_recv_def timer_stop_def timer_at_def split: if_splits)
qed

theorem timer_fires_exactly_at_deadline_witness:
  "\<exists>tr c2 w'. clock_set no_callback 199 (snd (new_timer 100 (clock_new 0 100)), ())
      = Some (Inr (tr, c2, w'))
    \<and> fst (chan_recv \<lparr>hclock = 0, hid = 1, hchan = Some 1\<rparr> c2) = None
    \<and> fst (timer_stop \<lparr>hclock = 0, hid = 1, hchan = Some 1\<rparr> c2)"
proof -
  let ?c1 = "snd (new_timer 100 (clock_new 0 100 :: nat tclock))"
  let ?h = "\<lparr>hclock = 0, hid = 1, hchan = Some 1\<rparr>"
  have mk: "new_timer 100 (clock_new 0 100 :: nat tclock) = (?h, ?c1)"
    by (simp add: new_timer_def clock_new_def)
  have "now ?c1 = 100" by (simp add: new_timer_def add_entry_def clock_new_def Let_def)
  then obtain tr c2 w' where run: "clock_set no_callback 199 (?c1, ()) = Some (Inr (tr, c2, w'))"
    using clock_set_ex [OF no_callback_quiet new_timer_ok [OF clock_new_ok], of 100 0 100 199]
    by fastforce
  from timer_fires_exactly_at_deadline [OF clock_new_ok no_callback_quiet _ mk run] run
  show ?thesis by (auto simp: clock_new_def)
qed

text \<open>
  The entry chosen to fire does not depend on the order in which Go iterates over the
  map of timers: any two listings of the same entries give the same choice.
\<close>

theorem earliest_due_order_independent:
  assumes "clock_ok c" and "set ts = set (timers c)"
  shows "earliest_due t (c\<lparr>timers := ts\<rparr>) = earliest_due t c"
proof (cases "earliest_due t c")
  case None
  with assms(2) have "earliest_due t (c\<lparr>timers := ts\<rparr>) = None"
    by (simp add: earliest_due_None)
  with None show ?thesis by simp
next
  case (Some e)
  then have "earliest_due t (c\<lparr>timers := ts\<rparr>) \<noteq> None"
    using assms(2) earliest_due_None [of t c] earliest_due_None [of t "c\<lparr>timers := ts\<rparr>"] by simp
  then obtain e' where e': "earliest_due t (c\<lparr>timers := ts\<rparr>) = Some e'" by auto
  from earliest_due_Some [OF Some] earliest_due_Some [OF e'] assms(2)
  have mem: "e \<in> set (timers c)" "e' \<in> set (timers c)"
    and "entry_key e \<le> entry_key e'" "entry_key e' \<le> entry_key e" by auto
  then have "eseq e = eseq e'" by (simp add: entry_key_def)
  then have "e = e'" using assms(1) mem by (auto simp: clock_ok_def distinct_map dest: inj_onD)
  with Some e' show ?thesis by simp
qed

theorem earliest_due_order_independent_witness:
  "earliest_due 120 (sample_clock\<lparr>timers := rev (timers sample_clock)\<rparr>) = earliest_due 120 sample_clock
    \<and> timers sample_clock \<noteq> rev (timers sample_clock)"
proof -
  have "set (rev (timers sample_clock)) = set (timers sample_clock)" by simp
  from earliest_due_order_independent [OF sample_clock_ok this, of 120] show ?thesis
    by (simp add: sample_clock_def Let_def new_ticker_def new_timer_def add_entry_def clock_new_def)
qed

definition count_runs :: "nat \<Rightarrow> nat tclock \<times> nat \<Rightarrow> nat tclock \<times> nat" where
  "count_runs f s = (fst s, Suc (snd s))"

text \<open>
  Reset on an AfterFunc timer that has already fired re-creates its entry without the
  function: the timer is active again and expires, but the callback never runs a second time,
  unlike \<open>time.Timer.Reset\<close> on a timer made by \<open>time.AfterFunc\<close>.
\<close>

theorem after_func_reset_loses_callback:
  "let (h, c0) = after_func 10 0 (clock_new 0 0) in
   case clock_set count_runs 10 (c0, 0) of
     Some (Inr (_, c1, runs)) \<Rightarrow>
       runs = 1 \<and> clock_len c1 = 0 \<and>
       (let c2 = snd (timer_reset h 10 c1) in
        clock_len c2 = 1 \<and>
        (case clock_set count_runs 20 (c2, runs) of
           Some (Inr (tr, c3, runs')) \<Rightarrow> length tr = 1 \<and> clock_len c3 = 0 \<and> runs' = 1
         | _ \<Rightarrow> False))
   | _ \<Rightarrow> False"
  by (simp add: after_func_def add_entry_def clock_new_def clock_set_def set_loop.simps
      earliest_due_def fire_def Let_def delete_entry_def count_runs_def clock_len_def
      timer_reset_def lookup_entry_def)

definition log_now :: "nat \<Rightarrow> nat tclock \<times> int list \<Rightarrow> nat tclock \<times> int list" where
  "log_now f s = (fst s, snd s @ [now (fst s)])"

text \<open>
  A timer of negative duration is accepted, and firing it moves the clock backwards: its
  callback reads an instant earlier than the one the clock had already reached.
\<close>

theorem negative_timer_rewinds_clock:
  "let c = clock_new 0 100; (h, c0) = after_func (- 30) 0 c in
   case clock_advance log_now 0 (c0, [now c]) of
     Some (Inr (_, _, log)) \<Rightarrow> log = [100, 70]
   | _ \<Rightarrow> False"
  by (simp add: after_func_def add_entry_def clock_new_def clock_set_def clock_advance_def
      set_loop.simps earliest_due_def fire_def Let_def delete_entry_def log_now_def)

definition rearm :: "nat \<Rightarrow> nat tclock \<times> unit \<Rightarrow> nat tclock \<times> unit" where
  "rearm f s = (snd (after_func 0 f (fst s)), ())"

text \<open>
  A callback that re-arms itself with duration zero keeps Advance from ever returning.
\<close>

theorem zero_rearm_never_returns:
  "clock_advance rearm 5 (snd (after_func 0 0 (clock_new 0 0)), ()) = None"
proof -
  let ?c = "snd (after_func 0 0 (clock_new 0 0)) :: nat tclock"
  have now: "now ?c = 0" by (simp add: after_func_def add_entry_def clock_new_def)
  define I where "I = (\<lambda>(_ :: nat entry list) (s :: nat tclock \<times> unit).
    \<exists>e. e \<in> set (timers (fst s)) \<and> active e \<and> deadline e \<le> 5
      \<and> (\<forall>x \<in> set (timers (fst s)). callback x \<noteq> None))"
  have "set_loop rearm 5 [] (?c, ()) \<noteq> Some r" for r
  proof
    obtain tr s where r: "r = (tr, s)" by (cases r) blast
    assume "set_loop rearm 5 [] (?c, ()) = Some r"
    then have "I tr s \<and> earliest_due 5 (fst s) = None" unfolding r
    proof (rule set_loop_rule)
      show "I [] (?c, ())" by (simp add: I_def after_func_def add_entry_def clock_new_def)
    next
      fix tr s e
      assume I: "I tr s" and due: "earliest_due 5 (fst s) = Some e"
      note e = earliest_due_Some [OF due]
      obtain f where f: "callback e = Some f" using I e by (auto simp: I_def)
      have fr: "fire rearm e s = rearm f (after_fire e (fst s), ())"
        using f by (cases s) (simp add: fire_after_fire)
      have kept: "\<forall>x \<in> set (timers (after_fire e (fst s))). callback x \<noteq> None"
        using I by (auto simp: I_def after_fire_def set_update_entry)
      have now: "now (after_fire e (fst s)) \<le> 5" using e by (simp add: after_fire_def)
      define n where "n = \<lparr>eid = next_id (after_fire e (fst s)) + 1,
        deadline = now (after_fire e (fst s)), period = 0,
        eseq = next_id (after_fire e (fst s)) + 1, active = True, ticks = 0,
        chan = None, callback = Some f\<rparr>"
      have "timers (fst (fire rearm e s)) = timers (after_fire e (fst s)) @ [n]"
        by (simp add: fr rearm_def after_func_def add_entry_def n_def)
      moreover have "active n \<and> deadline n \<le> 5 \<and> callback n \<noteq> None" using now by (simp add: n_def)
      ultimately show "I (tr @ [e]) (fire rearm e s)"
        unfolding I_def using kept by (intro exI [of _ n]) auto
    qed
    then show False by (fastforce simp: I_def earliest_due_None)
  qed
  then have "set_loop rearm 5 [] (?c, ()) = None" by (meson not_Some_eq)
  with now show ?thesis by (simp add: clock_advance_def clock_set_def)
qed

end
