(* ===== verification/JournalSchema.thy ===== *)
theory JournalSchema
  imports Prelude
begin

text \<open>
  The mutation journal of \<open>internal/journal/schema.go\<close>: the record of owned network
  objects, its structural validation and the ownership check. An error is the constructor of
  the message with the values the code formats into it. The four regular expressions are
  written as the character classes and lengths they describe; Go's \<open>$\<close> without the multi-line
  flag matches only at the end of the text.
\<close>

definition schema_version :: int where
  "schema_version = 1"

definition role_client :: string where
  "role_client = ''client''"

definition role_server :: string where
  "role_server = ''server''"

record route_record =
  route_table :: u32
  route_dst :: string
  route_dev :: string
  route_via :: string
  route_priority :: u32

record rule_record =
  rule_family :: string
  rule_priority :: u32
  rule_fwmark :: u32
  rule_table :: u32

record nftable_record =
  nft_family :: string
  nft_name :: string

record sysctl_record =
  sysctl_name :: string
  sysctl_prior :: string
  sysctl_installed :: string

record resolver_record =
  resolver_manager :: string
  resolver_link :: string
  resolver_prior :: string

record journal =
  schema :: int
  role :: string
  instance_id :: string
  created_at :: int
  routes :: "route_record list"
  rules :: "rule_record list"
  tables :: "u32 list"
  nftables :: "nftable_record list"
  sysctls :: "sysctl_record list"
  resolver :: "resolver_record option"

datatype journal_err =
    UnsupportedSchema int
  | InvalidRole string
  | MalformedInstance
  | RouteDst nat string
  | RouteDev nat string
  | RouteTable nat
  | RuleFamily nat string
  | RuleTable nat
  | TableZero nat
  | NftFamily nat string
  | NftName nat string
  | SysctlName nat string
  | RoleMismatch string string
  | InstanceMismatch

section \<open>Identifier syntax\<close>

definition is_digit :: "char \<Rightarrow> bool" where
  "is_digit c \<longleftrightarrow> c \<in> set ''0123456789''"

definition is_lower :: "char \<Rightarrow> bool" where
  "is_lower c \<longleftrightarrow> c \<in> set ''abcdefghijklmnopqrstuvwxyz''"

definition is_upper :: "char \<Rightarrow> bool" where
  "is_upper c \<longleftrightarrow> c \<in> set ''ABCDEFGHIJKLMNOPQRSTUVWXYZ''"

definition is_alnum :: "char \<Rightarrow> bool" where
  "is_alnum c \<longleftrightarrow> is_digit c \<or> is_lower c \<or> is_upper c"

definition instance_id_re :: "string \<Rightarrow> bool" where
  "instance_id_re s \<longleftrightarrow> 8 \<le> length s \<and> length s \<le> 128
     \<and> list_all (\<lambda>c. is_alnum c \<or> c \<in> set ''._-'') s"

definition sysctl_name_re :: "string \<Rightarrow> bool" where
  "sysctl_name_re s \<longleftrightarrow>
     (let segs = split_on (CHR ''.'') s in
      2 \<le> length segs
      \<and> list_all (\<lambda>g. g \<noteq> [] \<and> list_all (\<lambda>c. is_lower c \<or> is_digit c \<or> c = CHR ''_'') g) segs)"

definition dev_name_re :: "string \<Rightarrow> bool" where
  "dev_name_re s \<longleftrightarrow> 1 \<le> length s \<and> length s \<le> 15
     \<and> list_all (\<lambda>c. is_alnum c \<or> c \<in> set ''._-'') s"

definition nft_name_re :: "string \<Rightarrow> bool" where
  "nft_name_re s \<longleftrightarrow> 1 \<le> length s \<and> length s \<le> 64
     \<and> list_all (\<lambda>c. is_alnum c \<or> c \<in> set ''_-'') s"

section \<open>Validation\<close>

definition validate_route :: "nat \<Rightarrow> route_record \<Rightarrow> journal_err option" where
  "validate_route i r =
     or_err (err_if (route_dst r \<noteq> ''default'' \<and> \<not> contains_sub (route_dst r) ''/'')
               (RouteDst i (route_dst r)))
    (or_err (err_if (\<not> dev_name_re (route_dev r)) (RouteDev i (route_dev r)))
            (err_if (route_table r = 0) (RouteTable i)))"

definition validate_rule :: "nat \<Rightarrow> rule_record \<Rightarrow> journal_err option" where
  "validate_rule i r =
     or_err (err_if (rule_family r \<noteq> ''ip'' \<and> rule_family r \<noteq> ''ip6'') (RuleFamily i (rule_family r)))
            (err_if (rule_table r = 0) (RuleTable i))"

definition validate_table :: "nat \<Rightarrow> u32 \<Rightarrow> journal_err option" where
  "validate_table i t = err_if (t = 0) (TableZero i)"

definition validate_nft :: "nat \<Rightarrow> nftable_record \<Rightarrow> journal_err option" where
  "validate_nft i n =
     or_err (err_if (nft_family n \<notin> {''inet'', ''ip'', ''ip6''}) (NftFamily i (nft_family n)))
            (err_if (\<not> nft_name_re (nft_name n)) (NftName i (nft_name n)))"

definition validate_sysctl :: "nat \<Rightarrow> sysctl_record \<Rightarrow> journal_err option" where
  "validate_sysctl i s = err_if (\<not> sysctl_name_re (sysctl_name s)) (SysctlName i (sysctl_name s))"

definition journal_validate :: "journal \<Rightarrow> journal_err option" where
  "journal_validate j =
     or_err (err_if (schema j \<noteq> schema_version) (UnsupportedSchema (schema j)))
    (or_err (err_if (role j \<noteq> role_client \<and> role j \<noteq> role_server) (InvalidRole (role j)))
    (or_err (err_if (\<not> instance_id_re (instance_id j)) MalformedInstance)
    (or_err (first_err validate_route 0 (routes j))
    (or_err (first_err validate_rule 0 (rules j))
    (or_err (first_err validate_table 0 (tables j))
    (or_err (first_err validate_nft 0 (nftables j))
            (first_err validate_sysctl 0 (sysctls j))))))))"

definition check_owner :: "journal \<Rightarrow> string \<Rightarrow> string \<Rightarrow> journal_err option" where
  "check_owner j r i =
     or_err (err_if (role j \<noteq> r) (RoleMismatch (role j) r))
            (err_if (i \<noteq> [] \<and> instance_id j \<noteq> i) InstanceMismatch)"

section \<open>What a valid journal is\<close>

definition route_ok :: "route_record \<Rightarrow> bool" where
  "route_ok r \<longleftrightarrow> (route_dst r = ''default'' \<or> CHR ''/'' \<in> set (route_dst r))
     \<and> dev_name_re (route_dev r) \<and> route_table r \<noteq> 0"

definition rule_ok :: "rule_record \<Rightarrow> bool" where
  "rule_ok r \<longleftrightarrow> rule_family r \<in> {''ip'', ''ip6''} \<and> rule_table r \<noteq> 0"

definition nft_ok :: "nftable_record \<Rightarrow> bool" where
  "nft_ok n \<longleftrightarrow> nft_family n \<in> {''inet'', ''ip'', ''ip6''} \<and> nft_name_re (nft_name n)"

definition journal_ok :: "journal \<Rightarrow> bool" where
  "journal_ok j \<longleftrightarrow> schema j = 1 \<and> role j \<in> {''client'', ''server''} \<and> instance_id_re (instance_id j)
     \<and> list_all route_ok (routes j) \<and> list_all rule_ok (rules j) \<and> 0 \<notin> set (tables j)
     \<and> list_all nft_ok (nftables j) \<and> list_all (\<lambda>s. sysctl_name_re (sysctl_name s)) (sysctls j)"

lemma contains_slash: "contains_sub s [c] \<longleftrightarrow> c \<in> set s"
  by (auto simp: contains_sub_iff in_set_conv_decomp)

lemma validate_items:
  "validate_route i r = None \<longleftrightarrow> route_ok r"
  "validate_rule i u = None \<longleftrightarrow> rule_ok u"
  "validate_table i t = None \<longleftrightarrow> t \<noteq> 0"
  "validate_nft i n = None \<longleftrightarrow> nft_ok n"
  "validate_sysctl i s = None \<longleftrightarrow> sysctl_name_re (sysctl_name s)"
  by (auto simp: validate_route_def route_ok_def validate_rule_def rule_ok_def validate_table_def
      validate_nft_def nft_ok_def validate_sysctl_def contains_slash)

lemma journal_validate_None: "journal_validate j = None \<longleftrightarrow> journal_ok j"
proof -
  have "list_all (\<lambda>t. t \<noteq> 0) ts \<longleftrightarrow> 0 \<notin> set ts" for ts :: "u32 list"
    by (induction ts) auto
  then show ?thesis
    by (auto simp: journal_validate_def journal_ok_def schema_version_def role_client_def
        role_server_def first_err_None_all [of validate_route, OF validate_items(1)]
        first_err_None_all [of validate_rule, OF validate_items(2)]
        first_err_None_all [of validate_table, OF validate_items(3)]
        first_err_None_all [of validate_nft, OF validate_items(4)]
        first_err_None_all [of validate_sysctl, OF validate_items(5)])
qed

text \<open>The caller a journal belongs to: its role and, when one is given, its instance id.\<close>

definition owned_by :: "journal \<Rightarrow> string \<Rightarrow> string \<Rightarrow> bool" where
  "owned_by j r i \<longleftrightarrow> role j = r \<and> (i = [] \<or> instance_id j = i)"

lemma check_owner_None: "check_owner j r i = None \<longleftrightarrow> owned_by j r i"
  by (auto simp: check_owner_def owned_by_def)

text \<open>
  The two checks before any change accept exactly the well-formed journals of the caller:
  schema version 1, a known role, a well-formed instance id, every route, rule, table,
  nftables table and sysctl record carrying an identifier that names one object, the caller's
  role, and the caller's instance id when it gives one.
\<close>

theorem journal_checks_iff:
  "or_err (journal_validate j) (check_owner j r i) = None \<longleftrightarrow> journal_ok j \<and> owned_by j r i"
  by (simp add: journal_validate_None check_owner_None)

text \<open>A journal used by the witnesses.\<close>

definition sample_journal :: journal where
  "sample_journal = \<lparr>schema = 1, role = ''client'', instance_id = ''red-mpudp-0001'',
     created_at = 0,
     routes = [\<lparr>route_table = 200, route_dst = ''default'', route_dev = ''red0'', route_via = [],
       route_priority = 0\<rparr>],
     rules = [\<lparr>rule_family = ''ip'', rule_priority = 10000, rule_fwmark = 0, rule_table = 200\<rparr>],
     tables = [200, 201],
     nftables = [\<lparr>nft_family = ''inet'', nft_name = ''red_mpudp''\<rparr>],
     sysctls = [\<lparr>sysctl_name = ''net.ipv4.ip_forward'', sysctl_prior = ''0'', sysctl_installed = ''1''\<rparr>],
     resolver = None\<rparr>"

lemmas ident_defs = instance_id_re_def dev_name_re_def nft_name_re_def sysctl_name_re_def
  is_alnum_def is_digit_def is_lower_def is_upper_def

lemma sample_journal_ok: "journal_ok sample_journal"
  by (simp add: journal_ok_def sample_journal_def route_ok_def rule_ok_def nft_ok_def ident_defs)

end
