(* ===== verification/JournalRecover.thy ===== *)
theory JournalRecover
  imports JournalSchema
begin

text \<open>
  Crash recovery, \<open>internal/journal/recover.go\<close>. The Go interface \<open>Host\<close> is a record of
  operations on a host state of any type, so every theorem about \<open>recover\<close> holds for every
  host, however it fails. The four loops that delete owned objects have one shape (wrap and
  collect the error, continue, count the successes); that loop is \<open>delete_all\<close>. Collected errors
  keep the object they concern and the error of the host.
\<close>

datatype host_err = ErrResolverUnsupported | HostErr string

record 'h host =
  get_sysctl :: "string \<Rightarrow> 'h \<Rightarrow> (host_err + string) \<times> 'h"
  set_sysctl :: "string \<Rightarrow> string \<Rightarrow> 'h \<Rightarrow> host_err option \<times> 'h"
  delete_route :: "route_record \<Rightarrow> 'h \<Rightarrow> host_err option \<times> 'h"
  delete_rule :: "rule_record \<Rightarrow> 'h \<Rightarrow> host_err option \<times> 'h"
  delete_route_table :: "u32 \<Rightarrow> 'h \<Rightarrow> host_err option \<times> 'h"
  delete_nftable :: "nftable_record \<Rightarrow> 'h \<Rightarrow> host_err option \<times> 'h"
  restore_resolver :: "resolver_record \<Rightarrow> 'h \<Rightarrow> host_err option \<times> 'h"

datatype step_err =
    DeleteRouteErr route_record host_err
  | DeleteRuleErr rule_record host_err
  | RestoreResolverErr host_err
  | ReadSysctlErr string host_err
  | RestoreSysctlErr string host_err
  | DeleteTableErr u32 host_err
  | DeleteNftErr nftable_record host_err

datatype recover_err =
    Refused journal_err
  | HaltedBeforeKillSwitch "step_err list"
  | KillSwitchErrs "step_err list"

datatype log_line =
    SysctlPreserved string string string
  | StoppedAfterPhase1 nat nat
  | TableFlushFailed nat

record report =
  sysctls_restored :: "string list"
  sysctl_conflicts :: "string list"
  routes_removed :: nat
  rules_removed :: nat
  tables_removed :: nat
  nftables_removed :: nat
  resolver_restored :: bool
  kill_switch_retained :: bool

definition empty_report :: report where
  "empty_report = \<lparr>sysctls_restored = [], sysctl_conflicts = [], routes_removed = 0,
     rules_removed = 0, tables_removed = 0, nftables_removed = 0, resolver_restored = False,
     kill_switch_retained = False\<rparr>"

section \<open>The loops\<close>

fun delete_all ::
  "('x \<Rightarrow> 'h \<Rightarrow> host_err option \<times> 'h) \<Rightarrow> ('x \<Rightarrow> host_err \<Rightarrow> step_err) \<Rightarrow> 'x list \<Rightarrow> 'h
    \<Rightarrow> step_err list \<times> nat \<times> 'h" where
  "delete_all del wrap [] h = ([], 0, h)"
| "delete_all del wrap (x # xs) h =
     (case del x h of
        (Some e, h') \<Rightarrow>
          (let (es, n, h'') = delete_all del wrap xs h' in (wrap x e # es, n, h''))
      | (None, h') \<Rightarrow>
          (let (es, n, h'') = delete_all del wrap xs h' in (es, n + 1, h'')))"

definition restore_resolver_state ::
  "'h host \<Rightarrow> resolver_record option \<Rightarrow> 'h \<Rightarrow> step_err list \<times> bool \<times> 'h" where
  "restore_resolver_state H r h =
     (case r of
        None \<Rightarrow> ([], False, h)
      | Some x \<Rightarrow>
          (case restore_resolver H x h of
             (Some e, h') \<Rightarrow> ([RestoreResolverErr e], False, h')
           | (None, h') \<Rightarrow> ([], True, h')))"

text \<open>The sysctl loop: errors, restored names, conflicting names, log lines and the host.\<close>

fun restore_sysctls ::
  "'h host \<Rightarrow> sysctl_record list \<Rightarrow> 'h
    \<Rightarrow> step_err list \<times> string list \<times> string list \<times> log_line list \<times> 'h" where
  "restore_sysctls H [] h = ([], [], [], [], h)"
| "restore_sysctls H (s # ss) h =
     (case get_sysctl H (sysctl_name s) h of
        (Inl e, h1) \<Rightarrow>
          (let (es, rs, cs, ls, h') = restore_sysctls H ss h1
           in (ReadSysctlErr (sysctl_name s) e # es, rs, cs, ls, h'))
      | (Inr cur, h1) \<Rightarrow>
          if cur = sysctl_prior s then restore_sysctls H ss h1
          else if cur \<noteq> sysctl_installed s then
            (let (es, rs, cs, ls, h') = restore_sysctls H ss h1
             in (es, rs, sysctl_name s # cs,
                 SysctlPreserved (sysctl_name s) cur (sysctl_installed s) # ls, h'))
          else
            (case set_sysctl H (sysctl_name s) (sysctl_prior s) h1 of
               (Some e, h2) \<Rightarrow>
                 (let (es, rs, cs, ls, h') = restore_sysctls H ss h2
                  in (RestoreSysctlErr (sysctl_name s) e # es, rs, cs, ls, h'))
             | (None, h2) \<Rightarrow>
                 (let (es, rs, cs, ls, h') = restore_sysctls H ss h2
                  in (es, sysctl_name s # rs, cs, ls, h'))))"

section \<open>Recover\<close>

definition recover ::
  "'h host \<Rightarrow> journal \<Rightarrow> string \<Rightarrow> string \<Rightarrow> 'h
    \<Rightarrow> recover_err option \<times> report \<times> log_line list \<times> 'h" where
  "recover H j r i h =
     (case or_err (journal_validate j) (check_owner j r i) of
        Some e \<Rightarrow> (Some (Refused e), empty_report, [], h)
      | None \<Rightarrow>
          (let (e1, n1, h1) = delete_all (delete_route H) DeleteRouteErr (routes j) h;
               (e2, n2, h2) = delete_all (delete_rule H) DeleteRuleErr (rules j) h1;
               (e3, rr, h3) = restore_resolver_state H (resolver j) h2;
               (e4, rs, cs, ls, h4) = restore_sysctls H (sysctls j) h3;
               rep1 = empty_report\<lparr>routes_removed := n1, rules_removed := n2,
                        resolver_restored := rr, sysctls_restored := rs, sysctl_conflicts := cs\<rparr>
           in if e1 @ e2 @ e3 @ e4 \<noteq> [] then
                (Some (HaltedBeforeKillSwitch (e1 @ e2 @ e3 @ e4)),
                 rep1\<lparr>kill_switch_retained := 0 < length (nftables j)\<rparr>,
                 ls @ [StoppedAfterPhase1 (length (tables j)) (length (nftables j))], h4)
              else
                (let (e5, n5, h5) = delete_all (delete_route_table H) DeleteTableErr (tables j) h4;
                     rep2 = rep1\<lparr>tables_removed := n5\<rparr>
                 in if e5 \<noteq> [] then
                      (Some (HaltedBeforeKillSwitch e5),
                       rep2\<lparr>kill_switch_retained := 0 < length (nftables j)\<rparr>,
                       ls @ [TableFlushFailed (length (nftables j))], h5)
                    else
                      (let (e6, n6, h6) = delete_all (delete_nftable H) DeleteNftErr (nftables j) h5;
                           rep3 = rep2\<lparr>nftables_removed := n6\<rparr>
                       in if e6 \<noteq> [] then
                            (Some (KillSwitchErrs e6),
                             rep3\<lparr>kill_switch_retained := n6 < length (nftables j)\<rparr>, ls, h6)
                          else (None, rep3, ls, h6)))))"

section \<open>Observing the host\<close>

text \<open>
  What recovery does to a host is the list of calls it makes with their replies. \<open>traced\<close>
  turns a host into one that keeps this list beside its state.
\<close>

datatype call =
    GetSysctl string
  | SetSysctl string string
  | DeleteRoute route_record
  | DeleteRule rule_record
  | DeleteRouteTable u32
  | DeleteNFTable nftable_record
  | RestoreResolver resolver_record

datatype reply = Done | Failed host_err | Value string

type_synonym event = "call \<times> reply"

fun ok_reply :: "reply \<Rightarrow> bool" where
  "ok_reply (Failed e) = False"
| "ok_reply r = True"

definition err_reply :: "host_err option \<Rightarrow> reply" where
  "err_reply r = (case r of None \<Rightarrow> Done | Some e \<Rightarrow> Failed e)"

definition traced_op ::
  "('x \<Rightarrow> call) \<Rightarrow> ('x \<Rightarrow> 'h \<Rightarrow> host_err option \<times> 'h) \<Rightarrow> 'x \<Rightarrow> 'h \<times> event list
    \<Rightarrow> host_err option \<times> 'h \<times> event list" where
  "traced_op mk del x s =
     (case del x (fst s) of (r, h') \<Rightarrow> (r, h', snd s @ [(mk x, err_reply r)]))"

definition traced :: "'h host \<Rightarrow> ('h \<times> event list) host" where
  "traced H = \<lparr>
     get_sysctl = (\<lambda>k s. case get_sysctl H k (fst s) of
        (r, h') \<Rightarrow> (r, h', snd s @ [(GetSysctl k, case r of Inl e \<Rightarrow> Failed e | Inr v \<Rightarrow> Value v)])),
     set_sysctl = (\<lambda>k v s. traced_op (SetSysctl k) (set_sysctl H k) v s),
     delete_route = traced_op DeleteRoute (delete_route H),
     delete_rule = traced_op DeleteRule (delete_rule H),
     delete_route_table = traced_op DeleteRouteTable (delete_route_table H),
     delete_nftable = traced_op DeleteNFTable (delete_nftable H),
     restore_resolver = traced_op RestoreResolver (restore_resolver H)\<rparr>"

definition host_calls :: "'h host \<Rightarrow> journal \<Rightarrow> string \<Rightarrow> string \<Rightarrow> 'h \<Rightarrow> event list" where
  "host_calls H j r i h = snd (snd (snd (snd (recover (traced H) j r i (h, [])))))"

lemma traced_sel [simp]:
  "delete_route (traced H) = traced_op DeleteRoute (delete_route H)"
  "delete_rule (traced H) = traced_op DeleteRule (delete_rule H)"
  "delete_route_table (traced H) = traced_op DeleteRouteTable (delete_route_table H)"
  "delete_nftable (traced H) = traced_op DeleteNFTable (delete_nftable H)"
  "restore_resolver (traced H) = traced_op RestoreResolver (restore_resolver H)"
  "set_sysctl (traced H) k = traced_op (SetSysctl k) (set_sysctl H k)"
  by (simp_all add: traced_def fun_eq_iff)

text \<open>The events of each loop.\<close>

fun delete_events ::
  "('x \<Rightarrow> call) \<Rightarrow> ('x \<Rightarrow> 'h \<Rightarrow> host_err option \<times> 'h) \<Rightarrow> 'x list \<Rightarrow> 'h \<Rightarrow> event list" where
  "delete_events mk del [] h = []"
| "delete_events mk del (x # xs) h =
     (case del x h of (r, h') \<Rightarrow> (mk x, err_reply r) # delete_events mk del xs h')"

definition resolver_events :: "'h host \<Rightarrow> resolver_record option \<Rightarrow> 'h \<Rightarrow> event list" where
  "resolver_events H r h = delete_events RestoreResolver (restore_resolver H)
     (case r of None \<Rightarrow> [] | Some x \<Rightarrow> [x]) h"

fun sysctl_events :: "'h host \<Rightarrow> sysctl_record list \<Rightarrow> 'h \<Rightarrow> event list" where
  "sysctl_events H [] h = []"
| "sysctl_events H (s # ss) h =
     (case get_sysctl H (sysctl_name s) h of
        (Inl e, h1) \<Rightarrow> (GetSysctl (sysctl_name s), Failed e) # sysctl_events H ss h1
      | (Inr cur, h1) \<Rightarrow> (GetSysctl (sysctl_name s), Value cur) #
          (if cur = sysctl_installed s \<and> cur \<noteq> sysctl_prior s then
             (case set_sysctl H (sysctl_name s) (sysctl_prior s) h1 of
                (r, h2) \<Rightarrow> (SetSysctl (sysctl_name s) (sysctl_prior s), err_reply r)
                             # sysctl_events H ss h2)
           else sysctl_events H ss h1))"

lemma delete_all_traced:
  "delete_all (traced_op mk del) w xs (h, tr) =
     (case delete_all del w xs h of (es, n, h') \<Rightarrow> (es, n, h', tr @ delete_events mk del xs h))"
  by (induction xs arbitrary: h tr)
    (auto simp: traced_op_def split: prod.split option.split)

lemma resolver_traced:
  "restore_resolver_state (traced H) r (h, tr) =
     (case restore_resolver_state H r h of
        (es, b, h') \<Rightarrow> (es, b, h', tr @ resolver_events H r h))"
  by (auto simp: restore_resolver_state_def resolver_events_def traced_op_def
      split: prod.split option.split)

lemma sysctls_traced:
  "restore_sysctls (traced H) ss (h, tr) =
     (case restore_sysctls H ss h of
        (es, rs, cs, ls, h') \<Rightarrow> (es, rs, cs, ls, h', tr @ sysctl_events H ss h))"
proof (induction ss arbitrary: h tr)
  case (Cons s ss)
  have get: "get_sysctl (traced H) k (x, t) = (case get_sysctl H k x of
      (r, h') \<Rightarrow> (r, h', t @ [(GetSysctl k, case r of Inl e \<Rightarrow> Failed e | Inr v \<Rightarrow> Value v)]))"
    for k x t by (simp add: traced_def)
  obtain r h1 where g: "get_sysctl H (sysctl_name s) h = (r, h1)" by fastforce
  show ?case
  proof (cases r)
    case (Inl e)
    with g Cons show ?thesis by (simp add: get split: prod.split)
  next
    case (Inr cur)
    obtain q h2 where q: "set_sysctl H (sysctl_name s) (sysctl_prior s) h1 = (q, h2)" by fastforce
    show ?thesis
      by (cases q) (use g q Inr Cons in
        \<open>simp_all add: get traced_op_def err_reply_def split: prod.split\<close>)
  qed
qed simp


section \<open>The shape of a run\<close>

definition all_ok :: "event list \<Rightarrow> bool" where
  "all_ok es \<longleftrightarrow> list_all (\<lambda>e. ok_reply (snd e)) es"

definition count_ok :: "event list \<Rightarrow> nat" where
  "count_ok es = length (filter (\<lambda>e. ok_reply (snd e)) es)"

lemma all_ok_simps [simp]:
  "all_ok []" "all_ok (e # es) \<longleftrightarrow> ok_reply (snd e) \<and> all_ok es"
  "all_ok (es @ fs) \<longleftrightarrow> all_ok es \<and> all_ok fs"
  by (simp_all add: all_ok_def)

lemma count_ok_simps [simp]:
  "count_ok [] = 0" "count_ok (e # es) = (if ok_reply (snd e) then count_ok es + 1 else count_ok es)"
  by (simp_all add: count_ok_def)

lemma ok_err_reply [simp]: "ok_reply (err_reply r) \<longleftrightarrow> r = None"
  by (cases r) (simp_all add: err_reply_def)

lemma count_ok_le: "count_ok es \<le> length es"
  by (simp add: count_ok_def)

lemma all_ok_count: "all_ok es \<longleftrightarrow> count_ok es = length es"
proof (induction es)
  case (Cons e es)
  with count_ok_le [of es] show ?case by auto
qed simp

text \<open>The events of the sysctl phase, record by record.\<close>

inductive sysctl_trace :: "sysctl_record list \<Rightarrow> event list \<Rightarrow> bool" where
  no_sysctl: "sysctl_trace [] []"
| unreadable: "sysctl_trace ss es \<Longrightarrow>
    sysctl_trace (s # ss) ((GetSysctl (sysctl_name s), Failed e) # es)"
| preserved: "sysctl_trace ss es \<Longrightarrow> cur \<noteq> sysctl_installed s \<or> cur = sysctl_prior s \<Longrightarrow>
    sysctl_trace (s # ss) ((GetSysctl (sysctl_name s), Value cur) # es)"
| restored: "sysctl_trace ss es \<Longrightarrow> sysctl_installed s \<noteq> sysctl_prior s \<Longrightarrow>
    sysctl_trace (s # ss) ((GetSysctl (sysctl_name s), Value (sysctl_installed s))
      # (SetSysctl (sysctl_name s) (sysctl_prior s), err_reply r) # es)"

definition set_names :: "event list \<Rightarrow> string list" where
  "set_names es = concat (map (\<lambda>e. case e of (SetSysctl k v, Done) \<Rightarrow> [k] | _ \<Rightarrow> []) es)"

lemma delete_events_facts:
  assumes "delete_all del w xs h = (es, n, h')"
  shows "map fst (delete_events mk del xs h) = map mk xs"
    and "es = [] \<longleftrightarrow> all_ok (delete_events mk del xs h)"
    and "n = count_ok (delete_events mk del xs h)"
  using assms
  by (induction xs arbitrary: h es n h') (auto split: prod.splits option.splits)

lemma resolver_events_facts:
  assumes "restore_resolver_state H r h = (es, b, h')"
  shows "map fst (resolver_events H r h) = map RestoreResolver (case r of None \<Rightarrow> [] | Some x \<Rightarrow> [x])"
    and "es = [] \<longleftrightarrow> all_ok (resolver_events H r h)"
    and "b \<longleftrightarrow> count_ok (resolver_events H r h) = 1"
  using assms
  by (auto simp: restore_resolver_state_def resolver_events_def split: prod.splits option.splits)

lemma sysctl_events_facts:
  assumes "restore_sysctls H ss h = (es, rs, cs, ls, h')"
  shows "sysctl_trace ss (sysctl_events H ss h)
    \<and> (es = [] \<longleftrightarrow> all_ok (sysctl_events H ss h)) \<and> rs = set_names (sysctl_events H ss h)"
  using assms
proof (induction ss arbitrary: h es rs cs ls h')
  case Nil
  then show ?case by (auto simp: set_names_def intro: no_sysctl)
next
  case (Cons s ss)
  obtain r h1 where g: "get_sysctl H (sysctl_name s) h = (r, h1)" by fastforce
  show ?case
  proof (cases r)
    case (Inl e)
    with g Cons show ?thesis by (fastforce simp: set_names_def intro: unreadable split: prod.splits)
  next
    case (Inr cur)
    obtain q h2 where q: "set_sysctl H (sysctl_name s) (sysctl_prior s) h1 = (q, h2)" by fastforce
    show ?thesis
    proof (cases "cur = sysctl_installed s \<and> cur \<noteq> sysctl_prior s")
      case True
      then have "sysctl_installed s \<noteq> sysctl_prior s" by auto
      with True g q Inr Cons show ?thesis
        by (cases q) (fastforce simp: set_names_def err_reply_def
            intro: restored [where r = None, simplified err_reply_def option.case]
              restored [where r = "Some _", simplified err_reply_def option.case] split: prod.splits)+
    next
      case False
      with g Inr Cons show ?thesis
        by (fastforce simp: set_names_def intro: preserved split: prod.splits if_splits)
    qed
  qed
qed


text \<open>
  A run that is not refused makes the calls of the six loops one after the other; the table
  loop runs only when everything before it succeeded, and the nftables loop only when the
  table loop did too. The error and the report are read off these events.
\<close>

record run_shape =
  ev_routes :: "event list"
  ev_rules :: "event list"
  ev_resolver :: "event list"
  ev_sysctls :: "event list"
  ev_tables :: "event list"
  ev_nft :: "event list"

definition before_tables :: "run_shape \<Rightarrow> event list" where
  "before_tables x = ev_routes x @ ev_rules x @ ev_resolver x @ ev_sysctls x"

definition before_nft :: "run_shape \<Rightarrow> event list" where
  "before_nft x = before_tables x @ ev_tables x"

definition shape_of :: "journal \<Rightarrow> run_shape \<Rightarrow> bool" where
  "shape_of j x \<longleftrightarrow>
     map fst (ev_routes x) = map DeleteRoute (routes j)
   \<and> map fst (ev_rules x) = map DeleteRule (rules j)
   \<and> map fst (ev_resolver x) =
       map RestoreResolver (case resolver j of None \<Rightarrow> [] | Some r \<Rightarrow> [r])
   \<and> sysctl_trace (sysctls j) (ev_sysctls x)
   \<and> map fst (ev_tables x) =
       (if all_ok (before_tables x) then map DeleteRouteTable (tables j) else [])
   \<and> map fst (ev_nft x) = (if all_ok (before_nft x) then map DeleteNFTable (nftables j) else [])"

definition report_of :: "journal \<Rightarrow> run_shape \<Rightarrow> report \<Rightarrow> bool" where
  "report_of j x rep \<longleftrightarrow>
     routes_removed rep = count_ok (ev_routes x) \<and> rules_removed rep = count_ok (ev_rules x)
   \<and> tables_removed rep = count_ok (ev_tables x) \<and> nftables_removed rep = count_ok (ev_nft x)
   \<and> resolver_restored rep = (count_ok (ev_resolver x) = 1)
   \<and> sysctls_restored rep = set_names (ev_sysctls x)
   \<and> kill_switch_retained rep = (nftables_removed rep < length (nftables j))"

lemma recover_shape:
  assumes "journal_validate j = None" "check_owner j r i = None"
  obtains x where "shape_of j x" "host_calls H j r i h = before_nft x @ ev_nft x"
    "fst (recover H j r i h) = None \<longleftrightarrow> all_ok (before_nft x @ ev_nft x)"
    "report_of j x (fst (snd (recover H j r i h)))"
proof -
  obtain e1 n1 h1 where 1: "delete_all (delete_route H) DeleteRouteErr (routes j) h = (e1, n1, h1)"
    using prod_cases3 by blast
  obtain e2 n2 h2 where 2: "delete_all (delete_rule H) DeleteRuleErr (rules j) h1 = (e2, n2, h2)"
    using prod_cases3 by blast
  obtain e3 rr h3 where 3: "restore_resolver_state H (resolver j) h2 = (e3, rr, h3)"
    using prod_cases3 by blast
  obtain e4 rs cs ls h4 where 4: "restore_sysctls H (sysctls j) h3 = (e4, rs, cs, ls, h4)"
    using prod_cases5 by blast
  obtain e5 n5 h5 where 5: "delete_all (delete_route_table H) DeleteTableErr (tables j) h4 = (e5, n5, h5)"
    using prod_cases3 by blast
  obtain e6 n6 h6 where 6: "delete_all (delete_nftable H) DeleteNftErr (nftables j) h5 = (e6, n6, h6)"
    using prod_cases3 by blast
  note f1 = delete_events_facts [OF 1, of DeleteRoute] and f2 = delete_events_facts [OF 2, of DeleteRule]
    and f3 = resolver_events_facts [OF 3] and f4 = sysctl_events_facts [OF 4]
    and f5 = delete_events_facts [OF 5, of DeleteRouteTable]
    and f6 = delete_events_facts [OF 6, of DeleteNFTable]
  define x where "x = \<lparr>ev_routes = delete_events DeleteRoute (delete_route H) (routes j) h,
    ev_rules = delete_events DeleteRule (delete_rule H) (rules j) h1,
    ev_resolver = resolver_events H (resolver j) h2, ev_sysctls = sysctl_events H (sysctls j) h3,
    ev_tables = (if e1 @ e2 @ e3 @ e4 = [] then
       delete_events DeleteRouteTable (delete_route_table H) (tables j) h4 else []),
    ev_nft = (if e1 @ e2 @ e3 @ e4 = [] \<and> e5 = [] then
       delete_events DeleteNFTable (delete_nftable H) (nftables j) h5 else [])\<rparr>"
  note fs = f1 f2 f3 f4 f5 f6
  have n6: "e6 = [] \<longleftrightarrow> n6 = length (nftables j)"
    using f6 by (metis all_ok_count length_map)
  show ?thesis
  proof
    show "shape_of j x" using fs
      by (cases "e1 @ e2 @ e3 @ e4 = []"; cases "e5 = []")
        (auto simp: shape_of_def x_def before_tables_def before_nft_def)
    show "host_calls H j r i h = before_nft x @ ev_nft x"
      unfolding host_calls_def recover_def using assms
      by (simp add: 1 2 3 4 5 6 delete_all_traced resolver_traced sysctls_traced Let_def x_def
          before_tables_def before_nft_def)
    show "fst (recover H j r i h) = None \<longleftrightarrow> all_ok (before_nft x @ ev_nft x)"
      unfolding recover_def using assms fs
      by (auto simp: 1 2 3 4 5 6 Let_def x_def before_tables_def before_nft_def)
    show "report_of j x (fst (snd (recover H j r i h)))"
      unfolding recover_def using assms fs n6
      by (auto simp: 1 2 3 4 5 6 Let_def x_def report_of_def empty_report_def)
  qed
qed


section \<open>What recovery does to a host\<close>

fun is_nft :: "call \<Rightarrow> bool" where
  "is_nft (DeleteNFTable t) = True"
| "is_nft c = False"

fun phase :: "call \<Rightarrow> nat" where
  "phase (DeleteRoute r) = 0"
| "phase (DeleteRule r) = 1"
| "phase (RestoreResolver r) = 2"
| "phase (GetSysctl k) = 3"
| "phase (SetSysctl k v) = 3"
| "phase (DeleteRouteTable t) = 4"
| "phase (DeleteNFTable t) = 5"

text \<open>A call that concerns an object the journal names, with the value it records.\<close>

fun owned_call :: "journal \<Rightarrow> call \<Rightarrow> bool" where
  "owned_call j (GetSysctl k) \<longleftrightarrow> k \<in> sysctl_name ` set (sysctls j)"
| "owned_call j (SetSysctl k v) \<longleftrightarrow> (\<exists>s \<in> set (sysctls j). k = sysctl_name s \<and> v = sysctl_prior s)"
| "owned_call j (DeleteRoute r) \<longleftrightarrow> r \<in> set (routes j)"
| "owned_call j (DeleteRule r) \<longleftrightarrow> r \<in> set (rules j)"
| "owned_call j (DeleteRouteTable t) \<longleftrightarrow> t \<in> set (tables j)"
| "owned_call j (DeleteNFTable t) \<longleftrightarrow> t \<in> set (nftables j)"
| "owned_call j (RestoreResolver r) \<longleftrightarrow> resolver j = Some r"

lemma trace_calls:
  "sysctl_trace ss es \<Longrightarrow> e \<in> set es \<Longrightarrow>
     \<exists>s \<in> set ss. fst e = GetSysctl (sysctl_name s) \<or> fst e = SetSysctl (sysctl_name s) (sysctl_prior s)"
  by (induction rule: sysctl_trace.induct) auto

lemma trace_reads:
  "sysctl_trace ss es \<Longrightarrow> all_ok es \<Longrightarrow> s \<in> set ss \<Longrightarrow>
     \<exists>v. (GetSysctl (sysctl_name s), Value v) \<in> set es"
  by (induction rule: sysctl_trace.induct) auto

lemma trace_sets:
  "sysctl_trace ss es \<Longrightarrow> es = pre @ (SetSysctl k v, x) # post \<Longrightarrow>
     \<exists>s \<in> set ss. k = sysctl_name s \<and> v = sysctl_prior s \<and> sysctl_installed s \<noteq> sysctl_prior s
       \<and> pre \<noteq> [] \<and> last pre = (GetSysctl k, Value (sysctl_installed s))"
proof (induction arbitrary: pre rule: sysctl_trace.induct)
  case (unreadable ss es s e)
  from unreadable.prems obtain p where "pre = (GetSysctl (sysctl_name s), Failed e) # p"
    "es = p @ (SetSysctl k v, x) # post" by (cases pre) auto
  with unreadable.IH [of p] show ?case by fastforce
next
  case (preserved ss es cur s)
  from preserved.prems obtain p where "pre = (GetSysctl (sysctl_name s), Value cur) # p"
    "es = p @ (SetSysctl k v, x) # post" by (cases pre) auto
  with preserved.IH [of p] show ?case by fastforce
next
  case (restored ss es s r)
  from restored.prems obtain p where p: "pre = (GetSysctl (sysctl_name s), Value (sysctl_installed s)) # p"
    "(SetSysctl (sysctl_name s) (sysctl_prior s), err_reply r) # es = p @ (SetSysctl k v, x) # post"
    by (cases pre) auto
  show ?case
  proof (cases p)
    case Nil
    with p restored.hyps show ?thesis by (intro bexI [of _ s]) auto
  next
    case (Cons a q)
    with p restored.IH [of q] show ?thesis by fastforce
  qed
qed simp

lemma map_fst_in:
  assumes "map fst es = map f xs" and "e \<in> set es"
  shows "\<exists>x \<in> set xs. fst e = f x"
proof -
  have "fst e \<in> fst ` set es" using assms(2) by blast
  also have "fst ` set es = f ` set xs" using assms(1) by (metis list.set_map)
  finally show ?thesis by blast
qed

lemma in_map_fst:
  assumes "map fst es = map f xs" and "x \<in> set xs"
  shows "f x \<in> fst ` set es"
  using assms by (metis image_eqI list.set_map)


lemma map_fst_all:
  assumes "map fst es = map f xs" and "\<And>x. x \<in> set xs \<Longrightarrow> P (f x)"
  shows "\<forall>e \<in> set es. P (fst e)"
  using map_fst_in [OF assms(1)] assms(2) by metis

lemma split_after: "A @ B = pre @ e # post \<Longrightarrow> e \<notin> set A \<Longrightarrow> \<exists>p. pre = A @ p \<and> B = p @ e # post"
  by (auto simp: append_eq_append_conv2 append_eq_Cons_conv)

lemma shape_phases:
  assumes "shape_of j x"
  shows "\<forall>e \<in> set (ev_routes x). phase (fst e) = 0 \<and> owned_call j (fst e)"
    and "\<forall>e \<in> set (ev_rules x). phase (fst e) = 1 \<and> owned_call j (fst e)"
    and "\<forall>e \<in> set (ev_resolver x). phase (fst e) = 2 \<and> owned_call j (fst e)"
    and "\<forall>e \<in> set (ev_sysctls x). phase (fst e) = 3 \<and> owned_call j (fst e)"
    and "\<forall>e \<in> set (ev_tables x). phase (fst e) = 4 \<and> owned_call j (fst e)"
    and "\<forall>e \<in> set (ev_nft x). phase (fst e) = 5 \<and> owned_call j (fst e)"
proof -
  note x = assms [unfolded shape_of_def]
  show "\<forall>e \<in> set (ev_routes x). phase (fst e) = 0 \<and> owned_call j (fst e)"
    by (rule map_fst_all) (use x in auto)
  show "\<forall>e \<in> set (ev_rules x). phase (fst e) = 1 \<and> owned_call j (fst e)"
    by (rule map_fst_all) (use x in auto)
  show "\<forall>e \<in> set (ev_resolver x). phase (fst e) = 2 \<and> owned_call j (fst e)"
    by (rule map_fst_all [where xs = "case resolver j of None \<Rightarrow> [] | Some r \<Rightarrow> [r]"])
      (use x in \<open>auto split: option.splits\<close>)
  show "\<forall>e \<in> set (ev_sysctls x). phase (fst e) = 3 \<and> owned_call j (fst e)"
    using x trace_calls [of "sysctls j" "ev_sysctls x"] by fastforce
  show "\<forall>e \<in> set (ev_tables x). phase (fst e) = 4 \<and> owned_call j (fst e)"
    by (rule map_fst_all [where xs = "if all_ok (before_tables x) then tables j else []"])
      (use x in \<open>auto split: if_splits\<close>)
  show "\<forall>e \<in> set (ev_nft x). phase (fst e) = 5 \<and> owned_call j (fst e)"
    by (rule map_fst_all [where xs = "if all_ok (before_nft x) then nftables j else []"])
      (use x in \<open>auto split: if_splits\<close>)
qed

lemma before_nft_phase: "shape_of j x \<Longrightarrow> e \<in> set (before_nft x) \<Longrightarrow> phase (fst e) < 5"
  using shape_phases [of j x] by (fastforce simp: before_nft_def before_tables_def)

lemma is_nft_phase: "is_nft c \<longleftrightarrow> phase c = 5"
  by (cases c) simp_all

lemma refused_calls:
  "or_err (journal_validate j) (check_owner j r i) \<noteq> None \<Longrightarrow>
     host_calls H j r i h = [] \<and> snd (snd (snd (recover H j r i h))) = h"
  by (auto simp: host_calls_def recover_def simp del: or_err_None)

lemma host_calls_shape:
  assumes "host_calls H j r i h \<noteq> []"
  obtains x where "shape_of j x" "host_calls H j r i h = before_nft x @ ev_nft x"
    "fst (recover H j r i h) = None \<longleftrightarrow> all_ok (before_nft x @ ev_nft x)"
    "report_of j x (fst (snd (recover H j r i h)))"
  using assms refused_calls [of j r i H h] recover_shape [of j r i H h] by (metis or_err_None)

text \<open>
  C1. The kill switch goes last and only after everything else has worked: when recovery asks
  any host to delete an owned nftables table, every call before it that was not itself the
  deletion of an nftables table succeeded, every route, rule, resolver, sysctl and route table
  of the journal had been dealt with, and nothing but nftables deletions follows.
\<close>

theorem kill_switch_last:
  assumes "host_calls H j r i h = pre @ (DeleteNFTable t, y) # post"
  shows "(\<forall>e \<in> set pre. is_nft (fst e) \<or> ok_reply (snd e)) \<and> (\<forall>e \<in> set post. is_nft (fst e))
    \<and> DeleteRoute ` set (routes j) \<subseteq> fst ` set pre
    \<and> DeleteRule ` set (rules j) \<subseteq> fst ` set pre
    \<and> RestoreResolver ` set_option (resolver j) \<subseteq> fst ` set pre
    \<and> GetSysctl ` sysctl_name ` set (sysctls j) \<subseteq> fst ` set pre
    \<and> DeleteRouteTable ` set (tables j) \<subseteq> fst ` set pre"
proof -
  from assms have "host_calls H j r i h \<noteq> []" by simp
  then obtain x where x: "shape_of j x" "host_calls H j r i h = before_nft x @ ev_nft x"
    by (rule host_calls_shape)
  with assms before_nft_phase [OF x(1)] split_after [of "before_nft x" "ev_nft x" pre _ post]
  obtain p where p: "pre = before_nft x @ p" "ev_nft x = p @ (DeleteNFTable t, y) # post"
    by fastforce
  then have nft: "\<forall>e \<in> set p \<union> set post. is_nft (fst e)"
    using shape_phases(6) [OF x(1)] by (auto simp: is_nft_phase)
  have ok: "all_ok (before_nft x)" using p x(1) by (auto simp: shape_of_def split: if_splits)
  then have tabs: "map fst (ev_tables x) = map DeleteRouteTable (tables j)"
    using x(1) by (simp add: shape_of_def before_nft_def)
  have sc: "GetSysctl (sysctl_name s) \<in> fst ` set (ev_sysctls x)" if "s \<in> set (sysctls j)" for s
    using trace_reads [OF _ _ that, of "ev_sysctls x"] ok x(1)
    by (force simp: shape_of_def before_nft_def before_tables_def)
  have inc: "DeleteRoute ` set (routes j) \<subseteq> fst ` set (ev_routes x)"
    "DeleteRule ` set (rules j) \<subseteq> fst ` set (ev_rules x)"
    "RestoreResolver ` set_option (resolver j) \<subseteq> fst ` set (ev_resolver x)"
    "DeleteRouteTable ` set (tables j) \<subseteq> fst ` set (ev_tables x)"
    using x(1) tabs in_map_fst [of "ev_routes x" DeleteRoute "routes j"]
      in_map_fst [of "ev_rules x" DeleteRule "rules j"]
      in_map_fst [of "ev_tables x" DeleteRouteTable "tables j"]
      in_map_fst [of "ev_resolver x" RestoreResolver "case resolver j of None \<Rightarrow> [] | Some q \<Rightarrow> [q]"]
    by (auto simp: shape_of_def image_subset_iff split: option.splits)
  have "set pre = set (ev_routes x) \<union> set (ev_rules x) \<union> set (ev_resolver x)
      \<union> set (ev_sysctls x) \<union> set (ev_tables x) \<union> set p"
    by (auto simp: p before_nft_def before_tables_def)
  with nft ok inc sc show ?thesis by (auto simp: all_ok_def list_all_iff p(1) image_Un)
qed


text \<open>
  Recovery stays inside the journal: on any host, every call it makes concerns an object
  the journal names (and a sysctl is only ever set to the recorded prior value), the calls come
  in the order routes, rules, resolver, sysctls, route tables, nftables tables, and a journal
  that is malformed or not the caller's leads to no call and no change at all.
\<close>

theorem recover_stays_inside_journal:
  "list_all (owned_call j \<circ> fst) (host_calls H j r i h)
   \<and> sorted (map (phase \<circ> fst) (host_calls H j r i h))
   \<and> (journal_ok j \<and> owned_by j r i
      \<or> host_calls H j r i h = [] \<and> snd (snd (snd (recover H j r i h))) = h)"
proof (cases "host_calls H j r i h = []")
  case True
  then show ?thesis
    using refused_calls [of j r i H h] by (auto simp: journal_validate_None check_owner_None)
next
  case False
  then obtain x where x: "shape_of j x" "host_calls H j r i h = before_nft x @ ev_nft x"
    by (rule host_calls_shape)
  note ph = shape_phases [OF x(1)]
  have const: "\<forall>e \<in> set es. phase (fst e) = k \<and> owned_call j (fst e)
      \<Longrightarrow> map (phase \<circ> fst) es = replicate (length es) k" for es :: "event list" and k
    by (induction es) simp_all
  have "sorted (map (phase \<circ> fst) (host_calls H j r i h))"
    unfolding x(2) before_nft_def before_tables_def
    using const [OF ph(1)] const [OF ph(2)] const [OF ph(3)] const [OF ph(4)] const [OF ph(5)]
      const [OF ph(6)]
    by (auto simp: sorted_append set_replicate_conv_if)
  moreover have "list_all (owned_call j \<circ> fst) (host_calls H j r i h)"
    unfolding x(2) before_nft_def before_tables_def using ph by (auto simp: list_all_iff)
  moreover have "journal_ok j \<and> owned_by j r i"
    using False refused_calls [of j r i H h] by (metis journal_validate_None check_owner_None or_err_None)
  ultimately show ?thesis by simp
qed

text \<open>
  C5. A sysctl is written back only while it still holds the value the program installed: on
  any host, each SetSysctl is immediately preceded by a read of the same key that returned the
  recorded installed value, and the value written is the recorded prior one, a different one.
\<close>

theorem sysctl_restored_only_if_ours:
  assumes "host_calls H j r i h = pre @ (SetSysctl k v, y) # post"
  shows "\<exists>s \<in> set (sysctls j). k = sysctl_name s \<and> v = sysctl_prior s \<and> v \<noteq> sysctl_installed s
    \<and> pre \<noteq> [] \<and> last pre = (GetSysctl k, Value (sysctl_installed s))"
proof -
  from assms have "host_calls H j r i h \<noteq> []" by simp
  then obtain x where x: "shape_of j x" "host_calls H j r i h = before_nft x @ ev_nft x"
    by (rule host_calls_shape)
  note ph = shape_phases [OF x(1)]
  let ?A = "ev_routes x @ ev_rules x @ ev_resolver x" and ?C = "ev_tables x @ ev_nft x"
  have eq: "?A @ ev_sysctls x @ ?C = pre @ (SetSysctl k v, y) # post"
    using assms x(2) by (simp add: before_nft_def before_tables_def)
  have "(SetSysctl k v, y) \<notin> set ?A" using ph by fastforce
  from split_after [OF eq this] obtain p where p: "pre = ?A @ p"
    "ev_sysctls x @ ?C = p @ (SetSysctl k v, y) # post" by blast
  moreover have "(SetSysctl k v, y) \<notin> set ?C" using ph by fastforce
  ultimately obtain q where "ev_sysctls x = p @ (SetSysctl k v, y) # q"
    by (auto simp: append_eq_append_conv2 append_eq_Cons_conv)
  with trace_sets [of "sysctls j" "ev_sysctls x" p k v y q] x(1) p(1)
  show ?thesis by (fastforce simp: shape_of_def)
qed

text \<open>The number of successful calls of one phase.\<close>

definition removed :: "nat \<Rightarrow> event list \<Rightarrow> nat" where
  "removed k es = count_ok (filter (\<lambda>e. phase (fst e) = k) es)"

lemma removed_phase:
  "\<forall>e \<in> set es. phase (fst e) = n \<and> owned_call j (fst e) \<Longrightarrow>
     removed k es = (if k = n then count_ok es else 0)"
  by (induction es) (auto simp: removed_def)

lemma removed_append [simp]: "removed k (es @ fs) = removed k es + removed k fs"
  by (simp add: removed_def count_ok_def)

lemma set_names_append [simp]: "set_names (es @ fs) = set_names es @ set_names fs"
  by (simp add: set_names_def)

lemma set_names_none: "\<forall>e \<in> set es. phase (fst e) = n \<and> owned_call j (fst e) \<Longrightarrow> n \<noteq> 3 \<Longrightarrow> set_names es = []"
  by (induction es) (auto simp: set_names_def split: call.splits)

text \<open>
  C7. The report tells the truth about the host: with the journal accepted, each counter is the
  number of calls of its kind that succeeded, the restored sysctls are exactly the keys set
  successfully, there is no error exactly when every call succeeded, and the report says that
  the kill switch was retained exactly when some owned nftables table was not deleted.
\<close>

theorem recover_report_accurate:
  assumes "journal_ok j" and "owned_by j r i"
    and "recover H j r i h = (err, rep, ls, h')" and "es = host_calls H j r i h"
  shows "routes_removed rep = removed 0 es \<and> rules_removed rep = removed 1 es
    \<and> resolver_restored rep = (removed 2 es = 1) \<and> sysctls_restored rep = set_names es
    \<and> tables_removed rep = removed 4 es \<and> nftables_removed rep = removed 5 es
    \<and> kill_switch_retained rep = (removed 5 es < length (nftables j))
    \<and> (err = None \<longleftrightarrow> all_ok es)"
proof -
  have "journal_validate j = None" "check_owner j r i = None"
    using assms by (simp_all add: journal_validate_None check_owner_None)
  then obtain x where x: "shape_of j x" "es = before_nft x @ ev_nft x"
    "err = None \<longleftrightarrow> all_ok (before_nft x @ ev_nft x)" "report_of j x rep"
    by (rule recover_shape [where H = H and h = h]) (use assms in simp)
  note ph = shape_phases [OF x(1)]
  note rm = ph [THEN removed_phase]
  note sn = ph(1,2,3,5,6) [THEN set_names_none]
  show ?thesis
    using x(3,4) sn unfolding x(2) before_nft_def before_tables_def report_of_def
    by (simp add: rm)
qed

section \<open>Properties of the host's state\<close>

lemma delete_all_preserves:
  "\<forall>x \<in> set xs. \<forall>h. P h \<longrightarrow> P (snd (del x h)) \<Longrightarrow> P h \<Longrightarrow> delete_all del w xs h = (es, n, h') \<Longrightarrow> P h'"
  by (induction xs arbitrary: h es n) (fastforce split: prod.splits option.splits)+

lemma sysctls_preserve:
  assumes "\<forall>s \<in> set ss. \<forall>h. P h \<longrightarrow> P (snd (get_sysctl H (sysctl_name s) h))
      \<and> P (snd (set_sysctl H (sysctl_name s) (sysctl_prior s) h))"
    and "P h" and "restore_sysctls H ss h = (es, rs, cs, ls, h')"
  shows "P h'"
  using assms
proof (induction ss arbitrary: h es rs cs ls)
  case (Cons s ss)
  obtain r h1 where g: "get_sysctl H (sysctl_name s) h = (r, h1)" by fastforce
  obtain q h2 where q: "set_sysctl H (sysctl_name s) (sysctl_prior s) h1 = (q, h2)" by fastforce
  have "P h1" using Cons.prems(1,2) g by (metis list.set_intros(1) snd_conv)
  moreover from this have "P h2" using Cons.prems(1) q by (metis list.set_intros(1) snd_conv)
  ultimately show ?case
    using Cons.IH [of h1] Cons.IH [of h2] Cons.prems(1,3) g q
    by (auto split: prod.splits sum.splits option.splits if_splits)
qed simp

text \<open>What every call on an owned object keeps, a whole recovery keeps.\<close>

lemma recover_preserves:
  assumes P: "P h"
    and "\<forall>x \<in> set (routes j). \<forall>h. P h \<longrightarrow> P (snd (delete_route H x h))"
    and "\<forall>x \<in> set (rules j). \<forall>h. P h \<longrightarrow> P (snd (delete_rule H x h))"
    and "\<forall>x h. P h \<longrightarrow> P (snd (restore_resolver H x h))"
    and "\<forall>s \<in> set (sysctls j). \<forall>h. P h \<longrightarrow> P (snd (get_sysctl H (sysctl_name s) h))
      \<and> P (snd (set_sysctl H (sysctl_name s) (sysctl_prior s) h))"
    and "\<forall>x \<in> set (tables j). \<forall>h. P h \<longrightarrow> P (snd (delete_route_table H x h))"
    and "\<forall>x \<in> set (nftables j). \<forall>h. P h \<longrightarrow> P (snd (delete_nftable H x h))"
  shows "P (snd (snd (snd (recover H j r i h))))"
proof -
  obtain e1 n1 h1 where 1: "delete_all (delete_route H) DeleteRouteErr (routes j) h = (e1, n1, h1)"
    using prod_cases3 by blast
  obtain e2 n2 h2 where 2: "delete_all (delete_rule H) DeleteRuleErr (rules j) h1 = (e2, n2, h2)"
    using prod_cases3 by blast
  obtain e3 rr h3 where 3: "restore_resolver_state H (resolver j) h2 = (e3, rr, h3)"
    using prod_cases3 by blast
  obtain e4 rs cs ls h4 where 4: "restore_sysctls H (sysctls j) h3 = (e4, rs, cs, ls, h4)"
    using prod_cases5 by blast
  obtain e5 n5 h5 where 5: "delete_all (delete_route_table H) DeleteTableErr (tables j) h4 = (e5, n5, h5)"
    using prod_cases3 by blast
  obtain e6 n6 h6 where 6: "delete_all (delete_nftable H) DeleteNftErr (nftables j) h5 = (e6, n6, h6)"
    using prod_cases3 by blast
  have "P h1" by (rule delete_all_preserves [OF assms(2) P 1])
  then have "P h2" by (rule delete_all_preserves [OF assms(3) _ 2])
  then have "P h3" using assms(4) 3
    by (auto simp: restore_resolver_state_def split: option.splits prod.splits)
      (metis snd_conv)+
  then have h4: "P h4" by (rule sysctls_preserve [OF assms(5) _ 4])
  then have h5: "P h5" by (rule delete_all_preserves [OF assms(6) _ 5])
  then have "P h6" by (rule delete_all_preserves [OF assms(7) _ 6])
  with P h4 h5 show ?thesis
    by (auto simp: recover_def 1 2 3 4 5 6 Let_def split: option.split)
qed

section \<open>The host of the unit tests\<close>

text \<open>
  \<open>fakeHost\<close> of \<open>recover_test.go\<close>: live sysctls as a map, the deletions it was asked for, and
  switches that make an operation fail.
\<close>

record fake_host =
  live_sysctl :: "string \<rightharpoonup> string"
  routes_deleted :: "route_record list"
  rules_deleted :: "rule_record list"
  tables_deleted :: "u32 list"
  nft_deleted :: "nftable_record list"
  sysctl_set :: "string \<rightharpoonup> string"
  resolver_count :: int
  fail_delete_route :: bool
  fail_delete_route_table :: bool
  fail_delete_nftable :: bool
  resolver_unsupported :: bool
  fail_resolver_hard :: bool

definition new_fake_host :: fake_host where
  "new_fake_host = \<lparr>live_sysctl = (\<lambda>_. None), routes_deleted = [], rules_deleted = [],
     tables_deleted = [], nft_deleted = [], sysctl_set = (\<lambda>_. None), resolver_count = 0,
     fail_delete_route = False, fail_delete_route_table = False, fail_delete_nftable = False,
     resolver_unsupported = False, fail_resolver_hard = False\<rparr>"

definition fake_ops :: "fake_host host" where
  "fake_ops = \<lparr>
     get_sysctl = (\<lambda>k h. (case live_sysctl h k of
        None \<Rightarrow> Inl (HostErr ''no such key'') | Some v \<Rightarrow> Inr v, h)),
     set_sysctl = (\<lambda>k v h. (None, h\<lparr>live_sysctl := (live_sysctl h)(k \<mapsto> v),
        sysctl_set := (sysctl_set h)(k \<mapsto> v)\<rparr>)),
     delete_route = (\<lambda>r h. if fail_delete_route h then (Some (HostErr ''boom''), h)
        else (None, h\<lparr>routes_deleted := routes_deleted h @ [r]\<rparr>)),
     delete_rule = (\<lambda>r h. (None, h\<lparr>rules_deleted := rules_deleted h @ [r]\<rparr>)),
     delete_route_table = (\<lambda>t h. if fail_delete_route_table h then (Some (HostErr ''boom''), h)
        else (None, h\<lparr>tables_deleted := tables_deleted h @ [t]\<rparr>)),
     delete_nftable = (\<lambda>t h. if fail_delete_nftable h then (Some (HostErr ''boom''), h)
        else (None, h\<lparr>nft_deleted := nft_deleted h @ [t]\<rparr>)),
     restore_resolver = (\<lambda>r h. if resolver_unsupported h then (Some ErrResolverUnsupported, h)
        else if fail_resolver_hard h then (Some (HostErr ''resolver boom''), h)
        else (None, h\<lparr>resolver_count := resolver_count h + 1\<rparr>))\<rparr>"

definition sample_host :: fake_host where
  "sample_host = new_fake_host\<lparr>live_sysctl := [''net.ipv4.ip_forward'' \<mapsto> ''1'']\<rparr>"

lemmas fake_defs = fake_ops_def sample_host_def new_fake_host_def

lemma sample_not_refused:
  "or_err (journal_validate sample_journal) (check_owner sample_journal ''client'' []) = None"
  using sample_journal_ok
  by (simp add: journal_validate_None check_owner_None owned_by_def) (simp add: sample_journal_def)

lemma sample_calls:
  "host_calls fake_ops sample_journal ''client'' [] sample_host =
     [(DeleteRoute (hd (routes sample_journal)), Done), (DeleteRule (hd (rules sample_journal)), Done),
      (GetSysctl ''net.ipv4.ip_forward'', Value ''1''), (SetSysctl ''net.ipv4.ip_forward'' ''0'', Done),
      (DeleteRouteTable 200, Done), (DeleteRouteTable 201, Done),
      (DeleteNFTable (hd (nftables sample_journal)), Done)]"
  by code_simp

theorem kill_switch_last_witness:
  "(GetSysctl ''net.ipv4.ip_forward'') \<in> fst ` set (butlast
     (host_calls fake_ops sample_journal ''client'' [] sample_host))"
proof -
  have "host_calls fake_ops sample_journal ''client'' [] sample_host =
      butlast (host_calls fake_ops sample_journal ''client'' [] sample_host)
        @ (DeleteNFTable (hd (nftables sample_journal)), Done) # []"
    by (simp add: sample_calls)
  from kill_switch_last [OF this] show ?thesis by (simp add: sample_journal_def)
qed


theorem sysctl_restored_only_if_ours_witness:
  "''0'' \<noteq> ''1'' \<and> (\<exists>s \<in> set (sysctls sample_journal). ''0'' = sysctl_prior s)"
proof -
  have "host_calls fake_ops sample_journal ''client'' [] sample_host =
      take 3 (host_calls fake_ops sample_journal ''client'' [] sample_host)
        @ (SetSysctl ''net.ipv4.ip_forward'' ''0'', Done)
        # drop 4 (host_calls fake_ops sample_journal ''client'' [] sample_host)"
    by (simp add: sample_calls)
  from sysctl_restored_only_if_ours [OF this] show ?thesis by auto
qed

theorem recover_report_accurate_witness:
  "routes_removed (fst (snd (recover fake_ops sample_journal ''client'' [] sample_host))) = 1"
proof -
  obtain err rep ls h' where
    r: "recover fake_ops sample_journal ''client'' [] sample_host = (err, rep, ls, h')"
    using prod_cases4 by blast
  have "owned_by sample_journal ''client'' []" by (simp add: owned_by_def sample_journal_def)
  from recover_report_accurate [OF sample_journal_ok this r refl] r show ?thesis
    by (simp add: sample_calls removed_def)
qed


section \<open>Recovering twice\<close>

text \<open>The steps of a recovery as a list of jobs.\<close>

datatype job =
    JRoute route_record | JRule rule_record | JResolver resolver_record
  | JSysctl sysctl_record | JTable u32 | JNft nftable_record

definition succeeded :: "host_err option \<times> 'h \<Rightarrow> bool \<times> 'h" where
  "succeeded x = (fst x = None, snd x)"

fun exec_job :: "'h host \<Rightarrow> job \<Rightarrow> 'h \<Rightarrow> bool \<times> 'h" where
  "exec_job H (JRoute r) h = succeeded (delete_route H r h)"
| "exec_job H (JRule r) h = succeeded (delete_rule H r h)"
| "exec_job H (JResolver r) h = succeeded (restore_resolver H r h)"
| "exec_job H (JSysctl s) h = (case restore_sysctls H [s] h of (es, _, _, _, h') \<Rightarrow> (es = [], h'))"
| "exec_job H (JTable t) h = succeeded (delete_route_table H t h)"
| "exec_job H (JNft t) h = succeeded (delete_nftable H t h)"

definition jobs :: "journal \<Rightarrow> job list" where
  "jobs j = map JRoute (routes j) @ map JRule (rules j)
     @ map JResolver (case resolver j of None \<Rightarrow> [] | Some r \<Rightarrow> [r])
     @ map JSysctl (sysctls j) @ map JTable (tables j) @ map JNft (nftables j)"

lemma delete_all_jobs:
  assumes "\<And>x h. exec_job H (mk x) h = succeeded (del x h)"
    and "delete_all del w xs h = (es, n, h')"
  shows "fst (run_jobs (exec_job H) (map mk xs) h) = (es = [])
    \<and> (es = [] \<longrightarrow> snd (run_jobs (exec_job H) (map mk xs) h) = h')"
  using assms(2)
  by (induction xs arbitrary: h es n) (auto simp: assms(1) succeeded_def split: prod.splits option.splits)

lemma resolver_jobs:
  assumes "restore_resolver_state H r h = (es, b, h')" and "xs = (case r of None \<Rightarrow> [] | Some x \<Rightarrow> [x])"
  shows "fst (run_jobs (exec_job H) (map JResolver xs) h) = (es = [])
    \<and> (es = [] \<longrightarrow> snd (run_jobs (exec_job H) (map JResolver xs) h) = h')"
  using assms by (auto simp: restore_resolver_state_def succeeded_def split: prod.splits option.splits)

lemma sysctl_jobs:
  assumes "restore_sysctls H ss h = (es, rs, cs, ls, h')"
  shows "fst (run_jobs (exec_job H) (map JSysctl ss) h) = (es = [])
    \<and> (es = [] \<longrightarrow> snd (run_jobs (exec_job H) (map JSysctl ss) h) = h')"
  using assms
proof (induction ss arbitrary: h es rs cs ls)
  case (Cons s ss)
  then show ?case
    by (fastforce split: prod.splits sum.splits option.splits if_splits)
qed simp


lemma recover_jobs:
  assumes "journal_validate j = None" "check_owner j r i = None"
  shows "fst (run_jobs (exec_job H) (jobs j) h) = (fst (recover H j r i h) = None)
    \<and> (fst (recover H j r i h) = None \<longrightarrow>
        snd (run_jobs (exec_job H) (jobs j) h) = snd (snd (snd (recover H j r i h))))"
proof -
  obtain e1 n1 h1 where 1: "delete_all (delete_route H) DeleteRouteErr (routes j) h = (e1, n1, h1)"
    using prod_cases3 by blast
  obtain e2 n2 h2 where 2: "delete_all (delete_rule H) DeleteRuleErr (rules j) h1 = (e2, n2, h2)"
    using prod_cases3 by blast
  obtain e3 rr h3 where 3: "restore_resolver_state H (resolver j) h2 = (e3, rr, h3)"
    using prod_cases3 by blast
  obtain e4 rs cs ls h4 where 4: "restore_sysctls H (sysctls j) h3 = (e4, rs, cs, ls, h4)"
    using prod_cases5 by blast
  obtain e5 n5 h5 where 5: "delete_all (delete_route_table H) DeleteTableErr (tables j) h4 = (e5, n5, h5)"
    using prod_cases3 by blast
  obtain e6 n6 h6 where 6: "delete_all (delete_nftable H) DeleteNftErr (nftables j) h5 = (e6, n6, h6)"
    using prod_cases3 by blast
  have "run_jobs (exec_job H) (jobs j) h =
      (if e1 = [] \<and> e2 = [] \<and> e3 = [] \<and> e4 = [] \<and> e5 = [] \<and> e6 = [] then (True, h6)
       else (False, snd (run_jobs (exec_job H) (jobs j) h)))"
    using delete_all_jobs [OF exec_job.simps(1) 1] delete_all_jobs [OF exec_job.simps(2) 2]
      resolver_jobs [OF 3 refl] sysctl_jobs [OF 4] delete_all_jobs [OF exec_job.simps(5) 5]
      delete_all_jobs [OF exec_job.simps(6) 6]
    by (auto simp: jobs_def run_jobs_append Let_def prod_eq_iff split: prod.split)
  then have run: "fst (run_jobs (exec_job H) (jobs j) h) =
        (e1 = [] \<and> e2 = [] \<and> e3 = [] \<and> e4 = [] \<and> e5 = [] \<and> e6 = [])"
    "e1 = [] \<and> e2 = [] \<and> e3 = [] \<and> e4 = [] \<and> e5 = [] \<and> e6 = [] \<longrightarrow>
       snd (run_jobs (exec_job H) (jobs j) h) = h6"
    by (auto split: if_splits dest: arg_cong [where f = fst] arg_cong [where f = snd])
  then show ?thesis unfolding recover_def using assms by (auto simp: 1 2 3 4 5 6 Let_def)
qed

fun settled_job :: "job \<Rightarrow> fake_host \<Rightarrow> bool" where
  "settled_job (JRoute r) h = (\<not> fail_delete_route h)"
| "settled_job (JRule r) h = True"
| "settled_job (JResolver r) h = (\<not> resolver_unsupported h \<and> \<not> fail_resolver_hard h)"
| "settled_job (JSysctl s) h = (\<exists>v. live_sysctl h (sysctl_name s) = Some v
     \<and> (v = sysctl_prior s \<or> v \<noteq> sysctl_installed s))"
| "settled_job (JTable t) h = (\<not> fail_delete_route_table h)"
| "settled_job (JNft t) h = (\<not> fail_delete_nftable h)"

fun jobs_apart :: "job \<Rightarrow> job \<Rightarrow> bool" where
  "jobs_apart (JSysctl s) (JSysctl s') = (sysctl_name s \<noteq> sysctl_name s')"
| "jobs_apart x y = True"

lemma fake_sel:
  "delete_route fake_ops r h = (if fail_delete_route h then (Some (HostErr ''boom''), h)
     else (None, h\<lparr>routes_deleted := routes_deleted h @ [r]\<rparr>))"
  "delete_rule fake_ops q h = (None, h\<lparr>rules_deleted := rules_deleted h @ [q]\<rparr>)"
  "delete_route_table fake_ops t h = (if fail_delete_route_table h then (Some (HostErr ''boom''), h)
     else (None, h\<lparr>tables_deleted := tables_deleted h @ [t]\<rparr>))"
  "delete_nftable fake_ops n h = (if fail_delete_nftable h then (Some (HostErr ''boom''), h)
     else (None, h\<lparr>nft_deleted := nft_deleted h @ [n]\<rparr>))"
  "restore_resolver fake_ops d h = (if resolver_unsupported h then (Some ErrResolverUnsupported, h)
     else if fail_resolver_hard h then (Some (HostErr ''resolver boom''), h)
     else (None, h\<lparr>resolver_count := resolver_count h + 1\<rparr>))"
  by (simp_all add: fake_ops_def)

lemma fake_sysctl_job:
  "exec_job fake_ops (JSysctl s) h =
     (case live_sysctl h (sysctl_name s) of
        None \<Rightarrow> (False, h)
      | Some v \<Rightarrow> (True, if v = sysctl_installed s \<and> v \<noteq> sysctl_prior s
          then h\<lparr>live_sysctl := (live_sysctl h)(sysctl_name s \<mapsto> sysctl_prior s),
                 sysctl_set := (sysctl_set h)(sysctl_name s \<mapsto> sysctl_prior s)\<rparr>
          else h))"
  by (auto simp: fake_ops_def split: option.split)

interpretation fake_jobs: settling_jobs "exec_job fake_ops" settled_job jobs_apart
  "\<lambda>h. (live_sysctl h, sysctl_set h)"
proof
  fix x :: job and s :: fake_host
  assume "fst (exec_job fake_ops x s)"
  then show "settled_job x (snd (exec_job fake_ops x s))"
    by (cases x) (auto simp: fake_sysctl_job succeeded_def fake_sel simp del: exec_job.simps(4)
        split: option.splits if_splits)
next
  fix x y :: job and s :: fake_host
  assume "settled_job x s" and "jobs_apart x y"
  then show "settled_job x (snd (exec_job fake_ops y s))"
    by (cases x; cases y) (auto simp: fake_sysctl_job succeeded_def fake_sel
        simp del: exec_job.simps(4) split: option.splits)
next
  fix x :: job and s :: fake_host
  assume st: "settled_job x s"
  then show "fst (exec_job fake_ops x s)"
    by (cases x) (auto simp: fake_sysctl_job succeeded_def fake_sel simp del: exec_job.simps(4))
  from st show "(live_sysctl (snd (exec_job fake_ops x s)), sysctl_set (snd (exec_job fake_ops x s)))
      = (live_sysctl s, sysctl_set s)"
    by (cases x) (auto simp: fake_sysctl_job succeeded_def fake_sel simp del: exec_job.simps(4))
qed

text \<open>
  C6. Recovery is idempotent on the host of the tests when no two sysctl records of the
  journal differ and share a key: after a recovery that succeeded, whatever the live values and
  conflicts were, a second recovery with the same journal succeeds too and changes no sysctl.
\<close>

theorem recover_idempotent:
  assumes "journal_ok j" and "owned_by j r i"
    and "\<forall>s \<in> set (sysctls j). \<forall>s' \<in> set (sysctls j). sysctl_name s = sysctl_name s' \<longrightarrow> s = s'"
    and "recover fake_ops j r i h = (None, rep, ls, h1)"
  shows "\<exists>rep' ls' h2. recover fake_ops j r i h1 = (None, rep', ls', h2)
    \<and> live_sysctl h2 = live_sysctl h1 \<and> sysctl_set h2 = sysctl_set h1"
proof -
  have ok: "journal_validate j = None" "check_owner j r i = None"
    using assms(1,2) by (simp_all add: journal_validate_None check_owner_None)
  have "jobs_apart x y \<or> x = y" if "x \<in> set (jobs j)" "y \<in> set (jobs j)" for x y
  proof -
    have "JSysctl s \<in> set (jobs j) \<Longrightarrow> s \<in> set (sysctls j)" for s
      by (auto simp: jobs_def split: option.splits)
    with that assms(3) show ?thesis by (induction x y rule: jobs_apart.induct) auto
  qed
  then have c: "fake_jobs.compatible (jobs j)" by (auto simp: fake_jobs.compatible_def)
  have "run_jobs (exec_job fake_ops) (jobs j) h = (True, h1)"
    using recover_jobs [OF ok, of fake_ops h] assms(4) by (simp add: prod_eq_iff)
  from fake_jobs.rerun [OF c this] recover_jobs [OF ok, of fake_ops h1] show ?thesis
    by (cases "recover fake_ops j r i h1") auto
qed

theorem recover_idempotent_witness:
  "\<exists>h1 rep' ls' h2. live_sysctl h1 ''net.ipv4.ip_forward'' = Some ''0''
     \<and> recover fake_ops sample_journal ''client'' [] h1 = (None, rep', ls', h2)
     \<and> live_sysctl h2 = live_sysctl h1"
proof -
  obtain rep ls h1 where r: "recover fake_ops sample_journal ''client'' [] sample_host = (None, rep, ls, h1)"
    and l: "live_sysctl h1 ''net.ipv4.ip_forward'' = Some ''0''"
  proof -
    have "(case recover fake_ops sample_journal ''client'' [] sample_host of (e, rep, ls, h1) \<Rightarrow>
        e = None \<and> live_sysctl h1 ''net.ipv4.ip_forward'' = Some ''0'')" by code_simp
    then show ?thesis using that by (auto split: prod.splits)
  qed
  have "owned_by sample_journal ''client'' []" by (simp add: owned_by_def sample_journal_def)
  from recover_idempotent [OF sample_journal_ok this _ r] l show ?thesis
    by (fastforce simp: sample_journal_def)
qed


text \<open>
  Routes and rules are removed before the resolver is restored, on every host and whatever
  the resolver step then answers; and when that step fails, no route table and no nftables table
  is touched afterwards and recovery reports the kill switch as retained.
\<close>

theorem resolver_restored_after_routes:
  assumes "journal_ok j" and "owned_by j r i" and "resolver j = Some q"
  shows "\<exists>a b y c. host_calls H j r i h = a @ b @ (RestoreResolver q, y) # c
    \<and> map fst a = map DeleteRoute (routes j) \<and> map fst b = map DeleteRule (rules j)
    \<and> (ok_reply y \<or> (\<forall>e \<in> set c. phase (fst e) = 3) \<and>
         kill_switch_retained (fst (snd (recover H j r i h))) = (nftables j \<noteq> []))"
proof -
  have "journal_validate j = None" "check_owner j r i = None"
    using assms by (simp_all add: journal_validate_None check_owner_None)
  then obtain x where x: "shape_of j x" "host_calls H j r i h = before_nft x @ ev_nft x"
    "report_of j x (fst (snd (recover H j r i h)))"
    by (rule recover_shape)
  note ph = shape_phases [OF x(1)]
  from x(1) assms(3) have "map fst (ev_resolver x) = [RestoreResolver q]" by (simp add: shape_of_def)
  then obtain y where y: "ev_resolver x = [(RestoreResolver q, y)]" by auto
  have none: "ev_tables x = [] \<and> ev_nft x = []" if "\<not> ok_reply y"
    using x(1) y that by (simp add: shape_of_def before_nft_def before_tables_def)
  show ?thesis
  proof (intro exI conjI)
    show "host_calls H j r i h = ev_routes x @ ev_rules x @ (RestoreResolver q, y)
        # (ev_sysctls x @ ev_tables x @ ev_nft x)"
      using x(2) y by (simp add: before_nft_def before_tables_def)
    show "map fst (ev_routes x) = map DeleteRoute (routes j)"
      "map fst (ev_rules x) = map DeleteRule (rules j)" using x(1) by (simp_all add: shape_of_def)
    show "ok_reply y \<or> (\<forall>e \<in> set (ev_sysctls x @ ev_tables x @ ev_nft x). phase (fst e) = 3) \<and>
        kill_switch_retained (fst (snd (recover H j r i h))) = (nftables j \<noteq> [])"
      using none ph(4) x(3) by (cases "ok_reply y") (simp_all add: report_of_def)
  qed
qed

text \<open>The journal of the unit tests with a resolver record, on a host that cannot restore it.\<close>

definition resolver_journal :: journal where
  "resolver_journal = sample_journal\<lparr>resolver :=
     Some \<lparr>resolver_manager = ''resolv-conf'', resolver_link = [], resolver_prior = ''nameserver''\<rparr>\<rparr>"

theorem resolver_restored_after_routes_witness:
  "fst (hd (host_calls fake_ops resolver_journal ''client'' []
       (sample_host\<lparr>resolver_unsupported := True\<rparr>))) = DeleteRoute (hd (routes sample_journal))"
proof -
  let ?h = "sample_host\<lparr>resolver_unsupported := True\<rparr>"
  have own: "owned_by resolver_journal ''client'' []"
    by (simp add: owned_by_def resolver_journal_def sample_journal_def)
  have ok: "journal_ok resolver_journal"
    using sample_journal_ok by (simp add: journal_ok_def resolver_journal_def)
  obtain q where q: "resolver resolver_journal = Some q" by (simp add: resolver_journal_def)
  from resolver_restored_after_routes [OF ok own q, where H = fake_ops and h = ?h]
  obtain a b y c where c: "host_calls fake_ops resolver_journal ''client'' [] ?h = a @ b @ y # c"
    and a: "map fst a = map DeleteRoute (routes resolver_journal)" by blast
  from a obtain z as where "a = z # as" "fst z = DeleteRoute (hd (routes sample_journal))"
    by (auto simp: resolver_journal_def sample_journal_def)
  with c show ?thesis by simp
qed

text \<open>
  Two records of one key, in the order in which the program would have made the changes
  \<open>2 \<rightarrow> 0 \<rightarrow> 1\<close>; Validate accepts the journal.
\<close>

definition twice_set_journal :: journal where
  "twice_set_journal = sample_journal\<lparr>sysctls := [
     \<lparr>sysctl_name = ''net.ipv4.ip_forward'', sysctl_prior = ''2'', sysctl_installed = ''0''\<rparr>,
     \<lparr>sysctl_name = ''net.ipv4.ip_forward'', sysctl_prior = ''0'', sysctl_installed = ''1''\<rparr>]\<rparr>"

text \<open>
  With two records of one key recovery is not idempotent: the first run succeeds, reports
  a conflict that no operator caused and leaves the key at the intermediate value, and a second
  run with the same journal changes it again.
\<close>

theorem recover_not_idempotent_on_repeated_key:
  "journal_validate twice_set_journal = None \<and>
   (case recover fake_ops twice_set_journal ''client'' [] sample_host of
      (e1, rep1, _, h1) \<Rightarrow> e1 = None \<and> sysctl_conflicts rep1 = [''net.ipv4.ip_forward'']
        \<and> live_sysctl h1 ''net.ipv4.ip_forward'' = Some ''0''
        \<and> (case recover fake_ops twice_set_journal ''client'' [] h1 of
            (e2, rep2, _, h2) \<Rightarrow> e2 = None \<and> sysctls_restored rep2 = [''net.ipv4.ip_forward'']
              \<and> live_sysctl h2 ''net.ipv4.ip_forward'' = Some ''2''))"
  by code_simp

end
