(* ===== verification/JournalStore.thy ===== *)
theory JournalStore
  imports JournalSchema
begin

text \<open>
  Storage of the journal, \<open>internal/journal/store.go\<close>, over a model of the one directory it
  lives in: names to inodes as the running system sees them, the versions of the directory that the
  disk may hold, and inodes with kind, mode, owner, link count, data and whether they have reached
  the disk. Every change of the directory may reach the disk by itself at any later time, in order
  with the changes before it; only a directory sync makes sure of it. Every system call may fail; \<open>write_to\<close> also returns the state after
  each call, so that a crash between two calls can be reasoned about. The JSON encoder and decoder are
  arguments.
\<close>

section \<open>Files\<close>

datatype file_kind = Regular | Directory | Symlink | OtherKind

record inode =
  ikind :: file_kind
  imode :: nat
  iuid :: u32
  inlink :: nat
  idata :: "byte list"
  isynced :: bool

record fs =
  entries :: "string \<rightharpoonup> nat"
  disk :: "(string \<rightharpoonup> nat) list"
  inodes :: "nat \<rightharpoonup> inode"

definition mode_0600 :: nat where "mode_0600 = 384"
definition mode_0700 :: nat where "mode_0700 = 448"

text \<open>\<open>mode & 0o077 \<noteq> 0\<close>: some permission for the group or for others.\<close>

definition group_or_other :: "nat \<Rightarrow> bool" where
  "group_or_other m \<longleftrightarrow> m mod 64 \<noteq> 0"

definition acceptable_owner :: "u32 \<Rightarrow> u32 \<Rightarrow> bool" where
  "acceptable_owner euid uid \<longleftrightarrow> uid = euid \<or> uid = 0"

definition update_inode :: "nat \<Rightarrow> (inode \<Rightarrow> inode) \<Rightarrow> fs \<Rightarrow> fs" where
  "update_inode n f s = s\<lparr>inodes := (inodes s)(n := map_option f (inodes s n))\<rparr>"

definition drop_link :: "nat option \<Rightarrow> fs \<Rightarrow> fs" where
  "drop_link v s = (case v of None \<Rightarrow> s | Some n \<Rightarrow> update_inode n (\<lambda>i. i\<lparr>inlink := inlink i - 1\<rparr>) s)"

text \<open>A new version of the directory, which may reach the disk.\<close>

definition set_entries :: "(string \<rightharpoonup> nat) \<Rightarrow> fs \<Rightarrow> fs" where
  "set_entries e s = s\<lparr>entries := e, disk := disk s @ [e]\<rparr>"

lemma set_entries_simps [simp]:
  "entries (set_entries e s) = e" "disk (set_entries e s) = disk s @ [e]" "inodes (set_entries e s) = inodes s"
  by (simp_all add: set_entries_def)

lemma drop_link_names [simp]:
  "entries (drop_link v s) = entries s" "disk (drop_link v s) = disk s"
  by (simp_all add: drop_link_def update_inode_def split: option.split)

section \<open>EnsureDir\<close>

text \<open>
  The final component of the state directory. A symbolic link is known by whether it leads to
  a directory; \<open>MkdirAll\<close> follows it, \<open>Lstat\<close> does not.
\<close>

datatype dir_node = Missing | Dir nat u32 | LinkNode bool | FileNode

datatype dir_err = MkdirErr | IsSymlink | NotDirectory | WrongOwner u32 | ChmodErr nat

definition mkdir_all :: "u32 \<Rightarrow> nat option \<Rightarrow> dir_node \<Rightarrow> dir_err option \<times> dir_node" where
  "mkdir_all euid created d =
     (case d of
        Missing \<Rightarrow> (case created of None \<Rightarrow> (Some MkdirErr, d) | Some m \<Rightarrow> (None, Dir m euid))
      | Dir m u \<Rightarrow> (None, d)
      | LinkNode to_dir \<Rightarrow> (if to_dir then None else Some MkdirErr, d)
      | FileNode \<Rightarrow> (Some MkdirErr, d))"

definition ensure_dir ::
  "u32 \<Rightarrow> nat option \<Rightarrow> bool \<Rightarrow> dir_node \<Rightarrow> dir_err option \<times> dir_node" where
  "ensure_dir euid created chmod_fails d =
     (case mkdir_all euid created d of
        (Some e, d') \<Rightarrow> (Some e, d')
      | (None, d') \<Rightarrow>
          (case d' of
             LinkNode _ \<Rightarrow> (Some IsSymlink, d')
           | Dir m u \<Rightarrow>
               if \<not> acceptable_owner euid u then (Some (WrongOwner u), d')
               else if group_or_other m then
                 (if chmod_fails then (Some (ChmodErr m), d') else (None, Dir mode_0700 u))
               else (None, d')
           | _ \<Rightarrow> (Some NotDirectory, d')))"

section \<open>WriteTo\<close>

datatype write_err =
    InvalidJournal journal_err
  | MarshalErr | CreateErr | TmpChmodErr | WriteErr | SyncErr | CloseErr | RenameErr
  | DirOpenErr | DirSyncErr nat

text \<open>
  Which system calls of a run fail: a failing write has stored some bytes, a failing
  directory sync has an error number.
\<close>

record faults =
  f_create :: bool
  f_chmod :: bool
  f_write :: "nat option"
  f_sync :: bool
  f_close :: bool
  f_rename :: bool
  f_remove :: bool
  f_dir_open :: bool
  f_dir_sync :: "nat option"

definition einval :: nat where "einval = 22"

definition create_temp :: "u32 \<Rightarrow> string \<Rightarrow> nat \<Rightarrow> fs \<Rightarrow> fs option" where
  "create_temp euid tmp ino s =
     (if entries s tmp \<noteq> None \<or> inodes s ino \<noteq> None then None
      else Some ((set_entries ((entries s)(tmp \<mapsto> ino)) s)
       \<lparr>inodes := (inodes s)(ino \<mapsto> \<lparr>ikind = Regular, imode = mode_0600, iuid = euid, inlink = 1,
          idata = [], isynced = False\<rparr>)\<rparr>))"

definition os_chmod :: "nat \<Rightarrow> nat \<Rightarrow> fs \<Rightarrow> fs" where
  "os_chmod n m = update_inode n (\<lambda>i. i\<lparr>imode := m, isynced := False\<rparr>)"

definition os_write :: "nat \<Rightarrow> byte list \<Rightarrow> fs \<Rightarrow> fs" where
  "os_write n b = update_inode n (\<lambda>i. i\<lparr>idata := idata i @ b, isynced := False\<rparr>)"

definition os_fsync :: "nat \<Rightarrow> fs \<Rightarrow> fs" where
  "os_fsync n = update_inode n (\<lambda>i. i\<lparr>isynced := True\<rparr>)"

definition os_remove :: "faults \<Rightarrow> string \<Rightarrow> fs \<Rightarrow> fs" where
  "os_remove flt p s =
     (if f_remove flt then s
      else drop_link (entries s p) (set_entries ((entries s)(p := None)) s))"

definition is_directory :: "fs \<Rightarrow> string \<Rightarrow> bool" where
  "is_directory s p = (case entries s p of None \<Rightarrow> False
     | Some n \<Rightarrow> (case inodes s n of None \<Rightarrow> False | Some i \<Rightarrow> ikind i = Directory))"

definition os_rename :: "faults \<Rightarrow> string \<Rightarrow> string \<Rightarrow> fs \<Rightarrow> fs option" where
  "os_rename flt p q s =
     (if f_rename flt \<or> is_directory s q then None
      else Some (drop_link (entries s q) (set_entries ((entries s)(p := None, q := entries s p)) s)))"

definition fsync_dir :: "faults \<Rightarrow> fs \<Rightarrow> write_err option \<times> fs" where
  "fsync_dir flt s =
     (if f_dir_open flt then (Some DirOpenErr, s)
      else (case f_dir_sync flt of
              None \<Rightarrow> (None, s\<lparr>disk := [entries s]\<rparr>)
            | Some e \<Rightarrow> (if e \<noteq> einval then Some (DirSyncErr e) else None, s)))"

definition with_schema :: "journal \<Rightarrow> journal" where
  "with_schema j = (if schema j = 0 then j\<lparr>schema := schema_version\<rparr> else j)"

text \<open>The result is the error and the states after each system call that had an effect.\<close>

definition write_to ::
  "(journal \<Rightarrow> byte list option) \<Rightarrow> u32 \<Rightarrow> string \<Rightarrow> nat \<Rightarrow> faults \<Rightarrow> string \<Rightarrow> journal \<Rightarrow> fs
    \<Rightarrow> write_err option \<times> fs list" where
  "write_to enc euid tmp ino flt path j s =
     (case journal_validate (with_schema j) of
        Some e \<Rightarrow> (Some (InvalidJournal e), [])
      | None \<Rightarrow>
     (case enc (with_schema j) of
        None \<Rightarrow> (Some MarshalErr, [])
      | Some body \<Rightarrow>
     (let data = body @ [10] in
     (if f_create flt then (Some CreateErr, []) else
     (case create_temp euid tmp ino s of
        None \<Rightarrow> (Some CreateErr, [])
      | Some s1 \<Rightarrow>
          if f_chmod flt then (Some TmpChmodErr, [s1, os_remove flt tmp s1]) else
     (let s2 = os_chmod ino mode_0600 s1 in
     (case f_write flt of
        Some n \<Rightarrow>
          (let s3 = os_write ino (take n data) s2
           in (Some WriteErr, [s1, s2, s3, os_remove flt tmp s3]))
      | None \<Rightarrow>
     (let s3 = os_write ino data s2 in
          if f_sync flt then (Some SyncErr, [s1, s2, s3, os_remove flt tmp s3]) else
     (let s4 = os_fsync ino s3 in
          if f_close flt then (Some CloseErr, [s1, s2, s3, s4, os_remove flt tmp s4]) else
     (case os_rename flt tmp path s4 of
        None \<Rightarrow> (Some RenameErr, [s1, s2, s3, s4, os_remove flt tmp s4])
      | Some s5 \<Rightarrow>
          (let (e, s6) = fsync_dir flt s5 in (e, [s1, s2, s3, s4, s5, s6]))))))))))))"

section \<open>Load\<close>

datatype load_err =
    OpenErr | StatErr | ReadErr | NotRegular | ModeTooOpen nat | HardLinks nat | LoadOwner u32
  | Malformed string | TrailingData | LoadInvalid journal_err

definition json_space :: "byte \<Rightarrow> bool" where
  "json_space b \<longleftrightarrow> b \<in> {9, 10, 13, 32}"

definition journal_load ::
  "(byte list \<Rightarrow> string + journal \<times> byte list) \<Rightarrow> u32 \<Rightarrow> bool \<Rightarrow> bool \<Rightarrow> string \<Rightarrow> fs
    \<Rightarrow> load_err + journal" where
  "journal_load dec euid stat_fails read_fails path s =
     (case entries s path of None \<Rightarrow> Inl OpenErr
      | Some n \<Rightarrow>
     (case inodes s n of None \<Rightarrow> Inl OpenErr
      | Some i \<Rightarrow>
        if ikind i = Symlink then Inl OpenErr
        else if stat_fails then Inl StatErr
        else if ikind i \<noteq> Regular then Inl NotRegular
        else if group_or_other (imode i) then Inl (ModeTooOpen (imode i))
        else if inlink i \<noteq> 1 then Inl (HardLinks (inlink i))
        else if \<not> acceptable_owner euid (iuid i) then Inl (LoadOwner (iuid i))
        else if read_fails then Inl ReadErr
        else (case dec (idata i) of
                Inl m \<Rightarrow> Inl (Malformed m)
              | Inr (j, rest) \<Rightarrow>
                  if \<not> list_all json_space rest then Inl TrailingData
                  else (case journal_validate j of Some e \<Rightarrow> Inl (LoadInvalid e) | None \<Rightarrow> Inr j))))"

section \<open>The directory\<close>

definition private_dir :: "u32 \<Rightarrow> dir_node \<Rightarrow> bool" where
  "private_dir euid d \<longleftrightarrow> (\<exists>m u. d = Dir m u \<and> \<not> group_or_other m \<and> acceptable_owner euid u)"

text \<open>
  EnsureDir that succeeds leaves a real directory, owned by the caller or root, with no
  permission for anyone else; one that fails never changes an existing node, so a symbolic
  link, a file or another user's directory is refused and not repaired.
\<close>

theorem ensure_dir_private:
  assumes "ensure_dir euid created chmod_fails d = (e, d')"
  shows "(e = None \<and> private_dir euid d') \<or> (e \<noteq> None \<and> (d' = d \<or> d = Missing))"
  using assms
  by (auto simp: ensure_dir_def mkdir_all_def private_dir_def group_or_other_def mode_0700_def
      split: dir_node.splits option.splits prod.splits if_splits)

theorem ensure_dir_private_witness:
  "private_dir 1000 (Dir 448 1000) \<and> ensure_dir 1000 None False (Dir 493 1000) = (None, Dir 448 1000)"
proof -
  have r: "ensure_dir 1000 None False (Dir 493 1000) = (None, Dir 448 1000)"
    by (simp add: ensure_dir_def mkdir_all_def acceptable_owner_def group_or_other_def mode_0700_def)
  from ensure_dir_private [OF r] r show ?thesis by simp
qed

section \<open>Writing\<close>

text \<open>
  Only the temporary name and the new inode differ from the state before; a version of the directory
  that was added since differs in the temporary name at most.
\<close>

definition only_temp :: "fs \<Rightarrow> nat \<Rightarrow> string \<Rightarrow> (string \<rightharpoonup> nat) \<Rightarrow> bool" where
  "only_temp s0 ino tmp d \<longleftrightarrow> entries s0 tmp = None \<and> d tmp \<in> {None, Some ino} \<and> (\<forall>q. q \<noteq> tmp \<longrightarrow> d q = entries s0 q)"

definition untouched :: "fs \<Rightarrow> nat \<Rightarrow> string \<Rightarrow> fs \<Rightarrow> bool" where
  "untouched s0 ino tmp s \<longleftrightarrow> only_temp s0 ino tmp (entries s)
     \<and> (\<forall>d \<in> set (disk s). d \<in> set (disk s0) \<or> only_temp s0 ino tmp d)
     \<and> (\<forall>n. n \<noteq> ino \<longrightarrow> inodes s n = inodes s0 n)"

definition complete_inode :: "u32 \<Rightarrow> byte list \<Rightarrow> inode" where
  "complete_inode euid data = \<lparr>ikind = Regular, imode = mode_0600, iuid = euid, inlink = 1,
     idata = data, isynced = True\<rparr>"

lemma update_untouched: "untouched s0 ino tmp s \<Longrightarrow> untouched s0 ino tmp (update_inode ino f s)"
  by (simp add: untouched_def update_inode_def)

lemma remove_untouched: "untouched s0 ino tmp s \<Longrightarrow> untouched s0 ino tmp (os_remove flt tmp s)"
  by (auto simp: untouched_def only_temp_def os_remove_def drop_link_def update_inode_def split: option.splits)

lemma create_untouched:
  "create_temp euid tmp ino s0 = Some s1 \<Longrightarrow> untouched s0 ino tmp s1"
  by (auto simp: create_temp_def untouched_def only_temp_def split: if_splits)

definition temp_states :: "u32 \<Rightarrow> string \<Rightarrow> nat \<Rightarrow> byte list \<Rightarrow> byte list \<Rightarrow> faults \<Rightarrow> fs \<Rightarrow> fs list" where
  "temp_states euid tmp ino data part flt s =
     (case create_temp euid tmp ino s of None \<Rightarrow> [] | Some s1 \<Rightarrow>
        (let s2 = os_chmod ino mode_0600 s1; s3 = os_write ino data s2; s4 = os_fsync ino s3;
             w3 = os_write ino part s2
         in [s1, s2, s3, s4, w3, os_remove flt tmp s1, os_remove flt tmp w3,
             os_remove flt tmp s3, os_remove flt tmp s4]))"

lemma temp_untouched:
  assumes "t \<in> set (temp_states euid tmp ino data part flt s)"
  shows "untouched s ino tmp t"
proof (cases "create_temp euid tmp ino s")
  case (Some s1)
  from create_untouched [OF this] assms show ?thesis
    by (auto simp: temp_states_def Let_def Some os_chmod_def os_write_def os_fsync_def
        intro!: update_untouched remove_untouched)
qed (use assms in \<open>simp add: temp_states_def\<close>)

lemma before_rename:
  assumes "create_temp euid tmp ino s = Some s1"
  shows "inodes (os_fsync ino (os_write ino data (os_chmod ino mode_0600 s1))) ino
      = Some (complete_inode euid data)"
    and "entries (os_fsync ino (os_write ino data (os_chmod ino mode_0600 s1))) tmp = Some ino"
  using assms by (auto simp: create_temp_def os_fsync_def os_write_def os_chmod_def update_inode_def
      complete_inode_def split: if_splits)

text \<open>The state after the rename.\<close>

definition renamed :: "fs \<Rightarrow> u32 \<Rightarrow> nat \<Rightarrow> string \<Rightarrow> string \<Rightarrow> byte list \<Rightarrow> fs \<Rightarrow> bool" where
  "renamed s0 euid ino tmp p data s \<longleftrightarrow>
     entries s = (entries s0)(tmp := None, p \<mapsto> ino)
   \<and> inodes s ino = Some (complete_inode euid data)
   \<and> (\<forall>n. n \<noteq> ino \<longrightarrow> map_option (inlink_update (\<lambda>_. 0)) (inodes s n)
        = map_option (inlink_update (\<lambda>_. 0)) (inodes s0 n))
   \<and> (\<forall>d \<in> set (disk s). d \<in> set (disk s0) \<or> only_temp s0 ino tmp d \<or> d = entries s)"

lemma rename_renamed:
  assumes "create_temp euid tmp ino s = Some s1" and "p \<noteq> tmp"
    and "os_rename flt tmp p (os_fsync ino (os_write ino data (os_chmod ino mode_0600 s1))) = Some s5"
    and "entries s p \<noteq> Some ino"
  shows "renamed s euid ino tmp p data s5"
proof -
  let ?s4 = "os_fsync ino (os_write ino data (os_chmod ino mode_0600 s1))"
  have u: "untouched s ino tmp ?s4"
    using create_untouched [OF assms(1)]
    by (auto simp: os_chmod_def os_write_def os_fsync_def intro!: update_untouched)
  have p: "entries ?s4 p = entries s p" using u assms(2) by (simp add: untouched_def only_temp_def)
  have e: "entries ?s4 = (entries s)(tmp \<mapsto> ino)"
    using u before_rename(2) [OF assms(1), of data] by (fastforce simp: untouched_def only_temp_def)
  have s5: "s5 = drop_link (entries s p) (set_entries ((entries ?s4)(tmp := None, p \<mapsto> ino)) ?s4)"
    using assms(3) p before_rename(2) [OF assms(1), of data] by (auto simp: os_rename_def split: if_splits)
  show ?thesis
    using u before_rename(1) [OF assms(1), of data] assms(4)
    unfolding s5 renamed_def
    by (auto simp: e drop_link_def update_inode_def untouched_def map_option.compositionality
        comp_def split: option.splits)
qed

lemma fsync_dir_cases:
  "fsync_dir flt s = (e, s') \<Longrightarrow>
     inodes s' = inodes s \<and> entries s' = entries s \<and> disk s' \<in> {disk s, [entries s]}
     \<and> (e = None \<and> (disk s' = [entries s] \<or> f_dir_sync flt = Some einval)
        \<or> e = Some DirOpenErr \<or> (\<exists>n. e = Some (DirSyncErr n)))"
  by (auto simp: fsync_dir_def split: if_splits option.splits)

definition dir_error :: "write_err option \<Rightarrow> bool" where
  "dir_error e \<longleftrightarrow> e = Some DirOpenErr \<or> (\<exists>n. e = Some (DirSyncErr n))"

text \<open>Either nothing happened, or a call on the temporary file failed, or the rename happened.\<close>

lemma write_to_cases:
  assumes "write_to enc euid tmp ino flt p j s = (e, ss)" and "p \<noteq> tmp" and "entries s p \<noteq> Some ino"
  obtains (nothing) "ss = []" "e \<noteq> None" "\<not> dir_error e"
  | (failed) body part where "enc (with_schema j) = Some body" "ss \<noteq> []" "e \<noteq> None" "\<not> dir_error e"
      "set ss \<subseteq> set (temp_states euid tmp ino (body @ [10]) part flt s)"
      "\<exists>t. last ss = os_remove flt tmp t"
  | (stored) body ts s5 s6 where "journal_validate (with_schema j) = None"
      "enc (with_schema j) = Some body" "ss = ts @ [s5, s6]"
      "set ts \<subseteq> set (temp_states euid tmp ino (body @ [10]) [] flt s)"
      "renamed s euid ino tmp p (body @ [10]) s5" "fsync_dir flt s5 = (e, s6)"
proof (cases "journal_validate (with_schema j) \<noteq> None \<or> enc (with_schema j) = None \<or> f_create flt
    \<or> create_temp euid tmp ino s = None")
  case True
  show ?thesis
    by (rule nothing) (use True assms(1) in
      \<open>auto simp: write_to_def dir_error_def Let_def split: if_splits option.splits\<close>)
next
  case False
  then obtain body s1 where valid: "journal_validate (with_schema j) = None" and enc: "enc (with_schema j) = Some body"
    and c: "\<not> f_create flt" "create_temp euid tmp ino s = Some s1" by auto
  define part where "part = (case f_write flt of None \<Rightarrow> [] | Some n \<Rightarrow> take n (body @ [10]))"
  let ?s4 = "os_fsync ino (os_write ino (body @ [10]) (os_chmod ino mode_0600 s1))"
  show ?thesis
  proof (cases "\<not> f_chmod flt \<and> f_write flt = None \<and> \<not> f_sync flt \<and> \<not> f_close flt \<and> os_rename flt tmp p ?s4 \<noteq> None")
    case True
    then obtain s5 where s5: "os_rename flt tmp p ?s4 = Some s5" by auto
    obtain s6 where s6: "fsync_dir flt s5 = (e, s6)" and
      ss: "ss = [s1, os_chmod ino mode_0600 s1, os_write ino (body @ [10]) (os_chmod ino mode_0600 s1), ?s4, s5, s6]"
      using assms(1) True s5 c valid enc by (auto simp: write_to_def Let_def split: prod.splits)
    from ss have ss': "ss = [s1, os_chmod ino mode_0600 s1,
        os_write ino (body @ [10]) (os_chmod ino mode_0600 s1), ?s4] @ [s5, s6]" by simp
    show ?thesis
      by (rule stored [OF valid enc ss' _ _ s6])
        (use c rename_renamed [OF c(2) assms(2) s5 assms(3)] in \<open>simp_all add: temp_states_def Let_def\<close>)
  next
    case False
    show ?thesis
      by (rule failed [OF enc, where part = part])
        (use False assms(1) c valid enc in
          \<open>auto simp: write_to_def temp_states_def Let_def part_def dir_error_def
             split: if_splits option.splits prod.splits\<close>)
  qed
qed

lemma same_but_links: "(a :: inode)\<lparr>inlink := 0\<rparr> = b\<lparr>inlink := 0\<rparr> \<longleftrightarrow>
    ikind a = ikind b \<and> imode a = imode b \<and> iuid a = iuid b \<and> idata a = idata b \<and> isynced a = isynced b"
  by (cases a; cases b) simp

text \<open>The data a directory entry leads to, and whether it is on disk.\<close>

definition stored_data :: "fs \<Rightarrow> nat option \<Rightarrow> (byte list \<times> bool) option" where
  "stored_data s v = (case v of None \<Rightarrow> None | Some n \<Rightarrow>
     map_option (\<lambda>i. (idata i, isynced i)) (inodes s n))"


lemma untouched_stored:
  "untouched s0 ino tmp s \<Longrightarrow> v \<noteq> Some ino \<Longrightarrow> stored_data s v = stored_data s0 v"
  by (auto simp: untouched_def stored_data_def split: option.splits)

lemma renamed_stored:
  assumes "renamed s0 euid ino tmp p data s"
  shows "v \<noteq> Some ino \<Longrightarrow> stored_data s v = stored_data s0 v"
    and "stored_data s (Some ino) = Some (data, True)"
proof -
  have fs: "map_option (\<lambda>i. (idata i, isynced i)) x = map_option (\<lambda>i. (idata i, isynced i)) y"
    if "map_option (inlink_update (\<lambda>_. 0)) x = map_option (inlink_update (\<lambda>_. 0)) y" for x y :: "inode option"
    using that by (cases x; cases y) (auto simp: same_but_links)
  show "stored_data s v = stored_data s0 v" if "v \<noteq> Some ino"
  proof (cases v)
    case (Some n)
    with that have "map_option (inlink_update (\<lambda>_. 0)) (inodes s n) = map_option (inlink_update (\<lambda>_. 0)) (inodes s0 n)"
      using assms by (simp add: renamed_def)
    from fs [OF this] Some show ?thesis by (simp add: stored_data_def)
  qed (simp add: stored_data_def)
  show "stored_data s (Some ino) = Some (data, True)"
    using assms by (simp add: renamed_def stored_data_def complete_inode_def)
qed

text \<open>What a path leads to, for the running system and in every version of the directory on disk.\<close>

definition seen :: "string \<Rightarrow> fs \<Rightarrow> nat option set" where
  "seen p s = (\<lambda>d. d p) ` set (entries s # disk s)"

lemma untouched_seen: "untouched s0 ino tmp s \<Longrightarrow> p \<noteq> tmp \<Longrightarrow> seen p s \<subseteq> seen p s0"
  by (auto simp: untouched_def only_temp_def seen_def)

lemma renamed_seen: "renamed s0 euid ino tmp p data s \<Longrightarrow> p \<noteq> tmp \<Longrightarrow> seen p s \<subseteq> insert (Some ino) (seen p s0)"
  by (auto simp: renamed_def only_temp_def seen_def)

text \<open>
  C4. Writing the journal is atomic across a crash at any point and whatever fails: after
  every system call, what the path leads to, in memory and in any version of the directory that the
  disk may hold, is what it led to before or the complete new document, already flushed to disk; a
  partly written file is never visible.
\<close>

theorem write_to_crash_safe:
  assumes "write_to enc euid tmp ino flt p j s = (e, ss)" and "p \<noteq> tmp"
    and "Some ino \<notin> seen p s" and "t \<in> set ss" and "v \<in> seen p t"
  shows "stored_data t v \<in> stored_data s ` seen p s
    \<or> (\<exists>body. enc (with_schema j) = Some body \<and> stored_data t v = Some (body @ [10], True))"
proof -
  have "entries s p \<noteq> Some ino" using assms(3) by (force simp: seen_def)
  have temp: ?thesis if "untouched s ino tmp t"
  proof -
    from untouched_seen [OF that assms(2)] assms(5) have "v \<in> seen p s" by blast
    with untouched_stored [OF that, of v] assms(3) show ?thesis by auto
  qed
  from assms(1,2) \<open>entries s p \<noteq> Some ino\<close> show ?thesis
  proof (cases rule: write_to_cases)
    case nothing
    with assms(4) show ?thesis by simp
  next
    case (failed body part)
    with assms(4) temp_untouched temp show ?thesis by blast
  next
    case (stored body ts s5 s6)
    note r = stored(5) and f = fsync_dir_cases [OF stored(6)]
    have six: "seen p s6 \<subseteq> seen p s5" "stored_data s6 w = stored_data s5 w" for w
      using f by (auto simp: seen_def stored_data_def split: option.split)
    have new: ?thesis if "v \<in> seen p s5" "stored_data t v = stored_data s5 v"
    proof (cases "v = Some ino")
      case True
      then show ?thesis using that(2) renamed_stored(2) [OF r] stored(2) by auto
    next
      case False
      then have "v \<in> seen p s" using that(1) renamed_seen [OF r assms(2)] by blast
      with False that(2) renamed_stored(1) [OF r, of v] show ?thesis by auto
    qed
    consider "t \<in> set ts" | "t = s5" | "t = s6" using assms(4) stored(3) by auto
    then show ?thesis
    proof cases
      case 1
      with stored(4) temp_untouched temp show ?thesis by blast
    qed (use new six assms(5) in auto)
  qed
qed

lemma removed_gone: "f_remove flt \<or> entries (os_remove flt tmp t) tmp = None"
  by (simp add: os_remove_def)

text \<open>
  What a finished WriteTo means: success leaves exactly the new file under the path, 0600,
  complete and flushed, with every other name as it was and no temporary file; a failure other
  than that of the directory sync leaves every other name as it was and, when the removal of
  the temporary file works, nothing of it.
\<close>

theorem write_to_outcome:
  assumes "write_to enc euid tmp ino flt p j s = (e, ss)" and "p \<noteq> tmp"
    and "entries s tmp = None" and "entries s p \<noteq> Some ino"
  shows "(\<exists>body. e = None \<and> ss \<noteq> [] \<and> journal_validate (with_schema j) = None
      \<and> enc (with_schema j) = Some body
      \<and> entries (last ss) = (entries s)(p \<mapsto> ino)
      \<and> inodes (last ss) ino = Some (complete_inode euid (body @ [10])))
    \<or> dir_error e
    \<or> (e \<noteq> None \<and> (ss = [] \<or> (\<forall>q. q \<noteq> tmp \<longrightarrow> entries (last ss) q = entries s q)
          \<and> (f_remove flt \<or> entries (last ss) tmp = None)))"
  using assms(1,2,4)
proof (cases rule: write_to_cases)
  case nothing
  then show ?thesis by simp
next
  case (failed body part)
  then have u: "untouched s ino tmp (last ss)" using temp_untouched last_in_set by blast
  have "f_remove flt \<or> entries (last ss) tmp = None" using failed(6) removed_gone by metis
  with failed u show ?thesis by (auto simp: untouched_def only_temp_def)
next
  case (stored body ts s5 s6)
  have "(entries s)(tmp := None) = entries s" using assms(3) by (simp add: fun_upd_idem)
  then have "entries s5 = (entries s)(p \<mapsto> ino)" using stored(5) by (simp add: renamed_def)
  with fsync_dir_cases [OF stored(6)] stored(1,2,3,5) show ?thesis
    by (auto simp: renamed_def dir_error_def)
qed

section \<open>Loading\<close>

lemma journal_load_Inr:
  "journal_load dec euid stat_fails read_fails p s = Inr j \<longleftrightarrow>
     (\<exists>n i rest. entries s p = Some n \<and> inodes s n = Some i \<and> ikind i = Regular
        \<and> \<not> group_or_other (imode i) \<and> inlink i = 1 \<and> acceptable_owner euid (iuid i)
        \<and> \<not> stat_fails \<and> \<not> read_fails
        \<and> dec (idata i) = Inr (j, rest) \<and> list_all json_space rest \<and> journal_ok j)"
  by (auto simp: journal_load_def journal_validate_None [symmetric] split: option.splits sum.splits)

text \<open>
  Who may do what with a file, as the system decides it from the nine permission bits: the bits of the
  owner, of the group or of the others, by who asks; the superuser may do everything, and the owner may
  give himself any permission. An account is a user and whether he is in the file's group.
\<close>

datatype access = Exec | Write | Read

fun access_bit :: "access \<Rightarrow> nat" where
  "access_bit Exec = 0"
| "access_bit Write = 1"
| "access_bit Read = 2"

definition may_access :: "u32 \<Rightarrow> bool \<Rightarrow> access \<Rightarrow> inode \<Rightarrow> bool" where
  "may_access u in_group a i \<longleftrightarrow> u = 0 \<or> u = iuid i
     \<or> bit (imode i) (access_bit a + (if in_group then 3 else 0))"

text \<open>A count of links is at least the number of names in this directory.\<close>

definition links_counted :: "fs \<Rightarrow> bool" where
  "links_counted s \<longleftrightarrow> (\<forall>n i. inodes s n = Some i \<longrightarrow>
     finite {q. entries s q = Some n} \<and> card {q. entries s q = Some n} \<le> inlink i)"

lemma private_bits:
  assumes "\<not> group_or_other m" and "k < 6"
  shows "\<not> bit m k"
proof -
  have "take_bit 6 m = 0" using assms(1) by (simp add: group_or_other_def take_bit_eq_mod)
  then have "bit (take_bit 6 m) k = False" by simp
  with assms(2) show ?thesis by (simp add: bit_take_bit_iff)
qed

text \<open>
  C8. Load trusts a file only if nobody but the caller and the superuser had access to it: when it returns
  a journal, the path is itself the one name of a regular file, not a link and not hard-linked elsewhere
  in the directory, which no other account, in the file's group or not, may read, write or execute; and
  the journal is valid and is all that the file holds but for white space.
\<close>

theorem load_only_trusted:
  assumes "journal_load dec euid stat_fails read_fails p s = Inr j" and "links_counted s"
  shows "\<exists>n i rest. entries s p = Some n \<and> inodes s n = Some i \<and> ikind i = Regular
     \<and> (\<forall>q. entries s q = Some n \<longrightarrow> q = p)
     \<and> (\<forall>u in_group a. may_access u in_group a i \<longrightarrow> u = euid \<or> u = 0)
     \<and> dec (idata i) = Inr (j, rest) \<and> set rest \<subseteq> {9, 10, 13, 32} \<and> journal_ok j"
proof -
  from assms(1) obtain n i rest where i: "entries s p = Some n" "inodes s n = Some i" "ikind i = Regular"
    "\<not> group_or_other (imode i)" "inlink i = 1" "acceptable_owner euid (iuid i)"
    "dec (idata i) = Inr (j, rest)" "list_all json_space rest" "journal_ok j"
    unfolding journal_load_Inr by blast
  have "finite {q. entries s q = Some n}" "card {q. entries s q = Some n} \<le> 1"
    using assms(2) i(2,5) unfolding links_counted_def by metis+
  then have "q = p" if "entries s q = Some n" for q
    using that i(1) by (auto simp: card_le_Suc0_iff_eq)
  moreover have "u = euid \<or> u = 0" if "may_access u g a i" for u g a
  proof -
    have "access_bit a + (if g then 3 else 0) < 6" by (cases a) simp_all
    from private_bits [OF i(4) this] that i(6) show ?thesis by (auto simp: may_access_def acceptable_owner_def)
  qed
  moreover have "set rest \<subseteq> {9, 10, 13, 32}" using i(8) by (auto simp: list_all_iff json_space_def)
  ultimately show ?thesis using i(1,2,3,7,9) by blast
qed

text \<open>What a successful write stored is loaded, as far as the decoder reads it back.\<close>

lemma written_loads:
  assumes codec: "\<And>body. enc (with_schema j) = Some body \<Longrightarrow> dec (body @ [10]) = Inr (j', [10])"
    and "write_to enc euid tmp ino flt p j s = (None, ss)" and "p \<noteq> tmp" and "entries s p \<noteq> Some ino"
    and "journal_validate j' = None"
  shows "journal_load dec euid False False p (last ss) = Inr j'"
  using assms(2-4)
proof (cases rule: write_to_cases)
  case (stored body ts s5 s6)
  have "entries s6 p = Some ino" "inodes s6 ino = Some (complete_inode euid (body @ [10]))"
    using fsync_dir_cases [OF stored(6)] stored(5) by (auto simp: renamed_def)
  with stored codec [OF stored(2)] assms(5) show ?thesis
    by (simp add: journal_load_def complete_inode_def mode_0600_def group_or_other_def
        acceptable_owner_def json_space_def)
qed simp_all

section \<open>Loading after a crash\<close>

text \<open>
  After a power failure the disk holds some version of the directory that the running system has had
  since its last sync, with the link counts that belong to it, and the inodes that were flushed; any
  other inode is \<open>lost n\<close>, anything. When the process is killed nothing is lost.
\<close>

definition power_cut :: "(nat \<Rightarrow> inode) \<Rightarrow> (string \<rightharpoonup> nat) \<Rightarrow> fs \<Rightarrow> fs" where
  "power_cut lost d s = \<lparr>entries = d, disk = [d],
     inodes = (\<lambda>n. map_option (\<lambda>i. (if isynced i then i else lost n)
       \<lparr>inlink := card {q. d q = Some n}, isynced := True\<rparr>) (inodes s n))\<rparr>"

inductive crash :: "fs \<Rightarrow> fs \<Rightarrow> bool" where
  killed: "crash s s"
| power: "d \<in> set (disk s) \<Longrightarrow> crash s (power_cut lost d s)"

inductive_cases crashE: "crash s t"

text \<open>The directory of the running system may have reached the disk, and the new inode is free.\<close>

definition fresh_inode :: "nat \<Rightarrow> fs \<Rightarrow> bool" where
  "fresh_inode ino s \<longleftrightarrow> entries s \<in> set (disk s) \<and> (\<forall>d \<in> set (disk s). \<forall>q. d q \<noteq> Some ino)"

lemma fresh_entries: "fresh_inode ino s \<Longrightarrow> entries s q \<noteq> Some ino"
  by (auto simp: fresh_inode_def)

lemma power_cut_load_cong:
  assumes "d p = d' p"
    and "\<And>n. d' p = Some n \<Longrightarrow> {q. d q = Some n} = {q. d' q = Some n}
      \<and> map_option (inlink_update (\<lambda>_. 0)) (inodes t n) = map_option (inlink_update (\<lambda>_. 0)) (inodes s n)"
  shows "journal_load dec euid sf rf p (power_cut lost d t) = journal_load dec euid sf rf p (power_cut lost d' s)"
proof (cases "d' p")
  case (Some n)
  then show ?thesis
    using assms(2) [OF Some] assms(1)
    by (cases "inodes t n"; cases "inodes s n") (auto simp: journal_load_def power_cut_def same_but_links)
qed (simp add: journal_load_def power_cut_def assms(1))

text \<open>A version that is old but for the temporary name loads as an old version does.\<close>

lemma old_version_loads:
  assumes "d \<in> set (disk s) \<or> only_temp s ino tmp d" and "p \<noteq> tmp" and "fresh_inode ino s"
    and "\<And>n. n \<noteq> ino \<Longrightarrow>
      map_option (inlink_update (\<lambda>_. 0)) (inodes t n) = map_option (inlink_update (\<lambda>_. 0)) (inodes s n)"
  shows "\<exists>d' \<in> set (disk s).
    journal_load dec euid sf rf p (power_cut lost d t) = journal_load dec euid sf rf p (power_cut lost d' s)"
  using assms(1)
proof
  assume d: "d \<in> set (disk s)"
  then have "n \<noteq> ino" if "d p = Some n" for n using assms(3) that by (auto simp: fresh_inode_def)
  then have "journal_load dec euid sf rf p (power_cut lost d t) = journal_load dec euid sf rf p (power_cut lost d s)"
    by (intro power_cut_load_cong) (use assms(4) in auto)
  with d show ?thesis by blast
next
  assume d: "only_temp s ino tmp d"
  have "{q. d q = Some n} = {q. entries s q = Some n}" if "entries s p = Some n" for n
  proof -
    have "n \<noteq> ino" using that fresh_entries [OF assms(3)] by blast
    then have "d q = Some n \<longleftrightarrow> entries s q = Some n" for q
      using d by (cases "q = tmp") (auto simp: only_temp_def)
    then show ?thesis by simp
  qed
  moreover have "n \<noteq> ino" if "entries s p = Some n" for n using that fresh_entries [OF assms(3)] by blast
  moreover have "d p = entries s p" using d assms(2) by (auto simp: only_temp_def)
  ultimately have "journal_load dec euid sf rf p (power_cut lost d t) = journal_load dec euid sf rf p (power_cut lost (entries s) s)"
    by (intro power_cut_load_cong) (use assms(4) in auto)
  then show ?thesis using assms(3) by (auto simp: fresh_inode_def)
qed

lemma load_cong:
  "\<lbrakk>entries t p = entries s p; \<And>n. entries s p = Some n \<Longrightarrow> inodes t n = inodes s n\<rbrakk>
    \<Longrightarrow> journal_load dec euid sf rf p t = journal_load dec euid sf rf p s"
  by (auto simp: journal_load_def split: option.split)

lemma untouched_crash_loads:
  assumes "untouched s ino tmp t" and "p \<noteq> tmp" and "fresh_inode ino s" and "crash t t'"
  shows "\<exists>s'. crash s s' \<and> journal_load dec euid sf rf p t' = journal_load dec euid sf rf p s'"
  using assms(4)
proof (cases rule: crash.cases)
  case killed
  have "journal_load dec euid sf rf p t = journal_load dec euid sf rf p s"
  proof (rule load_cong)
    show "entries t p = entries s p" using assms(1,2) by (simp add: untouched_def only_temp_def)
    show "inodes t n = inodes s n" if "entries s p = Some n" for n
    proof -
      have "n \<noteq> ino" using that fresh_entries [OF assms(3)] by blast
      then show ?thesis using assms(1) by (simp add: untouched_def)
    qed
  qed
  with killed crash.killed show ?thesis by blast
next
  case (power d lost)
  then have "d \<in> set (disk s) \<or> only_temp s ino tmp d" using assms(1) by (auto simp: untouched_def)
  moreover have "inodes t n = inodes s n" if "n \<noteq> ino" for n using assms(1) that by (simp add: untouched_def)
  ultimately show ?thesis
    using old_version_loads [of d s ino tmp p t] assms(2,3) power(1) crash.power by metis
qed

lemma complete_loads:
  assumes "dec data = Inr (j', [10])" and "journal_validate j' = None"
    and "entries t p = Some ino" and "inodes t ino = Some (complete_inode euid data)"
  shows "journal_load dec euid False False p t = Inr j'"
  using assms by (simp add: journal_load_def complete_inode_def mode_0600_def group_or_other_def
      acceptable_owner_def json_space_def)

lemma renamed_crash_loads:
  assumes r: "renamed s euid ino tmp p data t" and "p \<noteq> tmp" and "fresh_inode ino s" and "crash t t'"
    and new: "dec data = Inr (j', [10])" "journal_validate j' = None"
  shows "journal_load dec euid False False p t' = Inr j'
    \<or> disk t \<noteq> [entries t] \<and> (\<exists>s'. crash s s' \<and> journal_load dec euid False False p t' = journal_load dec euid False False p s')"
  using assms(4)
proof (cases rule: crash.cases)
  case killed
  have "entries t p = Some ino" "inodes t ino = Some (complete_inode euid data)" using r by (simp_all add: renamed_def)
  then have "journal_load dec euid False False p t = Inr j'" by (rule complete_loads [where dec = dec, OF new])
  with killed show ?thesis by simp
next
  case (power d lost)
  have ino: "inodes t ino = Some (complete_inode euid data)" using r by (simp add: renamed_def)
  have "{q. entries t q = Some ino} = {p}"
    using r fresh_entries [OF assms(3)] assms(2) by (auto simp: renamed_def split: if_splits)
  then have "inodes (power_cut lost (entries t) t) ino = Some (complete_inode euid data)"
    by (simp add: power_cut_def ino complete_inode_def)
  moreover have "entries (power_cut lost (entries t) t) p = Some ino" using r by (simp add: power_cut_def renamed_def)
  ultimately have cut: "journal_load dec euid False False p (power_cut lost (entries t) t) = Inr j'"
    by (intro complete_loads [where dec = dec, OF new])
  show ?thesis
  proof (cases "d = entries t")
    case True
    with cut power show ?thesis by simp
  next
    case False
    then have "disk t \<noteq> [entries t]" "d \<in> set (disk s) \<or> only_temp s ino tmp d"
      using r power(2) by (auto simp: renamed_def)
    moreover have "map_option (inlink_update (\<lambda>_. 0)) (inodes t n) = map_option (inlink_update (\<lambda>_. 0)) (inodes s n)"
      if "n \<noteq> ino" for n using r that by (simp add: renamed_def)
    ultimately show ?thesis
      using old_version_loads [of d s ino tmp p t] assms(2,3) power(1) crash.power by metis
  qed
qed

lemma renamed_synced: "\<lbrakk>renamed s euid ino tmp p data t; fsync_dir flt t = (e, t')\<rbrakk> \<Longrightarrow> renamed s euid ino tmp p data t'"
  using fsync_dir_cases [of flt t e t'] by (auto simp: renamed_def)

text \<open>
  At every point of a write, a crash leaves an old journal or the complete new one, and the new one once
  the write has succeeded with a directory sync.
\<close>

lemma crash_loads:
  assumes codec: "\<And>body. enc (with_schema j) = Some body \<Longrightarrow> dec (body @ [10]) = Inr (j', [10])"
    and w: "write_to enc euid tmp ino flt p j s = (e, ss)" "p \<noteq> tmp" and fresh: "fresh_inode ino s"
    and old: "\<And>s'. crash s s' \<Longrightarrow> journal_load dec euid False False p s' \<in> Inr ` J"
    and valid: "journal_validate (with_schema j) = None \<Longrightarrow> journal_validate j' = None"
  shows "t \<in> set (s # ss) \<Longrightarrow> crash t t' \<Longrightarrow> journal_load dec euid False False p t' \<in> Inr ` insert j' J"
    and "e = None \<Longrightarrow> f_dir_sync flt = None \<Longrightarrow> crash (last ss) t' \<Longrightarrow> journal_load dec euid False False p t' = Inr j'"
proof -
  have kept: "journal_load dec euid False False p u' \<in> Inr ` insert j' J" if "untouched s ino tmp u" "crash u u'" for u u'
    using untouched_crash_loads [OF that(1) w(2) fresh that(2)] old by (metis imageE image_insert insertI2 rev_image_eqI)
  note free = fresh_entries [OF fresh, of p]
  show "journal_load dec euid False False p t' \<in> Inr ` insert j' J" if t: "t \<in> set (s # ss)" "crash t t'"
  proof (cases "t = s")
    case True
    with old t(2) show ?thesis by blast
  next
    case False
    with t(1) have t1: "t \<in> set ss" by simp
    show ?thesis using w(1) w(2) free
    proof (cases rule: write_to_cases)
      case nothing
      with t1 show ?thesis by simp
    next
      case (failed body part)
      with t1 kept t(2) temp_untouched show ?thesis by blast
    next
      case (stored body ts s5 s6)
      have new: "journal_load dec euid False False p t' \<in> Inr ` insert j' J"
        if "renamed s euid ino tmp p (body @ [10]) t"
        using renamed_crash_loads [where dec = dec, OF that w(2) fresh t(2) codec [OF stored(2)] valid [OF stored(1)]] old by auto
      consider "t \<in> set ts" | "t = s5" | "t = s6" using t1 stored(3) by auto
      then show ?thesis
      proof cases
        case 1
        with kept t(2) stored(4) temp_untouched show ?thesis by blast
      qed (use new stored(5) renamed_synced [OF stored(5,6)] in blast)+
    qed
  qed
  show "journal_load dec euid False False p t' = Inr j'" if e: "e = None" "f_dir_sync flt = None" "crash (last ss) t'"
    using w(1) w(2) free
  proof (cases rule: write_to_cases)
    case (stored body ts s5 s6)
    have "disk s6 = [entries s6]" using fsync_dir_cases [OF stored(6)] e by auto
    moreover have "crash s6 t'" using e(3) stored(3) by simp
    ultimately show ?thesis
      using renamed_crash_loads [where dec = dec, OF renamed_synced [OF stored(5,6)] w(2) fresh _ codec [OF stored(2)] valid [OF stored(1)]]
      by blast
  qed (use e(1) in simp_all)
qed

text \<open>A directory with an old journal, an encoder for one journal, and the witnesses.\<close>

definition sample_fs :: fs where
  "sample_fs = \<lparr>entries = [''j'' \<mapsto> 1], disk = [[''j'' \<mapsto> 1]],
     inodes = [1 \<mapsto> \<lparr>ikind = Regular, imode = 384, iuid = 0, inlink = 1, idata = [7], isynced = True\<rparr>]\<rparr>"

definition no_faults :: faults where
  "no_faults = \<lparr>f_create = False, f_chmod = False, f_write = None, f_sync = False, f_close = False,
     f_rename = False, f_remove = False, f_dir_open = False, f_dir_sync = None\<rparr>"

definition one_enc :: "journal \<Rightarrow> byte list option" where
  "one_enc x = (if x = sample_journal then Some [123, 125] else None)"

lemma sample_write:
  "\<exists>ss. write_to one_enc 1000 ''t'' 2 no_faults ''j'' sample_journal sample_fs = (None, ss)
    \<and> entries (last ss) ''j'' = Some 2 \<and> ss \<noteq> []"
proof -
  have "with_schema sample_journal = sample_journal" by (simp add: with_schema_def sample_journal_def)
  moreover have "journal_validate sample_journal = None"
    using sample_journal_ok by (simp add: journal_validate_None)
  ultimately show ?thesis
    by (simp add: write_to_def one_enc_def no_faults_def sample_fs_def
        create_temp_def os_rename_def is_directory_def fsync_dir_def Let_def os_chmod_def
        os_write_def os_fsync_def update_inode_def set_entries_def)
qed

theorem write_to_crash_safe_witness:
  "\<exists>ss. write_to one_enc 1000 ''t'' 2 no_faults ''j'' sample_journal sample_fs = (None, ss)
    \<and> stored_data (last ss) (entries (last ss) ''j'') \<in> {Some ([7], True), Some ([123, 125, 10], True)}"
proof -
  obtain ss where w: "write_to one_enc 1000 ''t'' 2 no_faults ''j'' sample_journal sample_fs = (None, ss)"
    and ne: "ss \<noteq> []" using sample_write by blast
  have ws: "with_schema sample_journal = sample_journal" by (simp add: with_schema_def sample_journal_def)
  from write_to_crash_safe [OF w, of "last ss" "entries (last ss) ''j''"] ne w ws show ?thesis
    by (auto simp: sample_fs_def one_enc_def stored_data_def seen_def)
qed

theorem write_to_outcome_witness:
  "\<exists>ss. write_to one_enc 1000 ''t'' 2 no_faults ''j'' sample_journal sample_fs = (None, ss)
    \<and> entries (last ss) = [''j'' \<mapsto> 2]"
proof -
  obtain ss where w: "write_to one_enc 1000 ''t'' 2 no_faults ''j'' sample_journal sample_fs = (None, ss)"
    using sample_write by blast
  from write_to_outcome [OF w] w show ?thesis by (auto simp: sample_fs_def dir_error_def)
qed

theorem load_only_trusted_witness:
  "\<exists>i. inodes sample_fs 1 = Some i \<and> \<not> may_access 5 True Read i"
proof -
  have l: "journal_load (\<lambda>_. Inr (sample_journal, [])) 1000 False False ''j'' sample_fs = Inr sample_journal"
    using sample_journal_ok unfolding journal_load_Inr
    by (simp add: sample_fs_def group_or_other_def acceptable_owner_def)
  have sub: "{q. entries sample_fs q = Some n} \<subseteq> {''j''}" for n by (auto simp: sample_fs_def split: if_splits)
  have "finite {q. entries sample_fs q = Some n}" "card {q. entries sample_fs q = Some n} \<le> 1" for n
    using finite_subset [OF sub] card_mono [OF _ sub, of n] by simp_all
  moreover have "inlink i = 1" if "inodes sample_fs n = Some i" for n i
    using that by (auto simp: sample_fs_def split: if_splits)
  ultimately have "links_counted sample_fs" by (simp add: links_counted_def)
  from load_only_trusted [OF l this] obtain n i where
    i: "entries sample_fs ''j'' = Some n" "inodes sample_fs n = Some i"
      "\<forall>u in_group a. may_access u in_group a i \<longrightarrow> u = 1000 \<or> u = 0" by metis
  have "n = 1" using i(1) by (simp add: sample_fs_def)
  moreover have "\<not> may_access 5 True Read i" using i(3) [rule_format, of 5 True Read] by auto
  ultimately show ?thesis using i(2) by blast
qed

end
