(* ===== verification/JournalHost.thy ===== *)
theory JournalHost
  imports JournalRecover
begin

text \<open>
  \<open>LinuxHost\<close> of \<open>internal/journal/host_linux.go\<close>: the host operations by external commands and
  files under \<open>/proc/sys\<close>. The operating system is a record of three operations on a state of
  any type: running a command (combined output, the error if it failed), reading a file and
  writing one.
\<close>

record 'k os =
  run_command :: "string \<Rightarrow> string list \<Rightarrow> 'k \<Rightarrow> (string \<times> string option) \<times> 'k"
  read_file :: "string \<Rightarrow> 'k \<Rightarrow> (string + string) \<times> 'k"
  write_file :: "string \<Rightarrow> string \<Rightarrow> 'k \<Rightarrow> string option \<times> 'k"

record linux_host =
  ip_path :: string
  sysctl_path :: string
  nft_path :: string

definition ip_cmd :: "linux_host \<Rightarrow> string" where
  "ip_cmd c = (if ip_path c \<noteq> [] then ip_path c else ''ip'')"

definition nft_cmd :: "linux_host \<Rightarrow> string" where
  "nft_cmd c = (if nft_path c = [] then ''nft'' else nft_path c)"

definition gone_phrases :: "string list" where
  "gone_phrases = [''no such'', ''does not exist'', ''cannot find'', ''not found'', ''no such process'']"

definition idempotent_delete :: "string \<times> string option \<Rightarrow> host_err option" where
  "idempotent_delete r =
     (case snd r of
        None \<Rightarrow> None
      | Some e \<Rightarrow>
          if list_ex (contains_sub (to_lower (fst r))) gone_phrases then None
          else Some (HostErr (e @ '': '' @ trim_space (fst r))))"

definition proc_path :: "string \<Rightarrow> string" where
  "proc_path key = ''/proc/sys/'' @ replace_char (CHR ''.'') (CHR ''/'') key"

definition u32_text :: "u32 \<Rightarrow> string" where
  "u32_text w = itoa (unat w)"

definition route_args :: "route_record \<Rightarrow> string list" where
  "route_args r =
     [''route'', ''del'', route_dst r, ''table'', u32_text (route_table r)]
     @ (if route_dev r \<noteq> [] then [''dev'', route_dev r] else [])
     @ (if route_via r \<noteq> [] then [''via'', route_via r] else [])
     @ (if route_priority r \<noteq> 0 then [''metric'', u32_text (route_priority r)] else [])"

definition rule_args :: "rule_record \<Rightarrow> string list" where
  "rule_args r =
     [if rule_family r = ''ip6'' then ''-6'' else ''-4'', ''rule'', ''del'', ''priority'',
      u32_text (rule_priority r), ''table'', u32_text (rule_table r)]
     @ (if rule_fwmark r \<noteq> 0 then [''fwmark'', ''0x'' @ hex (unat (rule_fwmark r))] else [])"

definition table_args :: "u32 \<Rightarrow> string list" where
  "table_args t = [''route'', ''flush'', ''table'', u32_text t]"

definition nft_args :: "nftable_record \<Rightarrow> string list" where
  "nft_args t = [''delete'', ''table'', nft_family t, nft_name t]"

definition deleted_by :: "'k os \<Rightarrow> string \<Rightarrow> string list \<Rightarrow> 'k \<Rightarrow> host_err option \<times> 'k" where
  "deleted_by S cmd args k =
     (case run_command S cmd args k of (r, k') \<Rightarrow> (idempotent_delete r, k'))"

definition linux_ops :: "'k os \<Rightarrow> linux_host \<Rightarrow> 'k host" where
  "linux_ops S c = \<lparr>
     get_sysctl = (\<lambda>key k. case read_file S (proc_path key) k of
        (Inl e, k') \<Rightarrow> (Inl (HostErr e), k') | (Inr b, k') \<Rightarrow> (Inr (trim_space b), k')),
     set_sysctl = (\<lambda>key v k. case write_file S (proc_path key) (v @ [CHR 0x0A]) k of
        (e, k') \<Rightarrow> (map_option HostErr e, k')),
     delete_route = (\<lambda>r. deleted_by S (ip_cmd c) (route_args r)),
     delete_rule = (\<lambda>r. deleted_by S (ip_cmd c) (rule_args r)),
     delete_route_table = (\<lambda>t. deleted_by S (ip_cmd c) (table_args t)),
     delete_nftable = (\<lambda>t. deleted_by S (nft_cmd c) (nft_args t)),
     restore_resolver = (\<lambda>r k. (Some ErrResolverUnsupported, k))\<rparr>"

section \<open>Paths and arguments\<close>

text \<open>
  The file a sysctl key leads to stays under \<open>/proc/sys\<close>: for a key that validation accepts,
  the path is the three leading components followed by one component per segment of the key,
  none of them empty, \<open>.\<close> or \<open>..\<close>, and two keys never share a path.
\<close>

theorem proc_path_confined:
  assumes "sysctl_name_re key"
  shows "split_on (CHR ''/'') (proc_path key) = [[], ''proc'', ''sys''] @ split_on (CHR ''.'') key
    \<and> (\<forall>g \<in> set (split_on (CHR ''.'') key). g \<noteq> [] \<and> CHR ''.'' \<notin> set g \<and> CHR ''/'' \<notin> set g)
    \<and> (\<forall>key'. sysctl_name_re key' \<and> proc_path key' = proc_path key \<longrightarrow> key' = key)"
proof -
  have segs: "\<forall>g \<in> set (split_on (CHR ''.'') k). g \<noteq> [] \<and> CHR ''.'' \<notin> set g \<and> CHR ''/'' \<notin> set g"
    if "sysctl_name_re k" for k
  proof
    fix g assume "g \<in> set (split_on (CHR ''.'') k)"
    with that have "g \<noteq> [] \<and> (\<forall>c \<in> set g. is_lower c \<or> is_digit c \<or> c = CHR ''_'')"
      by (simp add: sysctl_name_re_def Let_def list_all_iff)
    then show "g \<noteq> [] \<and> CHR ''.'' \<notin> set g \<and> CHR ''/'' \<notin> set g"
      by (auto simp: is_lower_def is_digit_def dest: bspec [of _ _ "CHR ''.''"] bspec [of _ _ "CHR ''/''"])
  qed
  have no_slash: "CHR ''/'' \<notin> set k" if "sysctl_name_re k" for k
  proof -
    have "set (join_with (CHR ''.'') gs) \<subseteq> {CHR ''.''} \<union> \<Union> (set (map set gs))" for gs
      by (induction "CHR ''.''" gs rule: join_with.induct) auto
    from this [of "split_on (CHR ''.'') k"] segs [OF that] show ?thesis
      by (auto simp: join_split)
  qed
  have path: "split_on (CHR ''/'') (proc_path k) = [[], ''proc'', ''sys''] @ split_on (CHR ''.'') k"
    if "sysctl_name_re k" for k
    using no_slash [OF that] by (simp add: proc_path_def split_on_replace)
  have "key' = key" if "sysctl_name_re key'" "proc_path key' = proc_path key" for key'
  proof -
    have "split_on (CHR ''.'') key' = split_on (CHR ''.'') key"
      using path [OF that(1)] path [OF assms] that(2) by simp
    then show ?thesis by (metis join_split)
  qed
  with path [OF assms] segs [OF assms] show ?thesis by blast
qed


section \<open>What recovery runs on Linux\<close>

datatype os_call = Ran string "string list" | ReadFile string | WroteFile string string

definition logged :: "'k os \<Rightarrow> ('k \<times> os_call list) os" where
  "logged S = \<lparr>
     run_command = (\<lambda>cmd args s. case run_command S cmd args (fst s) of
        (r, k) \<Rightarrow> (r, k, snd s @ [Ran cmd args])),
     read_file = (\<lambda>p s. case read_file S p (fst s) of (r, k) \<Rightarrow> (r, k, snd s @ [ReadFile p])),
     write_file = (\<lambda>p b s. case write_file S p b (fst s) of (r, k) \<Rightarrow> (r, k, snd s @ [WroteFile p b]))\<rparr>"

definition os_calls :: "'k os \<Rightarrow> linux_host \<Rightarrow> journal \<Rightarrow> string \<Rightarrow> string \<Rightarrow> 'k \<Rightarrow> os_call list" where
  "os_calls S c j r i k = snd (snd (snd (snd (recover (linux_ops (logged S) c) j r i (k, [])))))"

fun owned_os_call :: "linux_host \<Rightarrow> journal \<Rightarrow> os_call \<Rightarrow> bool" where
  "owned_os_call c j (Ran cmd args) \<longleftrightarrow>
     cmd = ip_cmd c \<and> args \<in> route_args ` set (routes j) \<union> rule_args ` set (rules j)
        \<union> table_args ` set (tables j)
     \<or> cmd = nft_cmd c \<and> args \<in> nft_args ` set (nftables j)"
| "owned_os_call c j (ReadFile p) \<longleftrightarrow> p \<in> proc_path ` sysctl_name ` set (sysctls j)"
| "owned_os_call c j (WroteFile p b) \<longleftrightarrow>
     (\<exists>s \<in> set (sysctls j). p = proc_path (sysctl_name s) \<and> b = sysctl_prior s @ [CHR 0x0A])"

text \<open>
  On Linux, whatever the tools answer, recovery runs only the delete commands of the objects the
  journal names and reads and writes only the procfs files of its sysctl records, writing only
  recorded prior values. \<open>Cli.cleanup_confined\<close> states it of the whole program.
\<close>

lemma linux_calls_owned:
  "list_all (owned_os_call c j) (os_calls S c j r i k)"
proof -
  define P where "P = (\<lambda>s :: 'a \<times> os_call list. list_all (owned_os_call c j) (snd s))"
  have "P (snd (snd (snd (recover (linux_ops (logged S) c) j r i (k, [])))))"
    by (rule recover_preserves)
      (auto simp: P_def linux_ops_def logged_def deleted_by_def split: prod.split sum.split)
  then show ?thesis by (simp add: P_def os_calls_def)
qed

lemma sub_gone: "idempotent_delete r = None \<longleftrightarrow> snd r = None \<or>
    (\<exists>p \<in> set gone_phrases. \<exists>u v. to_lower (fst r) = u @ p @ v)"
  by (auto simp: idempotent_delete_def list_ex_iff contains_sub_iff split: option.split)

text \<open>
  A delete counts as done only if the tool succeeded or its output says, in any letter
  case, that the object is not there; a tool that fails without output, for one that could
  not be started, is always an error.
\<close>

theorem idempotent_delete_fails_closed:
  "idempotent_delete (output, err) = None \<longleftrightarrow>
     err = None \<or> (output \<noteq> [] \<and> (\<exists>p \<in> set gone_phrases. \<exists>u v. to_lower output = u @ p @ v))"
  by (cases "output = []") (auto simp: sub_gone to_lower_def gone_phrases_def)

text \<open>
  A journal with resolver state is never recovered fully by this host: recovery stops
  before the kill switch, reports the unsupported resolver, removes no route table and no
  nftables table, and says that the kill switch is retained whenever there is one.
\<close>

theorem linux_resolver_keeps_kill_switch:
  assumes "journal_ok j" and "owned_by j r i" and "resolver j \<noteq> None"
    and "recover (linux_ops S c) j r i k = (err, rep, ls, k')"
  shows "(\<exists>es. err = Some (HaltedBeforeKillSwitch es) \<and> RestoreResolverErr ErrResolverUnsupported \<in> set es)
    \<and> tables_removed rep = 0 \<and> nftables_removed rep = 0 \<and> \<not> resolver_restored rep
    \<and> kill_switch_retained rep = (nftables j \<noteq> [])"
proof -
  have v: "journal_validate j = None" "check_owner j r i = None"
    using assms(1,2) by (simp_all add: journal_validate_None check_owner_None)
  have "restore_resolver_state (linux_ops S c) (resolver j) h =
      ([RestoreResolverErr ErrResolverUnsupported], False, h)" for h
    using assms(3) by (auto simp: restore_resolver_state_def linux_ops_def)
  with v assms(4) show ?thesis
    by (auto simp: recover_def Let_def empty_report_def split: prod.splits)
qed

text \<open>A system whose commands succeed silently, for the witnesses.\<close>

definition quiet_os :: "unit os" where
  "quiet_os = \<lparr>run_command = (\<lambda>_ _ k. (([], None), k)), read_file = (\<lambda>_ k. (Inr ''1'', k)),
     write_file = (\<lambda>_ _ k. (None, k))\<rparr>"

definition default_linux :: linux_host where
  "default_linux = \<lparr>ip_path = [], sysctl_path = [], nft_path = []\<rparr>"

theorem linux_resolver_keeps_kill_switch_witness:
  "kill_switch_retained (fst (snd (recover (linux_ops quiet_os default_linux) resolver_journal ''client'' [] ())))"
proof -
  obtain err rep ls k' where
    r: "recover (linux_ops quiet_os default_linux) resolver_journal ''client'' [] () = (err, rep, ls, k')"
    using prod_cases4 by blast
  have "owned_by resolver_journal ''client'' []" "journal_ok resolver_journal" "resolver resolver_journal \<noteq> None"
    using sample_journal_ok
    by (simp_all add: owned_by_def journal_ok_def resolver_journal_def) (simp add: sample_journal_def)
  from linux_resolver_keeps_kill_switch [OF this(2,1,3) r] r show ?thesis
    by (simp add: resolver_journal_def sample_journal_def)
qed

theorem proc_path_confined_witness:
  "split_on (CHR ''/'') (proc_path ''net.ipv4.ip_forward'') =
     [[], ''proc'', ''sys'', ''net'', ''ipv4'', ''ip_forward'']"
proof -
  have "sysctl_name_re ''net.ipv4.ip_forward''" by (simp add: ident_defs)
  from proc_path_confined [OF this] show ?thesis by simp
qed

end
