(* ===== verification/JsonText.thy ===== *)
theory JsonText
  imports Prelude
begin

text \<open>
  The strings of \<open>encoding/json\<close>, for the journal. A Go string is a list of bytes, a \<open>char\<close> each.
  The encoder copies valid UTF-8, escapes what JSON or HTML cannot carry, and writes the replacement
  character for every byte that is not part of a valid sequence; the decoder undoes the escapes.
  What a string becomes on its way through both is \<open>to_valid\<close>.
\<close>

abbreviation ord_of :: "char \<Rightarrow> nat" where "ord_of c \<equiv> of_char c"

section \<open>UTF-8\<close>

text \<open>The length of the sequence a text begins with, as \<open>utf8.DecodeRune\<close> has it; 0 if invalid.\<close>

definition follows :: "nat \<Rightarrow> nat \<Rightarrow> string \<Rightarrow> bool" where
  "follows lo hi s \<longleftrightarrow> s \<noteq> [] \<and> lo \<le> ord_of (hd s) \<and> ord_of (hd s) \<le> hi"

definition utf8_head :: "string \<Rightarrow> nat" where
  "utf8_head s =
     (case s of [] \<Rightarrow> 0 | c # t \<Rightarrow>
        (let a = ord_of c in
         if a < 0x80 then 1
         else if 0xC2 \<le> a \<and> a \<le> 0xDF \<and> follows 0x80 0xBF t then 2
         else if 0xE0 \<le> a \<and> a \<le> 0xEF \<and> follows (if a = 0xE0 then 0xA0 else 0x80) (if a = 0xED then 0x9F else 0xBF) t
           \<and> follows 0x80 0xBF (tl t) then 3
         else if 0xF0 \<le> a \<and> a \<le> 0xF4 \<and> follows (if a = 0xF0 then 0x90 else 0x80) (if a = 0xF4 then 0x8F else 0xBF) t
           \<and> follows 0x80 0xBF (tl t) \<and> follows 0x80 0xBF (tl (tl t)) then 4
         else 0))"

text \<open>The bytes of a code point, \<open>utf8.EncodeRune\<close>.\<close>

definition replacement :: string where
  "replacement = [CHR 0xEF, CHR 0xBF, CHR 0xBD]"

definition encode_rune :: "nat \<Rightarrow> string" where
  "encode_rune n =
     (if n < 0x80 then [char_of n]
      else if n < 0x800 then [char_of (0xC0 + n div 64), char_of (0x80 + n mod 64)]
      else if 0xD800 \<le> n \<and> n \<le> 0xDFFF \<or> 0x10FFFF < n then replacement
      else if n < 0x10000 then
        [char_of (0xE0 + n div 4096), char_of (0x80 + n div 64 mod 64), char_of (0x80 + n mod 64)]
      else [char_of (0xF0 + n div 262144), char_of (0x80 + n div 4096 mod 64),
            char_of (0x80 + n div 64 mod 64), char_of (0x80 + n mod 64)])"

text \<open>A string with the bytes that are not valid replaced.\<close>

function to_valid :: "string \<Rightarrow> string" where
  "to_valid s =
     (if s = [] then []
      else if utf8_head s = 0 then replacement @ to_valid (tl s)
      else take (utf8_head s) s @ to_valid (drop (utf8_head s) s))"
  by pat_completeness auto
termination
  by (relation "measure length") auto

declare to_valid.simps [simp del]

function valid_utf8 :: "string \<Rightarrow> bool" where
  "valid_utf8 s = (if s = [] then True else if utf8_head s = 0 then False else valid_utf8 (drop (utf8_head s) s))"
  by pat_completeness auto
termination
  by (relation "measure length") auto

declare valid_utf8.simps [simp del]

section \<open>Encoding\<close>

definition hex_char :: "nat \<Rightarrow> char" where
  "hex_char n = ''0123456789abcdef'' ! n"

text \<open>The characters that are escaped: controls, the quote and the backslash, and those of HTML.\<close>

definition escape_char :: "char \<Rightarrow> string" where
  "escape_char c =
     (if c = CHR ''\"'' \<or> c = CHR 0x5C then [CHR 0x5C, c]
      else if ord_of c = 8 then [CHR 0x5C, CHR ''b'']
      else if ord_of c = 12 then [CHR 0x5C, CHR ''f'']
      else if ord_of c = 10 then [CHR 0x5C, CHR ''n'']
      else if ord_of c = 13 then [CHR 0x5C, CHR ''r'']
      else if ord_of c = 9 then [CHR 0x5C, CHR ''t'']
      else if ord_of c < 32 \<or> c \<in> {CHR ''<'', CHR ''>'', CHR ''&''} then
        [CHR 0x5C, CHR ''u'', CHR ''0'', CHR ''0'', hex_char (ord_of c div 16), hex_char (ord_of c mod 16)]
      else [c])"

function json_escape :: "string \<Rightarrow> string" where
  "json_escape s =
     (if s = [] then []
      else if utf8_head s = 0 then [CHR 0x5C] @ ''ufffd'' @ json_escape (tl s)
      else if utf8_head s = 1 then escape_char (hd s) @ json_escape (tl s)
      else if take 3 s = [CHR 0xE2, CHR 0x80, CHR 0xA8] then [CHR 0x5C] @ ''u2028'' @ json_escape (drop 3 s)
      else if take 3 s = [CHR 0xE2, CHR 0x80, CHR 0xA9] then [CHR 0x5C] @ ''u2029'' @ json_escape (drop 3 s)
      else take (utf8_head s) s @ json_escape (drop (utf8_head s) s))"
  by pat_completeness auto
termination
  by (relation "measure length") auto

declare json_escape.simps [simp del]

section \<open>Decoding\<close>

text \<open>The inside of a string literal up to its quote, as the scanner checks it.\<close>

definition escape_letters :: "char list" where
  "escape_letters = [CHR ''b'', CHR ''f'', CHR ''n'', CHR ''r'', CHR ''t'', CHR 0x5C, CHR ''/'', CHR ''\"'']"

fun scan_string :: "string \<Rightarrow> (string \<times> string) option" where
  "scan_string [] = None"
| "scan_string (c # s) =
     (if c = CHR ''\"'' then Some ([], s)
      else if ord_of c < 32 then None
      else if c = CHR 0x5C then
        (case s of [] \<Rightarrow> None
         | e # t \<Rightarrow>
             if e \<in> set escape_letters then
               map_option (apfst (\<lambda>r. c # e # r)) (scan_string t)
             else if e = CHR ''u'' then
               (case t of h1 # h2 # h3 # h4 # u \<Rightarrow>
                  if list_all (\<lambda>h. hex_val h \<noteq> None) [h1, h2, h3, h4] then
                    map_option (apfst (\<lambda>r. c # e # h1 # h2 # h3 # h4 # r)) (scan_string u)
                  else None
                | _ \<Rightarrow> None)
             else None)
      else map_option (apfst ((#) c)) (scan_string s))"

text \<open>\<open>getu4\<close>: the value of an escape \<open>\u\<close> with four digits at the head of a text.\<close>

definition getu4 :: "string \<Rightarrow> nat option" where
  "getu4 s =
     (case s of b # u # h1 # h2 # h3 # h4 # _ \<Rightarrow>
        (if b = CHR 0x5C \<and> u = CHR ''u'' then
           (case (hex_val h1, hex_val h2, hex_val h3, hex_val h4) of
              (Some a, Some b, Some c, Some d) \<Rightarrow> Some (((a * 16 + b) * 16 + c) * 16 + d)
            | _ \<Rightarrow> None)
         else None)
      | _ \<Rightarrow> None)"

definition surrogate_pair :: "nat \<Rightarrow> nat option \<Rightarrow> nat option" where
  "surrogate_pair hi lo =
     (case lo of None \<Rightarrow> None | Some l \<Rightarrow>
        if 0xD800 \<le> hi \<and> hi < 0xDC00 \<and> 0xDC00 \<le> l \<and> l < 0xE000
        then Some ((hi - 0xD800) * 1024 + (l - 0xDC00) + 0x10000) else None)"

definition simple_escape :: "char \<Rightarrow> char" where
  "simple_escape e =
     (if e = CHR ''b'' then CHR 0x08 else if e = CHR ''f'' then CHR 0x0C else if e = CHR ''n'' then CHR 0x0A
      else if e = CHR ''r'' then CHR 0x0D else if e = CHR ''t'' then CHR 0x09 else e)"

text \<open>The value of a literal that was scanned; surrogates without a partner are replaced.\<close>

function unquote :: "string \<Rightarrow> string" where
  "unquote s =
     (if s = [] then []
      else if hd s = CHR 0x5C then
        (case getu4 s of
           Some r \<Rightarrow>
             (if 0xD800 \<le> r \<and> r < 0xE000 then
                (case surrogate_pair r (getu4 (drop 6 s)) of
                   Some p \<Rightarrow> encode_rune p @ unquote (drop 12 s)
                 | None \<Rightarrow> replacement @ unquote (drop 6 s))
              else encode_rune r @ unquote (drop 6 s))
         | None \<Rightarrow> (case tl s of [] \<Rightarrow> [] | e # t \<Rightarrow> simple_escape e # unquote t))
      else if utf8_head s = 0 then replacement @ unquote (tl s)
      else take (utf8_head s) s @ unquote (drop (utf8_head s) s))"
  by pat_completeness auto
termination
  by (relation "measure length") (auto simp: getu4_def split: list.splits)

declare unquote.simps [simp del]

section \<open>What comes back\<close>

lemma to_valid_id: "valid_utf8 s \<Longrightarrow> to_valid s = s"
proof (induction s rule: valid_utf8.induct)
  case (1 s)
  then show ?case by (subst to_valid.simps) (auto simp: valid_utf8.simps [of s] split: if_splits)
qed

lemma follows_Cons [simp]: "follows lo hi (c # s) \<longleftrightarrow> lo \<le> ord_of c \<and> ord_of c \<le> hi" "\<not> follows lo hi []"
  by (simp_all add: follows_def)

text \<open>A text begins with nothing valid, with one ASCII byte, or with a sequence of other bytes.\<close>

lemma utf8_cases:
  obtains (empty) "s = []"
  | (bad) c t where "s = c # t" "utf8_head s = 0" "0x80 \<le> ord_of c"
  | (ascii) c t where "s = c # t" "utf8_head s = 1" "ord_of c < 0x80"
  | (multi) u t where "s = u @ t" "utf8_head s = length u" "2 \<le> length u" "list_all (\<lambda>c. 0x80 \<le> ord_of c) u"
      "\<And>r. utf8_head (u @ r) = length u"
proof (cases s)
  case (Cons c t)
  have m: thesis if "s = u @ r" "2 \<le> length u" "list_all (\<lambda>c. 0x80 \<le> ord_of c) u" "\<And>r. utf8_head (u @ r) = length u" for u r
    using multi [of u r] that by simp
  show thesis
  proof (cases "ord_of c < 0x80 \<or> utf8_head s = 0")
    case True
    then show ?thesis using ascii bad Cons by (cases "ord_of c < 0x80") (auto simp: utf8_head_def Let_def)
  next
    case False
    then consider "0xC2 \<le> ord_of c" "ord_of c \<le> 0xDF" "follows 0x80 0xBF t"
      | "0xE0 \<le> ord_of c" "ord_of c \<le> 0xEF" "follows 0x80 0xBF (tl t)"
          "follows (if ord_of c = 0xE0 then 0xA0 else 0x80) (if ord_of c = 0xED then 0x9F else 0xBF) t"
      | "0xF0 \<le> ord_of c" "ord_of c \<le> 0xF4" "follows 0x80 0xBF (tl t)" "follows 0x80 0xBF (tl (tl t))"
          "follows (if ord_of c = 0xF0 then 0x90 else 0x80) (if ord_of c = 0xF4 then 0x8F else 0xBF) t"
      by (auto simp: Cons utf8_head_def Let_def split: if_splits)
    then show ?thesis
    proof cases
      case 1
      then obtain b r where "t = b # r" by (cases t) auto
      with 1 show ?thesis by (intro m [of "[c, b]" r]) (auto simp: Cons utf8_head_def Let_def)
    next
      case 2
      then obtain b d r where "t = b # d # r" by (cases t; cases "tl t") auto
      with 2 show ?thesis
        by (intro m [of "[c, b, d]" r]) (auto simp: Cons utf8_head_def Let_def split: if_splits)
    next
      case 3
      then obtain b d e r where "t = b # d # e # r" by (cases t; cases "tl t"; cases "tl (tl t)") auto
      with 3 show ?thesis
        by (intro m [of "[c, b, d, e]" r]) (auto simp: Cons utf8_head_def Let_def split: if_splits)
    qed
  qed
qed (rule empty)

lemma hex_val_char: "n < 16 \<Longrightarrow> hex_val (hex_char n) = Some n"
proof -
  have "list_all (\<lambda>n. hex_val (hex_char n) = Some n) [0..<16]" by code_simp
  then show "n < 16 \<Longrightarrow> hex_val (hex_char n) = Some n" by (simp add: list_all_iff)
qed

lemma getu4_escape: "a < 16 \<Longrightarrow> b < 16 \<Longrightarrow> c < 16 \<Longrightarrow> d < 16 \<Longrightarrow>
    getu4 (CHR 0x5C # CHR ''u'' # hex_char a # hex_char b # hex_char c # hex_char d # t)
      = Some (((a * 16 + b) * 16 + c) * 16 + d)"
  by (simp add: getu4_def hex_val_char)

lemma scan_escape:
  assumes "ord_of c < 0x80" and "scan_string t = Some (q, r)"
  shows "scan_string (escape_char c @ t) = Some (escape_char c @ q, r)"
proof -
  have h: "hex_val (CHR ''0'') = Some 0" by (simp add: hex_val_def Let_def)
  have "ord_of c div 16 < 16" "ord_of c mod 16 < 16" using assms by auto
  then show ?thesis using assms(2) by (simp add: escape_char_def escape_letters_def h hex_val_char)
qed

lemma scan_plain:
  "list_all (\<lambda>c. 0x80 \<le> ord_of c) u \<Longrightarrow> scan_string t = Some (q, r) \<Longrightarrow> scan_string (u @ t) = Some (u @ q, r)"
  by (induction u) auto

text \<open>The four escapes the encoder writes with \<open>u\<close>.\<close>

lemma scan_u_escape:
  assumes "scan_string t = Some (q, r)" and "list_all (\<lambda>h. hex_val h \<noteq> None) [a, b, c, d]"
  shows "scan_string (CHR 0x5C # CHR ''u'' # a # b # c # d # t) = Some (CHR 0x5C # CHR ''u'' # a # b # c # d # q, r)"
  using assms by (simp add: escape_letters_def)

text \<open>The encoder and the decoder on each of the four kinds of beginnings.\<close>

lemma escape_simps:
  "json_escape [] = []"
  "utf8_head (c # t) = 0 \<Longrightarrow> json_escape (c # t) = CHR 0x5C # ''ufffd'' @ json_escape t"
  "utf8_head (c # t) = 1 \<Longrightarrow> json_escape (c # t) = escape_char c @ json_escape t"
  "utf8_head (u @ t) = length u \<Longrightarrow> 2 \<le> length u \<Longrightarrow> json_escape (u @ t) =
     (if take 3 (u @ t) = [CHR 0xE2, CHR 0x80, CHR 0xA8] then CHR 0x5C # ''u2028'' @ json_escape (drop 3 (u @ t))
      else if take 3 (u @ t) = [CHR 0xE2, CHR 0x80, CHR 0xA9] then CHR 0x5C # ''u2029'' @ json_escape (drop 3 (u @ t))
      else u @ json_escape t)"
proof -
  assume "utf8_head (u @ t) = length u" "2 \<le> length u"
  moreover from this have "u @ t \<noteq> []" "length u \<noteq> 0" "length u \<noteq> 1" by auto
  moreover have "take (length u) (u @ t) = u" "drop (length u) (u @ t) = t" by simp_all
  ultimately show "json_escape (u @ t) =
     (if take 3 (u @ t) = [CHR 0xE2, CHR 0x80, CHR 0xA8] then CHR 0x5C # ''u2028'' @ json_escape (drop 3 (u @ t))
      else if take 3 (u @ t) = [CHR 0xE2, CHR 0x80, CHR 0xA9] then CHR 0x5C # ''u2029'' @ json_escape (drop 3 (u @ t))
      else u @ json_escape t)"
    by (subst json_escape.simps) (simp only: if_False append_Cons append_Nil)
qed (subst json_escape.simps, simp)+

lemma scan_json_escape: "scan_string (json_escape s @ CHR ''\"'' # r) = Some (json_escape s, r)"
proof (induction s rule: json_escape.induct)
  case (1 s)
  have u: "scan_string ((CHR 0x5C # ''ufffd'' @ v) @ w) = Some (CHR 0x5C # ''ufffd'' @ v, r)"
    "scan_string ((CHR 0x5C # ''u2028'' @ v) @ w) = Some (CHR 0x5C # ''u2028'' @ v, r)"
    "scan_string ((CHR 0x5C # ''u2029'' @ v) @ w) = Some (CHR 0x5C # ''u2029'' @ v, r)"
    if "scan_string (v @ w) = Some (v, r)" for v w
    using that by (simp_all add: hex_val_def)
  show ?case
  proof (cases s rule: utf8_cases)
    case empty
    then show ?thesis by (simp add: escape_simps)
  next
    case (bad c t)
    with 1(1) have "scan_string (json_escape t @ CHR ''\"'' # r) = Some (json_escape t, r)" by simp
    from u(1) [OF this] bad show ?thesis by (simp only: escape_simps)
  next
    case (ascii c t)
    with 1(2) have "scan_string (json_escape t @ CHR ''\"'' # r) = Some (json_escape t, r)" by simp
    from scan_escape [OF ascii(3) this] ascii show ?thesis by (simp add: escape_simps)
  next
    case (multi w t)
    have n: "s \<noteq> []" "utf8_head s \<noteq> 0" "utf8_head s \<noteq> 1" using multi(1-3) by auto
    show ?thesis
    proof (cases "take 3 s \<in> {[CHR 0xE2, CHR 0x80, CHR 0xA8], [CHR 0xE2, CHR 0x80, CHR 0xA9]}")
      case True
      with 1(3,4) n have "scan_string (json_escape (drop 3 s) @ CHR ''\"'' # r) = Some (json_escape (drop 3 s), r)"
        by (cases "take 3 s = [CHR 0xE2, CHR 0x80, CHR 0xA8]") simp_all
      from u(2,3) [OF this] True escape_simps(4) [of w t] multi(1-3) show ?thesis by (auto simp del: scan_string.simps)
    next
      case False
      with 1(5) n multi(1,2) have "scan_string (json_escape t @ CHR ''\"'' # r) = Some (json_escape t, r)" by simp
      from scan_plain [OF multi(4) this] False multi(1-3) escape_simps(4) [of w t] show ?thesis by simp
    qed
  qed
qed

lemma valid_simps:
  "to_valid [] = []"
  "utf8_head (c # t) = 0 \<Longrightarrow> to_valid (c # t) = replacement @ to_valid t"
  "utf8_head (c # t) = 1 \<Longrightarrow> to_valid (c # t) = c # to_valid t"
  "utf8_head (u @ t) = length u \<Longrightarrow> u \<noteq> [] \<Longrightarrow> to_valid (u @ t) = u @ to_valid t"
  by (subst to_valid.simps, simp)+

lemma unquote_rune:
  "getu4 s = Some r \<Longrightarrow> s = CHR 0x5C # w \<Longrightarrow> r < 0xD800 \<or> 0xE000 \<le> r \<Longrightarrow>
     unquote s = encode_rune r @ unquote (drop 6 s)"
  by (subst unquote.simps) auto

lemma unquote_plain:
  "utf8_head (u @ t) = length u \<Longrightarrow> u \<noteq> [] \<Longrightarrow> hd u \<noteq> CHR 0x5C \<Longrightarrow> unquote (u @ t) = u @ unquote t"
  by (subst unquote.simps) simp

lemma unquote_simple:
  "e \<noteq> CHR ''u'' \<Longrightarrow> unquote (CHR 0x5C # e # t) = simple_escape e # unquote t"
  by (subst unquote.simps) (simp add: getu4_def split: list.split)

lemma unquote_escape_char:
  assumes "ord_of c < 0x80"
  shows "unquote (escape_char c @ t) = c # unquote t"
proof -
  have h: "hex_val (CHR ''0'') = Some 0" by (simp add: hex_val_def Let_def)
  have n: "ord_of c div 16 < 16" "ord_of c mod 16 < 16" using assms by auto
  have "ord_of c div 16 * 16 + ord_of c mod 16 = ord_of c" by simp
  then have g: "getu4 (CHR 0x5C # CHR ''u'' # CHR ''0'' # CHR ''0'' # hex_char (ord_of c div 16) # hex_char (ord_of c mod 16) # t)
      = Some (ord_of c)"
    by (simp add: getu4_def hex_val_char n h)
  have r: "encode_rune (ord_of c) = [c]" using assms by (simp add: encode_rune_def)
  have head: "utf8_head (c # t) = 1" using assms by (simp add: utf8_head_def)
  have ctl: "ord_of c \<in> {8, 9, 10, 12, 13} \<Longrightarrow> c \<in> {CHR 0x08, CHR 0x09, CHR 0x0A, CHR 0x0C, CHR 0x0D}"
  proof -
    have "ord_of c = n \<Longrightarrow> c = char_of n" for n by auto
    moreover have "char_of (8 :: nat) = CHR 0x08" "char_of (9 :: nat) = CHR 0x09" "char_of (10 :: nat) = CHR 0x0A"
      "char_of (12 :: nat) = CHR 0x0C" "char_of (13 :: nat) = CHR 0x0D" by code_simp+
    ultimately show "ord_of c \<in> {8, 9, 10, 12, 13} \<Longrightarrow> c \<in> {CHR 0x08, CHR 0x09, CHR 0x0A, CHR 0x0C, CHR 0x0D}"
      by fastforce
  qed
  show ?thesis
    using unquote_rune [OF g refl] unquote_plain [of "[c]" t] head r assms ctl
    by (auto simp: escape_char_def unquote_simple simple_escape_def)
qed

lemma unquote_u_escape:
  "unquote (CHR 0x5C # ''ufffd'' @ t) = replacement @ unquote t"
  "unquote (CHR 0x5C # ''u2028'' @ t) = [CHR 0xE2, CHR 0x80, CHR 0xA8] @ unquote t"
  "unquote (CHR 0x5C # ''u2029'' @ t) = [CHR 0xE2, CHR 0x80, CHR 0xA9] @ unquote t"
proof -
  have r: "encode_rune 0xFFFD = replacement" "encode_rune 0x2028 = [CHR 0xE2, CHR 0x80, CHR 0xA8]"
    "encode_rune 0x2029 = [CHR 0xE2, CHR 0x80, CHR 0xA9]"
  proof -
    have "char_of (239 :: nat) = CHR 0xEF" "char_of (191 :: nat) = CHR 0xBF" "char_of (189 :: nat) = CHR 0xBD"
      "char_of (226 :: nat) = CHR 0xE2" "char_of (128 :: nat) = CHR 0x80" "char_of (168 :: nat) = CHR 0xA8"
      "char_of (169 :: nat) = CHR 0xA9" by code_simp+
    then show "encode_rune 0xFFFD = replacement" "encode_rune 0x2028 = [CHR 0xE2, CHR 0x80, CHR 0xA8]"
      "encode_rune 0x2029 = [CHR 0xE2, CHR 0x80, CHR 0xA9]" by (simp_all add: encode_rune_def replacement_def)
  qed
  have g: "getu4 (CHR 0x5C # ''ufffd'' @ t) = Some 0xFFFD" "getu4 (CHR 0x5C # ''u2028'' @ t) = Some 0x2028"
    "getu4 (CHR 0x5C # ''u2029'' @ t) = Some 0x2029"
    by (simp_all add: getu4_def hex_val_def)
  show "unquote (CHR 0x5C # ''ufffd'' @ t) = replacement @ unquote t"
    using unquote_rune [OF g(1) refl] r by simp
  show "unquote (CHR 0x5C # ''u2028'' @ t) = [CHR 0xE2, CHR 0x80, CHR 0xA8] @ unquote t"
    using unquote_rune [OF g(2) refl] r by simp
  show "unquote (CHR 0x5C # ''u2029'' @ t) = [CHR 0xE2, CHR 0x80, CHR 0xA9] @ unquote t"
    using unquote_rune [OF g(3) refl] r by simp
qed

lemma unquote_json_escape: "unquote (json_escape s) = to_valid s"
proof (induction s rule: to_valid.induct)
  case (1 s)
  show ?case
  proof (cases s rule: utf8_cases)
    case empty
    then show ?thesis by (simp add: escape_simps valid_simps unquote.simps [of "[]"])
  next
    case (bad c t)
    with 1(1) have "unquote (json_escape t) = to_valid t" by simp
    with bad show ?thesis by (simp only: escape_simps valid_simps unquote_u_escape)
  next
    case (ascii c t)
    with 1(2) have "unquote (json_escape t) = to_valid t" by simp
    with ascii show ?thesis by (simp add: escape_simps valid_simps unquote_escape_char)
  next
    case (multi u t)
    have ih: "unquote (json_escape t) = to_valid t" using 1(2) multi(1-3) by fastforce
    have u: "u \<noteq> []" "hd u \<noteq> CHR 0x5C" using multi(3,4) by (cases u; auto)+
    have v: "to_valid s = u @ to_valid t" using multi(1,2) u(1) by (simp add: valid_simps)
    note e = escape_simps(4) [of u t, folded multi(1), OF multi(2,3)]
    show ?thesis
    proof (cases "take 3 s \<in> {[CHR 0xE2, CHR 0x80, CHR 0xA8], [CHR 0xE2, CHR 0x80, CHR 0xA9]}")
      case True
      then obtain b r where "s = CHR 0xE2 # CHR 0x80 # b # r" "b \<in> {CHR 0xA8, CHR 0xA9}"
        by (cases s; cases "tl s"; cases "tl (tl s)") auto
      then have "utf8_head s = 3" by (auto simp: utf8_head_def)
      then have "length u = 3" using multi(2) by simp
      then have "drop 3 s = t" "take 3 s = u" using multi(1) by simp_all
      with True e v ih show ?thesis by (auto simp: unquote_u_escape [simplified])
    next
      case False
      with e have "json_escape s = u @ json_escape t" by simp
      then show ?thesis using unquote_plain [OF multi(5) u] v ih by simp
    qed
  qed
qed

text \<open>Text that needs no escape.\<close>

definition plain :: "char \<Rightarrow> bool" where
  "plain c \<longleftrightarrow> 32 \<le> ord_of c \<and> ord_of c < 128 \<and> c \<notin> {CHR ''\"'', CHR 0x5C, CHR ''<'', CHR ''>'', CHR ''&''}"

lemma plain_escape: "list_all plain s \<Longrightarrow> json_escape s = s"
proof (induction s)
  case (Cons c s)
  then have "utf8_head (c # s) = 1" "escape_char c = [c]"
    by (auto simp: plain_def utf8_head_def escape_char_def)
  with Cons show ?case by (simp add: escape_simps)
qed (simp add: escape_simps)

lemma plain_valid: "list_all plain s \<Longrightarrow> to_valid s = s"
proof (induction s)
  case (Cons c s)
  then have "utf8_head (c # s) = 1" by (simp add: plain_def utf8_head_def)
  with Cons show ?case by (simp add: valid_simps)
qed (simp add: valid_simps)

lemma plain_unquote: "list_all plain s \<Longrightarrow> unquote s = s"
  using unquote_json_escape [of s] by (simp add: plain_escape plain_valid)

lemma to_valid_ascii: "c \<in> set s \<Longrightarrow> ord_of c < 128 \<Longrightarrow> c \<in> set (to_valid s)"
proof (induction s rule: to_valid.induct)
  case (1 s)
  show ?case
  proof (cases s rule: utf8_cases)
    case empty
    with 1 show ?thesis by simp
  next
    case (bad b t)
    then have "c \<in> set t" using 1(3,4) by auto
    with 1(1,4) bad show ?thesis by (simp add: valid_simps)
  next
    case (ascii b t)
    with 1 show ?thesis by (auto simp: valid_simps)
  next
    case (multi u t)
    have "c \<in> set u \<or> c \<in> set (to_valid t)" using 1(2-4) multi(1-3) by fastforce
    moreover have "u \<noteq> []" using multi(3) by auto
    then have "to_valid s = u @ to_valid t" using multi(1,2) by (simp add: valid_simps)
    ultimately show ?thesis by simp
  qed
qed

end
