(* ===== verification/Json.thy ===== *)
theory Json
  imports JsonText
begin

text \<open>
  JSON documents as \<open>encoding/json\<close> reads and writes them: values with their literals as they stand in
  the text (a string without its quotes, not yet unescaped), the indented printer of
  \<open>MarshalIndent\<close>, and the scanner of a decoder, a machine with a stack of open containers that stops
  at the end of the first value. The nesting limit is the library's.
\<close>

datatype json =
    JNull
  | JBool bool
  | JNum string
  | JStr string
  | JArr "json list"
  | JObj "(string \<times> json) list"

section \<open>Printing\<close>

definition new_line :: "nat \<Rightarrow> string" where
  "new_line d = CHR 0x0A # replicate (2 * d) (CHR '' '')"

fun separated :: "string \<Rightarrow> string list \<Rightarrow> string" where
  "separated sep [] = []"
| "separated sep [x] = x"
| "separated sep (x # y # xs) = x @ sep @ separated sep (y # xs)"

definition quoted :: "string \<Rightarrow> string" where
  "quoted r = CHR ''\"'' # r @ [CHR ''\"'']"

definition bracketed :: "char \<Rightarrow> char \<Rightarrow> nat \<Rightarrow> string list \<Rightarrow> string" where
  "bracketed l r d xs =
     (if xs = [] then [l, r]
      else l # new_line (d + 1) @ separated (CHR '','' # new_line (d + 1)) xs @ new_line d @ [r])"

fun json_print :: "nat \<Rightarrow> json \<Rightarrow> string" where
  "json_print d JNull = ''null''"
| "json_print d (JBool b) = (if b then ''true'' else ''false'')"
| "json_print d (JNum n) = n"
| "json_print d (JStr s) = quoted s"
| "json_print d (JArr xs) = bracketed (CHR ''['') (CHR '']'') d (map (json_print (d + 1)) xs)"
| "json_print d (JObj ms) =
     bracketed (CHR ''{'') (CHR ''}'') d (map (\<lambda>(k, v). quoted k @ '': '' @ json_print (d + 1) v) ms)"

section \<open>Tokens\<close>

datatype token = LBrace | RBrace | LBrack | RBrack | Colon | Comma | Scalar json

definition json_ws :: "char \<Rightarrow> bool" where
  "json_ws c \<longleftrightarrow> c \<in> {CHR '' '', CHR 0x09, CHR 0x0D, CHR 0x0A}"

definition digit :: "char \<Rightarrow> bool" where
  "digit c \<longleftrightarrow> digit_val c \<noteq> None"

text \<open>The optional parts of a number: the literal read so far and the rest of the text.\<close>

definition scan_fraction :: "string \<Rightarrow> (string \<times> string) option" where
  "scan_fraction s =
     (if s \<noteq> [] \<and> hd s = CHR ''.'' then
        (if takeWhile digit (tl s) = [] then None
         else Some (CHR ''.'' # takeWhile digit (tl s), dropWhile digit (tl s)))
      else Some ([], s))"

definition scan_exponent :: "string \<Rightarrow> (string \<times> string) option" where
  "scan_exponent s =
     (if s \<noteq> [] \<and> hd s \<in> {CHR ''e'', CHR ''E''} then
        (let sg = (if tl s \<noteq> [] \<and> hd (tl s) \<in> {CHR ''+'', CHR ''-''} then [hd (tl s)] else []);
             t = drop (length sg) (tl s)
         in if takeWhile digit t = [] then None
            else Some (hd s # sg @ takeWhile digit t, dropWhile digit t))
      else Some ([], s))"

definition scan_unsigned :: "string \<Rightarrow> (string \<times> string) option" where
  "scan_unsigned t =
     (let i = (if t \<noteq> [] \<and> hd t = CHR ''0'' then ''0'' else takeWhile digit t)
      in if i = [] then None
         else (case scan_fraction (drop (length i) t) of None \<Rightarrow> None | Some (f, u) \<Rightarrow>
              (case scan_exponent u of None \<Rightarrow> None | Some (e, v) \<Rightarrow> Some (i @ f @ e, v))))"

definition scan_number :: "string \<Rightarrow> (string \<times> string) option" where
  "scan_number s =
     (if s \<noteq> [] \<and> hd s = CHR ''-'' then map_option (apfst ((#) (CHR ''-''))) (scan_unsigned (tl s))
      else scan_unsigned s)"

definition strip_word :: "string \<Rightarrow> json \<Rightarrow> string \<Rightarrow> (token \<times> string) option" where
  "strip_word w v s = (if take (length w) s = w then Some (Scalar v, drop (length w) s) else None)"

definition next_token :: "string \<Rightarrow> (token \<times> string) option" where
  "next_token s0 =
     (case dropWhile json_ws s0 of [] \<Rightarrow> None
      | c # s \<Rightarrow>
          if c = CHR ''{'' then Some (LBrace, s) else if c = CHR ''}'' then Some (RBrace, s)
          else if c = CHR ''['' then Some (LBrack, s) else if c = CHR '']'' then Some (RBrack, s)
          else if c = CHR '':'' then Some (Colon, s) else if c = CHR '','' then Some (Comma, s)
          else if c = CHR ''\"'' then map_option (\<lambda>(r, t). (Scalar (JStr r), t)) (scan_string s)
          else if c = CHR ''t'' then strip_word ''true'' (JBool True) (c # s)
          else if c = CHR ''f'' then strip_word ''false'' (JBool False) (c # s)
          else if c = CHR ''n'' then strip_word ''null'' JNull (c # s)
          else map_option (\<lambda>(n, t). (Scalar (JNum n), t)) (scan_number (c # s)))"

section \<open>The machine\<close>

text \<open>An open container with what it holds so far, newest first, and what may come next.\<close>

datatype frame = InArr "json list" | InObj "(string \<times> json) list" string

datatype expect =
    Value | ValueOrEnd | AfterElem "json list"
  | KeyOrEnd "(string \<times> json) list" | Key "(string \<times> json) list"
  | ColonOf "(string \<times> json) list" string | AfterMember "(string \<times> json) list"

datatype outcome = Bad | Done json | Next "frame list" expect

definition max_depth :: nat where "max_depth = 10000"

fun finished :: "json \<Rightarrow> frame list \<Rightarrow> outcome" where
  "finished v [] = Done v"
| "finished v (InArr xs # st) = Next st (AfterElem (v # xs))"
| "finished v (InObj ms k # st) = Next st (AfterMember ((k, v) # ms))"

fun begin_value :: "frame list \<Rightarrow> token \<Rightarrow> outcome" where
  "begin_value st (Scalar v) = finished v st"
| "begin_value st LBrace = (if max_depth \<le> length st then Bad else Next st (KeyOrEnd []))"
| "begin_value st LBrack = (if max_depth \<le> length st then Bad else Next st ValueOrEnd)"
| "begin_value st t = Bad"

fun machine :: "frame list \<Rightarrow> expect \<Rightarrow> token \<Rightarrow> outcome" where
  "machine st Value t = begin_value st t"
| "machine st ValueOrEnd t = (if t = RBrack then finished (JArr []) st else begin_value (InArr [] # st) t)"
| "machine st (AfterElem xs) Comma = Next (InArr xs # st) Value"
| "machine st (AfterElem xs) RBrack = finished (JArr (rev xs)) st"
| "machine st (KeyOrEnd ms) RBrace = finished (JObj (rev ms)) st"
| "machine st (KeyOrEnd ms) (Scalar (JStr k)) = Next st (ColonOf ms k)"
| "machine st (Key ms) (Scalar (JStr k)) = Next st (ColonOf ms k)"
| "machine st (ColonOf ms k) Colon = Next (InObj ms k # st) Value"
| "machine st (AfterMember ms) Comma = Next st (Key ms)"
| "machine st (AfterMember ms) RBrace = finished (JObj (rev ms)) st"
| "machine st x t = Bad"

text \<open>Every token is a part of the text, which ends the loop.\<close>

lemma scan_string_shorter: "scan_string s = Some (r, t) \<Longrightarrow> length t < length s"
proof (induction s arbitrary: r rule: scan_string.induct)
  case (2 c s)
  show ?case
  proof (cases "c = CHR 0x5C")
    case True
    then obtain e u where s: "s = e # u" using "2.prems" by (cases s) auto
    show ?thesis
    proof (cases "e \<in> set escape_letters")
      case e: True
      then obtain q where "scan_string u = Some (q, t)" using True s "2.prems" by auto
      then show ?thesis using "2.IH"(1) [OF _ _ True s e] True s by fastforce
    next
      case False
      then obtain a b d f v q where "u = a # b # d # f # v" "scan_string v = Some (q, t)"
        using True s "2.prems" by (auto split: if_splits list.splits)
      then show ?thesis using "2.IH"(2) True s False "2.prems" by (fastforce split: if_splits)
    qed
  next
    case False
    then show ?thesis using 2 by (fastforce split: if_splits)
  qed
qed simp

lemma scan_rest_le:
  "scan_fraction s = Some (f, t) \<Longrightarrow> length t \<le> length s"
  "scan_exponent s = Some (f, t) \<Longrightarrow> length t \<le> length s"
  by (auto simp: scan_fraction_def scan_exponent_def Let_def length_dropWhile_le le_diff_conv
      intro: le_trans [OF length_dropWhile_le] split: if_splits)

lemma scan_number_shorter:
  assumes "scan_number s = Some (n, t)"
  shows "length t < length s"
proof -
  have u: "length t < length u" if su: "scan_unsigned u = Some (m, t)" for u m
  proof -
    define i where "i = (if u \<noteq> [] \<and> hd u = CHR ''0'' then ''0'' else takeWhile digit u)"
    obtain f v where f: "i \<noteq> []" "scan_fraction (drop (length i) u) = Some (f, v)" "\<exists>e. scan_exponent v = Some (e, t)"
      using su unfolding scan_unsigned_def Let_def i_def [symmetric]
      by (auto split: if_splits option.splits)
    then have "length t \<le> length u - length i" using scan_rest_le by fastforce
    moreover have "u \<noteq> []" using f(1) by (auto simp: i_def)
    ultimately show ?thesis using f(1) by (cases u; cases i) auto
  qed
  show ?thesis using assms u [of "tl s"] u [of s] by (cases s) (auto simp: scan_number_def split: if_splits)
qed

lemma next_token_shorter:
  assumes "next_token s = Some (t, r)"
  shows "length r < length s"
proof -
  obtain c u where c: "dropWhile json_ws s = c # u" using assms by (auto simp: next_token_def split: list.splits)
  then have "length r < length (c # u)"
    using assms scan_string_shorter [of u] scan_number_shorter [of "c # u"]
    by (auto simp: next_token_def strip_word_def split: if_splits)
  moreover have "length (c # u) \<le> length s" using length_dropWhile_le [of json_ws s] by (simp add: c)
  ultimately show ?thesis by simp
qed

function json_value :: "frame list \<Rightarrow> expect \<Rightarrow> string \<Rightarrow> (json \<times> string) option" where
  "json_value st x s =
     (case next_token s of None \<Rightarrow> None
      | Some (t, r) \<Rightarrow>
          (case machine st x t of
             Bad \<Rightarrow> None
           | Done v \<Rightarrow> Some (v, r)
           | Next st' x' \<Rightarrow> json_value st' x' r))"
  by pat_completeness auto
termination
  by (relation "measure (\<lambda>(st, x, s). length s)") (auto dest: next_token_shorter)

declare json_value.simps [simp del]

definition json_parse :: "string \<Rightarrow> (json \<times> string) option" where
  "json_parse s = json_value [] Value s"

section \<open>Reading what was printed\<close>

text \<open>Integer literals, the numbers of the journal.\<close>

definition int_text :: "int \<Rightarrow> string" where
  "int_text n = (if n < 0 then CHR ''-'' # itoa (nat (- n)) else itoa (nat n))"

definition escaped :: "string \<Rightarrow> bool" where
  "escaped r \<longleftrightarrow> (\<exists>s. r = json_escape s)"

fun printable :: "json \<Rightarrow> bool" where
  "printable (JNum n) \<longleftrightarrow> (\<exists>k. n = int_text k)"
| "printable (JStr r) \<longleftrightarrow> escaped r"
| "printable (JArr xs) \<longleftrightarrow> (\<forall>x \<in> set xs. printable x)"
| "printable (JObj ms) \<longleftrightarrow> (\<forall>m \<in> set ms. escaped (fst m) \<and> printable (snd m))"
| "printable _ \<longleftrightarrow> True"

fun json_depth :: "json \<Rightarrow> nat" where
  "json_depth (JArr xs) = Suc (foldr max (map json_depth xs) 0)"
| "json_depth (JObj ms) = Suc (foldr max (map (\<lambda>m. json_depth (snd m)) ms) 0)"
| "json_depth _ = 0"

lemma depth_member: "x \<in> set xs \<Longrightarrow> f x \<le> foldr max (map f xs) (0 :: nat)"
  by (induction xs) auto

subsection \<open>Tokens\<close>

text \<open>A number ends where no digit, point or exponent follows.\<close>

definition stops :: "string \<Rightarrow> bool" where
  "stops r \<longleftrightarrow> r = [] \<or> \<not> (digit (hd r) \<or> hd r \<in> {CHR ''.'', CHR ''e'', CHR ''E''})"

lemma token_ws: "json_ws c \<Longrightarrow> next_token (c # s) = next_token s"
  by (simp add: next_token_def)

lemma token_new_line: "next_token (new_line d @ s) = next_token s"
proof -
  have "dropWhile json_ws (replicate n (CHR '' '') @ s) = dropWhile json_ws s" for n
    by (induction n) (simp_all add: json_ws_def)
  then show ?thesis by (simp add: next_token_def new_line_def json_ws_def)
qed

lemma token_quoted: "escaped k \<Longrightarrow> next_token (quoted k @ r) = Some (Scalar (JStr k), r)"
  by (auto simp: next_token_def quoted_def json_ws_def escaped_def scan_json_escape)

lemma token_punct:
  "next_token (CHR ''{'' # s) = Some (LBrace, s)" "next_token (CHR ''}'' # s) = Some (RBrace, s)"
  "next_token (CHR ''['' # s) = Some (LBrack, s)" "next_token (CHR '']'' # s) = Some (RBrack, s)"
  "next_token (CHR '':'' # s) = Some (Colon, s)" "next_token (CHR '','' # s) = Some (Comma, s)"
  by (simp_all add: next_token_def json_ws_def)

lemma digit_char_digit: "d < 10 \<Longrightarrow> digit (digit_char d)"
  by (simp add: digit_def digit_val_char)

lemma itoa_all_digits: "list_all digit (itoa n)"
  using itoa_digits [of n] by (auto simp: list_all_iff intro!: digit_char_digit)

lemma itoa_zero: "hd (itoa n) = CHR ''0'' \<Longrightarrow> itoa n = ''0''"
proof -
  assume "hd (itoa n) = CHR ''0''"
  then have "n = 0"
  proof (induction n rule: itoa.induct)
    case (1 n)
    show ?case
    proof (cases "n < 10")
      case True
      with 1(2) digit_char_inj [of n 0] show ?thesis by (simp add: itoa.simps [of n] digit_char_zero)
    next
      case False
      with 1 show ?thesis by (simp add: itoa.simps [of n])
    qed
  qed
  then show ?thesis by (simp add: itoa.simps [of 0] digit_char_zero)
qed

lemma scan_rest_stops: "stops r \<Longrightarrow> scan_fraction r = Some ([], r)" "stops r \<Longrightarrow> scan_exponent r = Some ([], r)"
  by (auto simp: stops_def scan_fraction_def scan_exponent_def)

lemma itoa_first: "digit (hd (itoa n @ r))" "itoa n @ r \<noteq> []"
  using itoa_all_digits [of n] by (cases "itoa n"; simp)+

lemma scan_unsigned_itoa:
  assumes "stops r"
  shows "scan_unsigned (itoa n @ r) = Some (itoa n, r)"
proof -
  have "\<forall>x \<in> set (itoa n). digit x" using itoa_all_digits [of n] by (simp add: list_all_iff)
  then have "takeWhile digit (itoa n @ r) = itoa n"
    using assms by (cases r) (auto simp: stops_def takeWhile_append)
  then have i: "(if itoa n @ r \<noteq> [] \<and> hd (itoa n @ r) = CHR ''0'' then ''0'' else takeWhile digit (itoa n @ r)) = itoa n"
    using itoa_zero [of n] by (auto simp: hd_append)
  show ?thesis unfolding scan_unsigned_def i by (simp add: scan_rest_stops [OF assms])
qed

lemma number_starts: "digit c \<or> c = CHR ''-'' \<Longrightarrow> \<not> json_ws c \<and> c \<notin> {CHR ''{'', CHR ''}'', CHR ''['', CHR '']'', CHR '':'', CHR '','',
      CHR ''\"'', CHR ''t'', CHR ''f'', CHR ''n''}"
  by (auto simp: digit_def digit_val_def json_ws_def)

lemma token_number:
  assumes "scan_number (c # u) = Some (n, r)" and "digit c \<or> c = CHR ''-''"
  shows "next_token (c # u) = Some (Scalar (JNum n), r)"
  using number_starts [OF assms(2)] assms(1) by (simp add: next_token_def)

lemma token_int:
  assumes "stops r"
  shows "next_token (int_text k @ r) = Some (Scalar (JNum (int_text k)), r)"
proof (cases "k < 0")
  case True
  have "scan_number (CHR ''-'' # itoa (nat (- k)) @ r) = Some (CHR ''-'' # itoa (nat (- k)), r)"
    by (simp add: scan_number_def scan_unsigned_itoa [OF assms])
  from token_number [OF this] True show ?thesis by (simp add: int_text_def)
next
  case False
  obtain c u where c: "itoa (nat k) @ r = c # u" using itoa_first(2) by (meson neq_Nil_conv)
  then have d: "digit c" using itoa_first(1) [of "nat k" r] by simp
  then have "c \<noteq> CHR ''-''" by (auto simp: digit_def digit_val_def)
  then have "scan_number (c # u) = Some (itoa (nat k), r)"
    using scan_unsigned_itoa [OF assms, of "nat k"] by (simp add: scan_number_def c)
  from token_number [OF this] d c False show ?thesis by (simp add: int_text_def)
qed

lemma token_words:
  "next_token (''true'' @ r) = Some (Scalar (JBool True), r)"
  "next_token (''false'' @ r) = Some (Scalar (JBool False), r)"
  "next_token (''null'' @ r) = Some (Scalar JNull, r)"
  by (simp_all add: next_token_def json_ws_def strip_word_def)

subsection \<open>Documents\<close>

fun proceed :: "outcome \<Rightarrow> string \<Rightarrow> (json \<times> string) option" where
  "proceed Bad r = None"
| "proceed (Done v) r = Some (v, r)"
| "proceed (Next st x) r = json_value st x r"

lemma value_step: "next_token s = Some (t, r) \<Longrightarrow> json_value st x s = proceed (machine st x t) r"
  by (subst json_value.simps) (simp split: outcome.split)

lemma value_skip: "next_token s = next_token s' \<Longrightarrow> json_value st x s = json_value st x s'"
  by (simp add: json_value.simps [of st x s] json_value.simps [of st x s'])

lemma stops_simps [simp]:
  "stops (new_line d @ s)" "stops (CHR '','' # s)" "stops (CHR '']'' # s)" "stops (CHR ''}'' # s)" "stops []"
  by (simp_all add: stops_def new_line_def digit_def digit_val_def)

definition reads_back :: "nat \<Rightarrow> json \<Rightarrow> bool" where
  "reads_back d v \<longleftrightarrow> (\<forall>st r. stops r \<longrightarrow> json_depth v + length st \<le> max_depth \<longrightarrow>
     json_value st Value (json_print d v @ r) = proceed (finished v st) r)"

lemma read_elems:
  assumes "xs \<noteq> []" and "\<forall>x \<in> set xs. reads_back d x \<and> json_depth x + Suc (length st) \<le> max_depth"
  shows "json_value (InArr acc # st) Value
      (separated (CHR '','' # new_line d) (map (json_print d) xs) @ new_line e @ CHR '']'' # r)
    = proceed (finished (JArr (rev acc @ xs)) st) r"
  using assms
proof (induction xs arbitrary: acc rule: induct_list012)
  case (2 x)
  then have "json_value (InArr acc # st) Value (json_print d x @ new_line e @ CHR '']'' # r)
      = json_value st (AfterElem (x # acc)) (new_line e @ CHR '']'' # r)"
    by (simp add: reads_back_def)
  also have "\<dots> = proceed (finished (JArr (rev (x # acc))) st) r"
    by (subst value_step [of _ RBrack r]) (simp_all add: token_new_line token_punct)
  finally show ?case by simp
next
  case (3 x y xs)
  let ?rest = "separated (CHR '','' # new_line d) (map (json_print d) (y # xs)) @ new_line e @ CHR '']'' # r"
  have "json_value (InArr acc # st) Value (json_print d x @ CHR '','' # new_line d @ ?rest)
      = json_value st (AfterElem (x # acc)) (CHR '','' # new_line d @ ?rest)"
    using 3 by (simp add: reads_back_def)
  also have "\<dots> = json_value (InArr (x # acc) # st) Value (new_line d @ ?rest)"
    by (subst value_step [OF token_punct(6)]) simp
  also have "\<dots> = json_value (InArr (x # acc) # st) Value ?rest"
    by (rule value_skip) (rule token_new_line)
  also have "\<dots> = proceed (finished (JArr (rev (x # acc) @ (y # xs))) st) r"
    by (rule "3.IH"(2)) (use 3 in simp_all)
  finally show ?case by simp
qed simp

abbreviation print_member :: "nat \<Rightarrow> string \<times> json \<Rightarrow> string" where
  "print_member d m \<equiv> (case m of (k, v) \<Rightarrow> quoted k @ '': '' @ json_print d v)"

lemma read_member:
  assumes "escaped k" and "reads_back d v" and "json_depth v + Suc (length st) \<le> max_depth" and "x \<in> {Key acc, KeyOrEnd acc}" and "stops r"
  shows "json_value st x (quoted k @ '': '' @ json_print d v @ r)
    = json_value st (AfterMember ((k, v) # acc)) r"
proof -
  have "json_value st x (quoted k @ '': '' @ json_print d v @ r)
      = json_value st (ColonOf acc k) ('': '' @ json_print d v @ r)"
    using assms(4) by (subst value_step [OF token_quoted [OF assms(1)]]) auto
  also have "\<dots> = json_value (InObj acc k # st) Value (CHR '' '' # json_print d v @ r)"
    using value_step [OF token_punct(5)] by simp
  also have "\<dots> = json_value (InObj acc k # st) Value (json_print d v @ r)"
    by (rule value_skip) (simp add: token_ws json_ws_def)
  also have "\<dots> = json_value st (AfterMember ((k, v) # acc)) r"
    using assms(2,3,5) by (simp add: reads_back_def)
  finally show ?thesis .
qed

lemma read_members:
  assumes "ms \<noteq> []" and "\<forall>m \<in> set ms. escaped (fst m) \<and> reads_back d (snd m) \<and> json_depth (snd m) + Suc (length st) \<le> max_depth"
    and "x \<in> {Key acc, KeyOrEnd acc}"
  shows "json_value st x
      (separated (CHR '','' # new_line d) (map (print_member d) ms) @ new_line e @ CHR ''}'' # r)
    = proceed (finished (JObj (rev acc @ ms)) st) r"
  using assms
proof (induction ms arbitrary: acc x rule: induct_list012)
  case (2 m)
  then have "json_value st x (print_member d m @ new_line e @ CHR ''}'' # r)
      = json_value st (AfterMember (m # acc)) (new_line e @ CHR ''}'' # r)"
    using read_member [of "fst m" d "snd m" st x acc "new_line e @ CHR ''}'' # r"] by (simp add: split_beta)
  also have "\<dots> = proceed (finished (JObj (rev (m # acc))) st) r"
    by (subst value_step [of _ RBrace r]) (simp_all add: token_new_line token_punct)
  finally show ?case by simp
next
  case (3 m m' ms)
  let ?rest = "separated (CHR '','' # new_line d) (map (print_member d) (m' # ms)) @ new_line e @ CHR ''}'' # r"
  have "json_value st x (print_member d m @ CHR '','' # new_line d @ ?rest)
      = json_value st (AfterMember (m # acc)) (CHR '','' # new_line d @ ?rest)"
    using 3 read_member [of "fst m" d "snd m" st x acc "CHR '','' # new_line d @ ?rest"] by (simp add: split_beta)
  also have "\<dots> = json_value st (Key (m # acc)) (new_line d @ ?rest)"
    by (subst value_step [OF token_punct(6)]) simp
  also have "\<dots> = json_value st (Key (m # acc)) ?rest"
    by (rule value_skip) (rule token_new_line)
  also have "\<dots> = proceed (finished (JObj (rev (m # acc) @ (m' # ms))) st) r"
    by (rule "3.IH"(2)) (use 3 in simp_all)
  finally show ?case by simp
qed simp

lemma first_token: "printable v \<Longrightarrow> stops r \<Longrightarrow> \<exists>t u. next_token (json_print d v @ r) = Some (t, u) \<and> t \<noteq> RBrack"
proof (cases v)
  case (JBool b)
  then show ?thesis using token_words(1,2) [of r] by (cases b) simp_all
next
  case (JArr xs)
  then show ?thesis by (cases "xs = []") (simp_all add: bracketed_def token_punct)
next
  case (JObj ms)
  then show ?thesis by (cases "ms = []") (simp_all add: bracketed_def token_punct)
qed (use token_words(3) [of r] token_quoted token_int in \<open>auto simp del: append_Cons\<close>)

lemma value_or_end:
  assumes "next_token s = Some (t, u)" and "t \<noteq> RBrack"
  shows "json_value st ValueOrEnd s = json_value (InArr [] # st) Value s"
  using assms(2) by (simp add: value_step [OF assms(1)])

lemma first_elem:
  assumes "xs \<noteq> []" and "\<forall>x \<in> set xs. printable x"
  shows "json_value st ValueOrEnd
      (new_line d @ separated (CHR '','' # new_line d) (map (json_print d) xs) @ new_line e @ CHR '']'' # r)
    = json_value (InArr [] # st) Value
      (separated (CHR '','' # new_line d) (map (json_print d) xs) @ new_line e @ CHR '']'' # r)"
proof -
  obtain x ys where xs: "xs = x # ys" using assms(1) by (cases xs) auto
  define r' where "r' = (case ys of [] \<Rightarrow> new_line e @ CHR '']'' # r
    | _ \<Rightarrow> CHR '','' # new_line d @ separated (CHR '','' # new_line d) (map (json_print d) ys) @ new_line e @ CHR '']'' # r)"
  have s: "separated (CHR '','' # new_line d) (map (json_print d) xs) @ new_line e @ CHR '']'' # r = json_print d x @ r'"
    by (cases ys) (simp_all add: xs r'_def)
  have "stops r'" by (simp add: r'_def split: list.split)
  with first_token [of x r' d] assms(2) obtain t u where "next_token (json_print d x @ r') = Some (t, u)" "t \<noteq> RBrack"
    by (auto simp: xs)
  from value_or_end [OF this, of st] show ?thesis
    unfolding s by (simp add: value_skip [OF token_new_line])
qed

text \<open>What a decoder makes of a printed document, whatever follows it.\<close>

lemma print_reads_back: "printable v \<Longrightarrow> reads_back d v"
proof (induction d v rule: json_print.induct)
  case (2 d b)
  show ?case using token_words(1,2) by (cases b) (simp_all add: reads_back_def value_step)
next
  case (5 d xs)
  have ih: "\<forall>x \<in> set xs. reads_back (d + 1) x" using 5 by simp
  show ?case unfolding reads_back_def
  proof (intro allI impI)
    fix st :: "frame list" and r assume dep: "json_depth (JArr xs) + length st \<le> max_depth"
    have "json_depth x + Suc (length st) \<le> max_depth" if "x \<in> set xs" for x
      using depth_member [OF that, of json_depth] dep by simp
    moreover have "\<not> max_depth \<le> length st" using dep by simp
    ultimately show "json_value st Value (json_print d (JArr xs) @ r) = proceed (finished (JArr xs) st) r"
      using ih read_elems [of xs "d + 1" st "[]" d r] first_elem [of xs st "d + 1" d r] "5.prems"
      by (cases "xs = []") (simp_all add: bracketed_def value_step [OF token_punct(3)] value_step [OF token_punct(4)])
  qed
next
  case (6 d ms)
  have ih: "\<forall>m \<in> set ms. escaped (fst m) \<and> reads_back (d + 1) (snd m)" using 6 by fastforce
  show ?case unfolding reads_back_def
  proof (intro allI impI)
    fix st :: "frame list" and r assume dep: "json_depth (JObj ms) + length st \<le> max_depth"
    have "json_depth (snd m) + Suc (length st) \<le> max_depth" if "m \<in> set ms" for m
      using depth_member [OF that, of "\<lambda>m. json_depth (snd m)"] dep by simp
    moreover have "\<not> max_depth \<le> length st" using dep by simp
    ultimately show "json_value st Value (json_print d (JObj ms) @ r) = proceed (finished (JObj ms) st) r"
      using ih read_members [of ms "d + 1" st "KeyOrEnd []" "[]" d r]
      by (cases "ms = []") (simp_all add: bracketed_def value_step [OF token_punct(1)] value_step [OF token_punct(2)]
          value_skip [OF token_new_line])
  qed
qed (use token_words(3) token_int token_quoted in \<open>auto simp: reads_back_def value_step\<close>)

lemma json_parse_print:
  assumes "printable v" and "json_depth v \<le> max_depth" and "stops r"
  shows "json_parse (json_print d v @ r) = Some (v, r)"
  using print_reads_back [OF assms(1), of d] assms(2,3) by (simp add: reads_back_def json_parse_def)

end
