(* ===== verification/Rfc3339.thy ===== *)
theory Rfc3339
  imports Prelude
begin

text \<open>
  The text of a \<open>time.Time\<close> in a JSON document, for the creation time of a journal. An instant is
  the number of nanoseconds since 1970 in UTC; the calendar is the proleptic Gregorian one, as in
  package \<open>time\<close>. The text is written in a time zone, which shows as an offset, and read by the
  strict parser; what that refuses goes to the general layout parser, an argument here.
\<close>

section \<open>The calendar\<close>

definition leap :: "int \<Rightarrow> bool" where
  "leap y \<longleftrightarrow> 4 dvd y \<and> (\<not> 100 dvd y \<or> 400 dvd y)"

definition year_len :: "int \<Rightarrow> int" where
  "year_len y = (if leap y then 366 else 365)"

definition month_len :: "int \<Rightarrow> nat \<Rightarrow> int" where
  "month_len y m = (if m = 2 then if leap y then 29 else 28 else if m \<in> {4, 6, 9, 11} then 30 else 31)"

text \<open>The days from the start of year 0 to the start of a year, and within the year to a month.\<close>

definition days_before_year :: "int \<Rightarrow> int" where
  "days_before_year y = 365 * y + (y + 3) div 4 - (y + 99) div 100 + (y + 399) div 400"

fun days_before_month :: "int \<Rightarrow> nat \<Rightarrow> int" where
  "days_before_month y 0 = 0"
| "days_before_month y (Suc m) = (if m = 0 then 0 else days_before_month y m + month_len y m)"

definition days_of :: "int \<Rightarrow> nat \<Rightarrow> int \<Rightarrow> int" where
  "days_of y m d = days_before_year y + days_before_month y m + d - 1 - 719528"

text \<open>The date of a day: the year by whole cycles of 400 and then year by year, the month one by one.\<close>

function year_from :: "int \<Rightarrow> int \<Rightarrow> int \<times> int" where
  "year_from y d = (if d < year_len y then (y, d) else year_from (y + 1) (d - year_len y))"
  by pat_completeness auto
termination
  by (relation "measure (\<lambda>(y, d). nat d)") (auto simp: year_len_def split: if_splits)

declare year_from.simps [simp del]

function month_from :: "int \<Rightarrow> nat \<Rightarrow> int \<Rightarrow> nat \<times> int" where
  "month_from y m d = (if 12 \<le> m \<or> d < month_len y m then (m, d) else month_from y (m + 1) (d - month_len y m))"
  by pat_completeness auto
termination
  by (relation "measure (\<lambda>(y, m, d). 12 - m)") auto

declare month_from.simps [simp del]

definition date_of :: "int \<Rightarrow> int \<times> nat \<times> int" where
  "date_of n = (let d = n + 719528;
                    (y, r) = year_from (400 * (d div 146097)) (d mod 146097);
                    (m, q) = month_from y 1 r
                in (y, m, q + 1))"

lemma next_div:
  fixes z k l :: int
  assumes "0 < k" and "l = k - 1"
  shows "(z + 1 + l) div k = (z + l) div k + (if k dvd z then 1 else 0)"
proof -
  define q r where "q = z div k" and "r = z mod k"
  then have z: "z = q * k + r" and r: "0 \<le> r" "r < k" and d: "k dvd z \<longleftrightarrow> r = 0"
    using assms by (simp_all add: dvd_eq_mod_eq_0)
  have e: "z + 1 + l = r + (q + 1) * k" "r = 0 \<Longrightarrow> z + l = (k - 1) + q * k" "z + l = (r - 1) + (q + 1) * k"
    using z assms(2) by (auto simp: algebra_simps)
  have v: "(x + y * k) div k = y" if "0 \<le> x" "x < k" for x y
    using that by simp
  have "(z + 1 + l) div k = q + 1" unfolding e(1) using r by (rule v)
  moreover have "(z + l) div k = q" if "r = 0" unfolding e(2) [OF that] using assms(1) by (intro v) simp_all
  moreover have "(z + l) div k = q + 1" if "r \<noteq> 0" unfolding e(3) using r that by (intro v) simp_all
  ultimately show ?thesis using d by simp
qed

lemma days_before_Suc: "days_before_year (y + 1) = days_before_year y + year_len y"
proof -
  have n: "(y + 1 + 3) div 4 = (y + 3) div 4 + (if 4 dvd y then 1 else 0)"
    "(y + 1 + 99) div 100 = (y + 99) div 100 + (if 100 dvd y then 1 else 0)"
    "(y + 1 + 399) div 400 = (y + 399) div 400 + (if 400 dvd y then 1 else 0)"
    by (rule next_div; simp)+
  have "(4 :: int) dvd 100" "(100 :: int) dvd 400" by simp_all
  then have "4 dvd y \<or> \<not> 100 dvd y" "100 dvd y \<or> \<not> 400 dvd y" by (blast intro: dvd_trans)+
  moreover have "365 * (y + 1) + (a + (if P then 1 else 0)) - (b + (if Q then 1 else 0)) + (c + (if R then 1 else 0))
      = 365 * y + a - b + c + (if P \<and> (\<not> Q \<or> R) then 366 else 365)"
    if "P \<or> \<not> Q" "Q \<or> \<not> R" for a b c :: int and P Q R
    using that by auto
  ultimately show ?thesis unfolding days_before_year_def year_len_def leap_def n by blast
qed

lemma days_before_cycle: "days_before_year (400 * c) = 146097 * c"
proof -
  have "(400 * c + 3) div 4 = 100 * c" "(400 * c + 99) div 100 = 4 * c" "(400 * c + 399) div 400 = c"
    using div_mult_self1 [of 4 3 "100 * c"] div_mult_self1 [of 100 99 "4 * c"] div_mult_self1 [of 400 399 c]
    by (simp_all add: add.commute)
  then show ?thesis by (simp add: days_before_year_def)
qed

lemma year_from_inv:
  assumes "0 \<le> d" and "year_from y d = (y', r)"
  shows "0 \<le> r \<and> r < year_len y' \<and> days_before_year y' + r = days_before_year y + d"
  using assms
proof (induction y d rule: year_from.induct)
  case (1 y d)
  show ?case
  proof (cases "d < year_len y")
    case True
    with 1 show ?thesis by (simp add: year_from.simps)
  next
    case False
    with 1 show ?thesis by (auto simp: year_from.simps [of y d] days_before_Suc)
  qed
qed

lemma year_months: "days_before_month y 12 + month_len y 12 = year_len y"
  by (simp add: numeral_eq_Suc month_len_def year_len_def)

lemma month_from_inv:
  assumes "1 \<le> m" and "m \<le> 12" and "0 \<le> d" and "days_before_month y m + d < year_len y"
    and "month_from y m d = (m', r)"
  shows "1 \<le> m' \<and> m' \<le> 12 \<and> 0 \<le> r \<and> r < month_len y m'
    \<and> days_before_month y m' + r = days_before_month y m + d"
  using assms
proof (induction y m d rule: month_from.induct)
  case (1 y m d)
  show ?case
  proof (cases "12 \<le> m \<or> d < month_len y m")
    case True
    then have "d < month_len y m" using 1(3,5) year_months [of y] by (cases "m = 12") auto
    with 1 True show ?thesis by (auto simp: month_from.simps [of y m d])
  next
    case False
    then have "days_before_month y (m + 1) = days_before_month y m + month_len y m" using 1(2) by simp
    with 1 False show ?thesis by (auto simp: month_from.simps [of y m d])
  qed
qed

lemma date_of_days:
  assumes "date_of n = (y, m, d)"
  shows "days_of y m d = n \<and> 1 \<le> m \<and> m \<le> 12 \<and> 1 \<le> d \<and> d \<le> month_len y m"
proof -
  let ?d = "n + 719528"
  obtain y' r where yr: "year_from (400 * (?d div 146097)) (?d mod 146097) = (y', r)" by fastforce
  obtain m' q where mq: "month_from y' 1 r = (m', q)" by fastforce
  have "0 \<le> ?d mod 146097" by simp
  from year_from_inv [OF this yr] have i: "0 \<le> r" "r < year_len y'" "days_before_year y' + r = ?d"
    using mult_div_mod_eq [of 146097 ?d] by (auto simp: days_before_cycle)
  have "days_before_month y' 1 + r < year_len y'" using i by simp
  from month_from_inv [OF _ _ i(1) this mq] show ?thesis
    using i assms yr mq by (auto simp: date_of_def Let_def days_of_def)
qed

lemma month_len_bound: "month_len y m \<le> 31"
  by (simp add: month_len_def)

section \<open>The text\<close>

abbreviation billion :: int where "billion \<equiv> 1000000000"

fun padn :: "nat \<Rightarrow> nat \<Rightarrow> string" where
  "padn 0 n = []"
| "padn (Suc k) n = padn k (n div 10) @ [digit_char (n mod 10)]"

text \<open>The fraction of a second without trailing zeros, and the offset in whole minutes.\<close>

definition fraction_text :: "nat \<Rightarrow> string" where
  "fraction_text ns = (if ns = 0 then [] else CHR ''.'' # rev (dropWhile ((=) (CHR ''0'')) (rev (padn 9 ns))))"

definition zone_text :: "int \<Rightarrow> string" where
  "zone_text off =
     (if off = 0 then ''Z''
      else let z = sgn off * (\<bar>off\<bar> div 60); a = nat \<bar>z\<bar> in
        (if z < 0 then CHR ''-'' else CHR ''+'') # padn 2 (a div 60) @ CHR '':'' # padn 2 (a mod 60))"

definition clock_text :: "int \<Rightarrow> string" where
  "clock_text s = padn 2 (nat (s div 3600)) @ CHR '':'' # padn 2 (nat (s div 60 mod 60)) @ CHR '':'' # padn 2 (nat (s mod 60))"

text \<open>A year outside of 0 to 9999 or an offset of a day or more is refused.\<close>

definition rfc3339_text :: "int \<Rightarrow> int \<Rightarrow> string option" where
  "rfc3339_text off x =
     (let s = x div billion + off; (y, m, d) = date_of (s div 86400) in
      if 0 \<le> y \<and> y \<le> 9999 \<and> \<bar>off\<bar> < 86400 then
        Some (padn 4 (nat y) @ CHR ''-'' # padn 2 m @ CHR ''-'' # padn 2 (nat d) @ CHR ''T'' # clock_text (s mod 86400)
          @ fraction_text (nat (x mod billion)) @ zone_text off)
      else None)"

section \<open>Reading\<close>

abbreviation is_num :: "char \<Rightarrow> bool" where "is_num c \<equiv> digit_val c \<noteq> None"

definition dec_val :: "string \<Rightarrow> nat" where
  "dec_val s = foldl (\<lambda>a c. a * 10 + the (digit_val c)) 0 s"

definition parse_uint :: "nat \<Rightarrow> nat \<Rightarrow> string \<Rightarrow> nat option" where
  "parse_uint lo hi s = (if list_all is_num s \<and> lo \<le> dec_val s \<and> dec_val s \<le> hi then Some (dec_val s) else None)"

definition sub :: "nat \<Rightarrow> nat \<Rightarrow> string \<Rightarrow> string" where
  "sub a b s = take (b - a) (drop a s)"

text \<open>The digits after a point, nine at most, as nanoseconds, and what follows all the digits.\<close>

definition fraction :: "string \<Rightarrow> nat \<times> string" where
  "fraction s =
     (if 2 \<le> length s \<and> hd s = CHR ''.'' \<and> is_num (s ! 1) then
        let ds = takeWhile is_num (tl s); n = take 9 ds in
        (dec_val n * 10 ^ (9 - length n), drop (length ds) (tl s))
      else (0, s))"

definition zone :: "string \<Rightarrow> int option" where
  "zone s =
     (if s = ''Z'' then Some 0
      else if length s \<noteq> 6 then None
      else (case (parse_uint 0 23 (sub 1 3 s), parse_uint 0 59 (sub 4 6 s)) of
              (Some h, Some m) \<Rightarrow>
                if hd s \<in> {CHR ''-'', CHR ''+''} \<and> s ! 3 = CHR '':'' then
                  Some ((if hd s = CHR ''-'' then - 1 else 1) * int ((h * 60 + m) * 60))
                else None
            | _ \<Rightarrow> None))"

definition time_of_day :: "string \<Rightarrow> int option" where
  "time_of_day s =
     (case (parse_uint 0 23 (sub 0 2 s), parse_uint 0 59 (sub 3 5 s), parse_uint 0 59 (sub 6 8 s)) of
        (Some h, Some m, Some x) \<Rightarrow>
          if s ! 2 = CHR '':'' \<and> s ! 5 = CHR '':'' then Some (int (h * 3600 + m * 60 + x)) else None
      | _ \<Rightarrow> None)"

definition day_number :: "string \<Rightarrow> int option" where
  "day_number s =
     (case (parse_uint 0 9999 (sub 0 4 s), parse_uint 1 12 (sub 5 7 s)) of
        (Some y, Some m) \<Rightarrow>
          (case parse_uint 1 (nat (month_len (int y) m)) (sub 8 10 s) of
             Some d \<Rightarrow> if s ! 4 = CHR ''-'' \<and> s ! 7 = CHR ''-'' then Some (days_of (int y) m (int d)) else None
           | None \<Rightarrow> None)
      | _ \<Rightarrow> None)"

definition rfc3339_strict :: "string \<Rightarrow> int option" where
  "rfc3339_strict s =
     (if length s < 19 then None
      else (case (day_number (take 10 s), time_of_day (sub 11 19 s)) of
              (Some d, Some t) \<Rightarrow>
                (let (ns, r) = fraction (drop 19 s) in
                 case zone r of
                   Some off \<Rightarrow> if s ! 10 = CHR ''T'' then Some ((d * 86400 + t - off) * billion + int ns) else None
                 | None \<Rightarrow> None)
            | _ \<Rightarrow> None))"

text \<open>\<open>layout s\<close> is what \<open>time.Parse\<close> with the layout \<open>RFC3339\<close> makes of a text.\<close>

definition rfc3339_parse :: "(string \<Rightarrow> int option) \<Rightarrow> string \<Rightarrow> int option" where
  "rfc3339_parse layout s = (case rfc3339_strict s of Some x \<Rightarrow> Some x | None \<Rightarrow> layout s)"

section \<open>Reading back\<close>

lemma padn_length [simp]: "length (padn k n) = k"
  by (induction k arbitrary: n) auto

lemma dec_val_snoc [simp]: "dec_val [] = 0" "dec_val (s @ [c]) = dec_val s * 10 + the (digit_val c)"
  by (simp_all add: dec_val_def)

lemma padn_digits: "list_all is_num (padn k n)"
  by (induction k arbitrary: n) (auto simp: digit_val_char)

lemma dec_val_padn: "n < 10 ^ k \<Longrightarrow> dec_val (padn k n) = n"
proof (induction k arbitrary: n)
  case (Suc k)
  then have "n div 10 < 10 ^ k" by (simp add: div_less_iff_less_mult mult.commute)
  with Suc.IH show ?case by (simp add: digit_val_char)
qed simp

lemma parse_uint_padn: "n < 10 ^ k \<Longrightarrow> lo \<le> n \<Longrightarrow> n \<le> hi \<Longrightarrow> parse_uint lo hi (padn k n) = Some n"
  using padn_digits [of k n] by (simp add: parse_uint_def dec_val_padn)

text \<open>Zeros at the end of a number can be taken off and put back.\<close>

lemma dec_val_zeros: "dec_val (s @ replicate k (CHR ''0'')) = dec_val s * 10 ^ k"
proof (induction k)
  case (Suc k)
  have "s @ replicate (Suc k) (CHR ''0'') = (s @ replicate k (CHR ''0'')) @ [CHR ''0'']"
    by (simp add: replicate_append_same)
  with Suc show ?case by (simp only: dec_val_snoc) (simp add: digit_val_def)
qed simp

lemma trimmed: "\<exists>k. s = rev (dropWhile ((=) c) (rev s)) @ replicate k c"
proof -
  have "takeWhile ((=) c) (rev s) = replicate (length (takeWhile ((=) c) (rev s))) c"
    by (rule replicate_eqI) (auto dest: set_takeWhileD)
  then have "rev s = replicate (length (takeWhile ((=) c) (rev s))) c @ dropWhile ((=) c) (rev s)"
    by (metis takeWhile_dropWhile_id)
  then have "s = rev (dropWhile ((=) c) (rev s)) @ rev (replicate (length (takeWhile ((=) c) (rev s))) c)"
    by (metis rev_append rev_rev_ident)
  then show ?thesis by auto
qed

lemma fraction_read:
  assumes "ns < 10 ^ 9" and "r \<noteq> []" and "\<not> is_num (hd r)" and "hd r \<noteq> CHR ''.''"
  shows "fraction (fraction_text ns @ r) = (ns, r)"
proof (cases "ns = 0")
  case True
  with assms show ?thesis by (auto simp: fraction_text_def fraction_def)
next
  case False
  define t where "t = rev (dropWhile ((=) (CHR ''0'')) (rev (padn 9 ns)))"
  obtain k where k: "padn 9 ns = t @ replicate k (CHR ''0'')" using trimmed t_def by metis
  then have len: "length t + k = 9" by (metis length_append length_replicate padn_length)
  have v: "dec_val t * 10 ^ k = ns" using dec_val_zeros [of t k] k dec_val_padn [OF assms(1)] by simp
  then have "t \<noteq> []" using False by auto
  have d: "list_all is_num t" using padn_digits [of 9 ns] k by simp
  then have "takeWhile is_num (t @ r) = t" using assms(2,3) by (cases r) (auto simp: list_all_iff takeWhile_append)
  moreover have "is_num ((t @ r) ! 0)" using \<open>t \<noteq> []\<close> d by (cases t) auto
  moreover have "9 - length t = k" "take 9 t = t" using len by auto
  ultimately show ?thesis
    using False v \<open>t \<noteq> []\<close> assms(2) by (cases t) (auto simp: fraction_text_def fraction_def t_def [symmetric] Let_def)
qed

lemma sub_append:
  "sub 0 n (s @ t) = s" if "length s = n"
  using that by (simp add: sub_def)

lemma zone_read:
  assumes "\<bar>off\<bar> < 86400" and "off mod 60 = 0"
  shows "zone (zone_text off) = Some off" and "zone_text off \<noteq> []" and "\<not> is_num (hd (zone_text off))"
    and "hd (zone_text off) \<noteq> CHR ''.''"
proof -
  define a where "a = nat (\<bar>off\<bar> div 60)"
  have a: "a < 1440" using assms(1) by (simp add: a_def nat_less_iff)
  have "60 dvd \<bar>off\<bar>" using assms(2) by (simp add: dvd_eq_mod_eq_0 [symmetric])
  moreover have "0 \<le> \<bar>off\<bar> div 60" by (simp add: pos_imp_zdiv_nonneg_iff)
  ultimately have off: "\<bar>off\<bar> = int a * 60" by (simp add: a_def)
  have z: "nat \<bar>sgn off * (\<bar>off\<bar> div 60)\<bar> = a" if "off \<noteq> 0"
    using that by (simp add: a_def abs_mult)
  have sg: "sgn off * (\<bar>off\<bar> div 60) < 0 \<longleftrightarrow> off < 0"
    using off by (cases "off < 0") (auto simp: sgn_if)
  have p: "parse_uint 0 23 (padn 2 (a div 60)) = Some (a div 60)" "parse_uint 0 59 (padn 2 (a mod 60)) = Some (a mod 60)"
    using a by (auto intro!: parse_uint_padn simp: less_mult_imp_div_less)
  have "int ((a div 60 * 60 + a mod 60) * 60) = \<bar>off\<bar>" using off by simp
  then show "zone (zone_text off) = Some off"
    using p by (auto simp: zone_text_def zone_def sub_def z sg Let_def nth_append)
  show "zone_text off \<noteq> []" "\<not> is_num (hd (zone_text off))" "hd (zone_text off) \<noteq> CHR ''.''"
    by (auto simp: zone_text_def Let_def digit_val_def)
qed

lemma hms_read:
  assumes "h < 24" and "m < 60" and "x < 60"
  shows "time_of_day (padn 2 h @ CHR '':'' # padn 2 m @ CHR '':'' # padn 2 x) = Some (int (h * 3600 + m * 60 + x))"
  using assms by (simp add: time_of_day_def sub_def nth_append parse_uint_padn)

lemma time_of_day_read:
  assumes "0 \<le> s" and "s < 86400"
  shows "time_of_day (clock_text s) = Some s" and "length (clock_text s) = 8"
proof -
  let ?h = "nat (s div 3600)" and ?m = "nat (s div 60 mod 60)" and ?x = "nat (s mod 60)"
  have b: "?h < 24" "?m < 60" "?x < 60" using assms by (auto simp: nat_less_iff)
  have "s div 3600 = s div 60 div 60" using zdiv_zmult2_eq [of 60 s 60] by simp
  then have "s = s div 3600 * 3600 + s div 60 mod 60 * 60 + s mod 60"
    using div_mult_mod_eq [of "s div 60" 60] div_mult_mod_eq [of s 60] by linarith
  moreover have "int ?h = s div 3600" "int ?m = s div 60 mod 60" "int ?x = s mod 60"
    using assms by (simp_all add: pos_imp_zdiv_nonneg_iff)
  ultimately have "int (?h * 3600 + ?m * 60 + ?x) = s" by simp
  with hms_read [OF b] show "time_of_day (clock_text s) = Some s" by (simp only: clock_text_def)
  show "length (clock_text s) = 8" by (simp add: clock_text_def)
qed

lemma day_number_read:
  assumes "0 \<le> y" and "y \<le> 9999" and "1 \<le> m" and "m \<le> 12" and "1 \<le> d" and "d \<le> month_len y m"
  shows "day_number (padn 4 (nat y) @ CHR ''-'' # padn 2 m @ CHR ''-'' # padn 2 (nat d)) = Some (days_of y m d)"
proof -
  have "nat d \<le> nat (month_len y m)" "nat d < 100" using assms month_len_bound [of y m] by auto
  then have p: "parse_uint 0 9999 (padn 4 (nat y)) = Some (nat y)" "parse_uint 1 12 (padn 2 m) = Some m"
    "parse_uint 1 (nat (month_len y m)) (padn 2 (nat d)) = Some (nat d)"
    using assms by (auto intro!: parse_uint_padn)
  then show ?thesis using assms by (simp add: day_number_def sub_def nth_append)
qed

lemma rfc3339_roundtrip:
  assumes "rfc3339_text off x = Some t" and "off mod 60 = 0"
  shows "rfc3339_strict t = Some x"
proof -
  define s where "s = x div billion + off"
  obtain y m d where ymd: "date_of (s div 86400) = (y, m, d)" by (metis prod_cases3)
  define day where "day = padn 4 (nat y) @ CHR ''-'' # padn 2 m @ CHR ''-'' # padn 2 (nat d)"
  define f where "f = fraction_text (nat (x mod billion)) @ zone_text off"
  from assms(1) ymd have b: "0 \<le> y" "y \<le> 9999" "\<bar>off\<bar> < 86400"
    and t: "t = day @ CHR ''T'' # clock_text (s mod 86400) @ f"
    by (auto simp: rfc3339_text_def s_def [symmetric] Let_def day_def f_def split: if_splits)
  note dd = date_of_days [OF ymd]
  have sec: "0 \<le> s mod 86400" "s mod 86400 < 86400" by simp_all
  have lens: "length day = 10" "length (clock_text (s mod 86400)) = 8"
    using time_of_day_read(2) [OF sec] by (simp_all add: day_def)
  have dn: "day_number (take 10 t) = Some (s div 86400)"
    using day_number_read [of y m d] b dd lens by (simp add: t day_def [symmetric])
  have td: "time_of_day (sub 11 19 t) = Some (s mod 86400)"
    using time_of_day_read(1) [OF sec] lens by (simp add: t sub_def)
  have f: "drop 19 t = f" "t ! 10 = CHR ''T''" "\<not> length t < 19" using lens by (simp_all add: t nth_append)
  have "nat (x mod billion) < 10 ^ 9" by (simp add: nat_less_iff)
  from fraction_read [OF this zone_read(2,3,4) [OF b(3) assms(2)]]
  have "fraction f = (nat (x mod billion), zone_text off)" by (simp add: f_def)
  moreover have "(s div 86400 * 86400 + s mod 86400 - off) * billion + x mod billion = x"
    by (simp add: s_def)
  ultimately show ?thesis
    using dn td f zone_read(1) [OF b(3) assms(2)] by (simp add: rfc3339_strict_def)
qed

text \<open>Every character of the text is one that needs no escape in a JSON string.\<close>

definition stamp_char :: "char \<Rightarrow> bool" where
  "stamp_char c \<longleftrightarrow> is_num c \<or> c \<in> set ''-+:.TZ''"

lemma padn_stamp: "list_all stamp_char (padn k n)"
  using padn_digits [of k n] by (auto simp: list_all_iff stamp_char_def)

lemma fraction_stamp: "list_all stamp_char (fraction_text n)"
proof -
  have "set (dropWhile P xs) \<subseteq> set xs" for P and xs :: string by (auto dest: set_dropWhileD)
  then have "list_all stamp_char (rev (dropWhile ((=) (CHR ''0'')) (rev (padn 9 n))))"
    using padn_stamp [of 9 n] by (fastforce simp: list_all_iff)
  then show ?thesis by (simp add: fraction_text_def stamp_char_def del: padn.simps)
qed

lemma zone_stamp: "list_all stamp_char (zone_text off)" "list_all stamp_char (clock_text s)"
  using padn_stamp by (auto simp: zone_text_def clock_text_def stamp_char_def Let_def simp del: padn.simps)

lemma rfc3339_stamp:
  assumes "rfc3339_text off x = Some t"
  shows "list_all stamp_char t"
proof -
  have "stamp_char (CHR ''-'')" "stamp_char (CHR ''T'')" by (simp_all add: stamp_char_def)
  with assms padn_stamp fraction_stamp zone_stamp show ?thesis
    by (auto simp: rfc3339_text_def Let_def simp del: padn.simps split: if_splits prod.splits)
qed

end
