(* ===== verification/JournalJson.thy ===== *)
theory JournalJson
  imports Json JournalStore Rfc3339
begin

text \<open>
  The journal as a JSON document: what \<open>json.MarshalIndent\<close> writes for the structs of
  \<open>internal/journal/schema.go\<close> with their tags, and what the strict decoder of \<open>Load\<close> reads. Keys
  are matched exactly first and then without regard to case, an unknown key is an error, \<open>null\<close>
  leaves a field as it is, and of two equal keys the later one counts. Writing and reading a time
  (\<open>time.Time\<close>) are arguments.
\<close>

section \<open>Encoding\<close>

definition num :: "nat \<Rightarrow> json" where "num n = JNum (int_text (int n))"
definition str :: "string \<Rightarrow> json" where "str s = JStr (json_escape s)"

text \<open>A member whose tag says \<open>omitempty\<close>.\<close>

definition unless_empty :: "bool \<Rightarrow> string \<Rightarrow> json \<Rightarrow> (string \<times> json) list" where
  "unless_empty e k v = (if e then [] else [(k, v)])"

definition route_json :: "route_record \<Rightarrow> json" where
  "route_json r = JObj ([(''table'', num (unat (route_table r))), (''dst'', str (route_dst r)), (''dev'', str (route_dev r))]
     @ unless_empty (route_via r = []) ''via'' (str (route_via r))
     @ unless_empty (route_priority r = 0) ''priority'' (num (unat (route_priority r))))"

definition rule_json :: "rule_record \<Rightarrow> json" where
  "rule_json r = JObj ([(''family'', str (rule_family r)), (''priority'', num (unat (rule_priority r)))]
     @ unless_empty (rule_fwmark r = 0) ''fwmark'' (num (unat (rule_fwmark r)))
     @ [(''table'', num (unat (rule_table r)))])"

definition nftable_json :: "nftable_record \<Rightarrow> json" where
  "nftable_json n = JObj [(''family'', str (nft_family n)), (''name'', str (nft_name n))]"

definition sysctl_json :: "sysctl_record \<Rightarrow> json" where
  "sysctl_json s = JObj [(''name'', str (sysctl_name s)), (''prior'', str (sysctl_prior s)),
     (''installed'', str (sysctl_installed s))]"

definition resolver_json :: "resolver_record \<Rightarrow> json" where
  "resolver_json r = JObj ([(''manager'', str (resolver_manager r))]
     @ unless_empty (resolver_link r = []) ''link'' (str (resolver_link r))
     @ [(''prior'', str (resolver_prior r))])"

text \<open>\<open>t\<close> is the text of the creation time.\<close>

definition journal_json :: "string \<Rightarrow> journal \<Rightarrow> json" where
  "journal_json t j = JObj ([(''schema'', JNum (int_text (schema j))), (''role'', str (role j)),
       (''instance_id'', str (instance_id j)), (''created_at'', JStr t)]
     @ unless_empty (routes j = []) ''routes'' (JArr (map route_json (routes j)))
     @ unless_empty (rules j = []) ''rules'' (JArr (map rule_json (rules j)))
     @ unless_empty (tables j = []) ''route_tables'' (JArr (map (\<lambda>t. num (unat t)) (tables j)))
     @ unless_empty (nftables j = []) ''nftables'' (JArr (map nftable_json (nftables j)))
     @ unless_empty (sysctls j = []) ''sysctls'' (JArr (map sysctl_json (sysctls j)))
     @ (case resolver j of None \<Rightarrow> [] | Some r \<Rightarrow> [(''resolver'', resolver_json r)]))"

definition to_bytes :: "string \<Rightarrow> byte list" where "to_bytes = map of_char"
definition of_bytes :: "byte list \<Rightarrow> string" where "of_bytes = map (\<lambda>b. char_of (unat b))"

definition journal_enc :: "(int \<Rightarrow> string option) \<Rightarrow> journal \<Rightarrow> byte list option" where
  "journal_enc time_text j =
     map_option (\<lambda>t. to_bytes (json_print 0 (journal_json t j))) (time_text (created_at j))"

section \<open>Decoding\<close>

text \<open>\<open>foldName\<close>: ASCII letters in upper case, and the two other letters that fold to one.\<close>

definition upper :: "char \<Rightarrow> char" where
  "upper c = (if 97 \<le> ord_of c \<and> ord_of c \<le> 122 then char_of (ord_of c - 32) else c)"

fun fold_name :: "string \<Rightarrow> string" where
  "fold_name (c # d # s) =
     (if c = CHR 0xC5 \<and> d = CHR 0xBF then CHR ''S'' # fold_name s
      else if c = CHR 0xE2 \<and> d = CHR 0x84 \<and> s \<noteq> [] \<and> hd s = CHR 0xAA then CHR ''K'' # fold_name (tl s)
      else upper c # fold_name (d # s))"
| "fold_name [c] = [upper c]"
| "fold_name [] = []"

type_synonym 'a field = "string \<times> ('a \<Rightarrow> json \<Rightarrow> 'a option)"

definition find_field :: "'a field list \<Rightarrow> string \<Rightarrow> ('a \<Rightarrow> json \<Rightarrow> 'a option) option" where
  "find_field fs k =
     (case map_of fs k of Some f \<Rightarrow> Some f
      | None \<Rightarrow> map_option snd (find (\<lambda>f. fold_name (fst f) = fold_name k) fs))"

fun decode_members :: "'a field list \<Rightarrow> 'a \<Rightarrow> (string \<times> json) list \<Rightarrow> 'a option" where
  "decode_members fs a [] = Some a"
| "decode_members fs a ((k, v) # ms) =
     (case find_field fs (unquote k) of None \<Rightarrow> None
      | Some f \<Rightarrow> (case f a v of None \<Rightarrow> None | Some a' \<Rightarrow> decode_members fs a' ms))"

definition decode_struct :: "'a field list \<Rightarrow> 'a \<Rightarrow> json \<Rightarrow> 'a option" where
  "decode_struct fs a v =
     (case v of JObj ms \<Rightarrow> decode_members fs a ms | JNull \<Rightarrow> Some a | _ \<Rightarrow> None)"

text \<open>A slice starts empty, and every element from the zero value of its type.\<close>

definition decode_slice :: "(json \<Rightarrow> 'e option) \<Rightarrow> json \<Rightarrow> 'e list option" where
  "decode_slice f v = (case v of JArr xs \<Rightarrow> those (map f xs) | JNull \<Rightarrow> Some [] | _ \<Rightarrow> None)"

definition decode_string :: "string \<Rightarrow> json \<Rightarrow> string option" where
  "decode_string s v = (case v of JStr r \<Rightarrow> Some (unquote r) | JNull \<Rightarrow> Some s | _ \<Rightarrow> None)"

definition uint_literal :: "string \<Rightarrow> nat option" where
  "uint_literal n = (if n \<noteq> [] \<and> list_all digit n then Some (dec_val n) else None)"

definition decode_u32 :: "u32 \<Rightarrow> json \<Rightarrow> u32 option" where
  "decode_u32 x v =
     (case v of
        JNum n \<Rightarrow> (case uint_literal n of Some k \<Rightarrow> if k < 2 ^ 32 then Some (of_nat k) else None | None \<Rightarrow> None)
      | JNull \<Rightarrow> Some x | _ \<Rightarrow> None)"

definition decode_int :: "int \<Rightarrow> json \<Rightarrow> int option" where
  "decode_int x v =
     (case v of
        JNum n \<Rightarrow>
          (let neg = (n \<noteq> [] \<and> hd n = CHR ''-'') in
           case uint_literal (if neg then tl n else n) of None \<Rightarrow> None
           | Some k \<Rightarrow> (let i = (if neg then - int k else int k) in if int64 i then Some i else None))
      | JNull \<Rightarrow> Some x | _ \<Rightarrow> None)"

definition set_field :: "('b \<Rightarrow> json \<Rightarrow> 'b option) \<Rightarrow> ('a \<Rightarrow> 'b) \<Rightarrow> (('b \<Rightarrow> 'b) \<Rightarrow> 'a \<Rightarrow> 'a) \<Rightarrow> 'a \<Rightarrow> json \<Rightarrow> 'a option" where
  "set_field dec get upd a v = map_option (\<lambda>b. upd (\<lambda>_. b) a) (dec (get a) v)"

definition route_fields :: "route_record field list" where
  "route_fields =
     [(''table'', set_field decode_u32 route_table route_table_update),
      (''dst'', set_field decode_string route_dst route_dst_update),
      (''dev'', set_field decode_string route_dev route_dev_update),
      (''via'', set_field decode_string route_via route_via_update),
      (''priority'', set_field decode_u32 route_priority route_priority_update)]"

definition rule_fields :: "rule_record field list" where
  "rule_fields =
     [(''family'', set_field decode_string rule_family rule_family_update),
      (''priority'', set_field decode_u32 rule_priority rule_priority_update),
      (''fwmark'', set_field decode_u32 rule_fwmark rule_fwmark_update),
      (''table'', set_field decode_u32 rule_table rule_table_update)]"

definition nftable_fields :: "nftable_record field list" where
  "nftable_fields =
     [(''family'', set_field decode_string nft_family nft_family_update),
      (''name'', set_field decode_string nft_name nft_name_update)]"

definition sysctl_fields :: "sysctl_record field list" where
  "sysctl_fields =
     [(''name'', set_field decode_string sysctl_name sysctl_name_update),
      (''prior'', set_field decode_string sysctl_prior sysctl_prior_update),
      (''installed'', set_field decode_string sysctl_installed sysctl_installed_update)]"

definition resolver_fields :: "resolver_record field list" where
  "resolver_fields =
     [(''manager'', set_field decode_string resolver_manager resolver_manager_update),
      (''link'', set_field decode_string resolver_link resolver_link_update),
      (''prior'', set_field decode_string resolver_prior resolver_prior_update)]"

text \<open>The zero values, the zero \<open>time.Time\<close> in nanoseconds among them.\<close>

definition zero_route :: route_record where
  "zero_route = \<lparr>route_table = 0, route_dst = [], route_dev = [], route_via = [], route_priority = 0\<rparr>"
definition zero_rule :: rule_record where
  "zero_rule = \<lparr>rule_family = [], rule_priority = 0, rule_fwmark = 0, rule_table = 0\<rparr>"
definition zero_nftable :: nftable_record where
  "zero_nftable = \<lparr>nft_family = [], nft_name = []\<rparr>"
definition zero_sysctl :: sysctl_record where
  "zero_sysctl = \<lparr>sysctl_name = [], sysctl_prior = [], sysctl_installed = []\<rparr>"
definition zero_resolver :: resolver_record where
  "zero_resolver = \<lparr>resolver_manager = [], resolver_link = [], resolver_prior = []\<rparr>"

definition zero_journal :: journal where
  "zero_journal = \<lparr>schema = 0, role = [], instance_id = [], created_at = - 62135596800000000000, routes = [],
     rules = [], tables = [], nftables = [], sysctls = [], resolver = None\<rparr>"

definition decode_time :: "(string \<Rightarrow> int option) \<Rightarrow> int \<Rightarrow> json \<Rightarrow> int option" where
  "decode_time time_parse x v = (case v of JStr r \<Rightarrow> time_parse r | JNull \<Rightarrow> Some x | _ \<Rightarrow> None)"

definition decode_resolver :: "resolver_record option \<Rightarrow> json \<Rightarrow> resolver_record option option" where
  "decode_resolver x v =
     (if v = JNull then Some None
      else map_option Some (decode_struct resolver_fields (case x of None \<Rightarrow> zero_resolver | Some r \<Rightarrow> r) v))"

definition journal_fields :: "(string \<Rightarrow> int option) \<Rightarrow> journal field list" where
  "journal_fields time_parse =
     [(''schema'', set_field decode_int schema schema_update),
      (''role'', set_field decode_string role role_update),
      (''instance_id'', set_field decode_string instance_id instance_id_update),
      (''created_at'', set_field (decode_time time_parse) created_at created_at_update),
      (''routes'', set_field (\<lambda>_. decode_slice (decode_struct route_fields zero_route)) routes routes_update),
      (''rules'', set_field (\<lambda>_. decode_slice (decode_struct rule_fields zero_rule)) rules rules_update),
      (''route_tables'', set_field (\<lambda>_. decode_slice (decode_u32 0)) tables tables_update),
      (''nftables'', set_field (\<lambda>_. decode_slice (decode_struct nftable_fields zero_nftable)) nftables nftables_update),
      (''sysctls'', set_field (\<lambda>_. decode_slice (decode_struct sysctl_fields zero_sysctl)) sysctls sysctls_update),
      (''resolver'', set_field decode_resolver resolver resolver_update)]"

definition journal_dec :: "(string \<Rightarrow> int option) \<Rightarrow> byte list \<Rightarrow> string + journal \<times> byte list" where
  "journal_dec time_parse b =
     (case json_parse (of_bytes b) of None \<Rightarrow> Inl ''syntax''
      | Some (v, r) \<Rightarrow>
          (case decode_struct (journal_fields time_parse) zero_journal v of
             None \<Rightarrow> Inl ''type'' | Some j \<Rightarrow> Inr (j, to_bytes r)))"

section \<open>Reading back\<close>

text \<open>A journal with the invalid bytes of its strings replaced.\<close>

definition clean_route :: "route_record \<Rightarrow> route_record" where
  "clean_route r = r\<lparr>route_dst := to_valid (route_dst r), route_dev := to_valid (route_dev r), route_via := to_valid (route_via r)\<rparr>"
definition clean_rule :: "rule_record \<Rightarrow> rule_record" where
  "clean_rule r = r\<lparr>rule_family := to_valid (rule_family r)\<rparr>"
definition clean_nftable :: "nftable_record \<Rightarrow> nftable_record" where
  "clean_nftable n = n\<lparr>nft_family := to_valid (nft_family n), nft_name := to_valid (nft_name n)\<rparr>"
definition clean_sysctl :: "sysctl_record \<Rightarrow> sysctl_record" where
  "clean_sysctl s = s\<lparr>sysctl_name := to_valid (sysctl_name s), sysctl_prior := to_valid (sysctl_prior s),
     sysctl_installed := to_valid (sysctl_installed s)\<rparr>"
definition clean_resolver :: "resolver_record \<Rightarrow> resolver_record" where
  "clean_resolver r = r\<lparr>resolver_manager := to_valid (resolver_manager r), resolver_link := to_valid (resolver_link r),
     resolver_prior := to_valid (resolver_prior r)\<rparr>"

definition clean_journal :: "journal \<Rightarrow> journal" where
  "clean_journal j = j\<lparr>role := to_valid (role j), instance_id := to_valid (instance_id j),
     routes := map clean_route (routes j), rules := map clean_rule (rules j), nftables := map clean_nftable (nftables j),
     sysctls := map clean_sysctl (sysctls j), resolver := map_option clean_resolver (resolver j)\<rparr>"

subsection \<open>Fields\<close>

lemma decode_str [simp]: "decode_string x (str s) = Some (to_valid s)"
  by (simp add: decode_string_def str_def unquote_json_escape)

lemma uint_itoa: "uint_literal (itoa n) = Some n"
proof -
  have "dec_val (itoa n) = n"
  proof (induction n rule: itoa.induct)
    case (1 n)
    then show ?case using dec_val_snoc(2) [of "[]"] by (cases "n < 10") (simp_all add: itoa.simps [of n] digit_val_char)
  qed
  then show ?thesis using itoa_all_digits [of n] by (simp add: uint_literal_def)
qed

lemma decode_num [simp]: "decode_u32 x (num (unat w)) = Some w"
proof -
  have "unat w < 2 ^ 32" using unsigned_less [of w] by simp
  then show ?thesis by (simp add: decode_u32_def num_def int_text_def uint_itoa)
qed

lemma decode_int_text [simp]: "int64 i \<Longrightarrow> decode_int x (JNum (int_text i)) = Some i"
proof -
  assume "int64 i"
  moreover have "hd (itoa n) \<noteq> CHR ''-''" for n
    using itoa_first(1) [of n "[]"] by (auto simp: digit_def digit_val_def)
  ultimately show ?thesis by (auto simp: decode_int_def int_text_def uint_itoa Let_def)
qed

text \<open>The names of the fields are read as they stand.\<close>

lemma field_names [simp]:
  "unquote ''table'' = ''table''" "unquote ''dst'' = ''dst''" "unquote ''dev'' = ''dev''"
  "unquote ''via'' = ''via''" "unquote ''priority'' = ''priority''" "unquote ''family'' = ''family''"
  "unquote ''fwmark'' = ''fwmark''" "unquote ''name'' = ''name''" "unquote ''prior'' = ''prior''"
  "unquote ''installed'' = ''installed''" "unquote ''manager'' = ''manager''" "unquote ''link'' = ''link''"
  "unquote ''schema'' = ''schema''" "unquote ''role'' = ''role''" "unquote ''instance_id'' = ''instance_id''"
  "unquote ''created_at'' = ''created_at''" "unquote ''routes'' = ''routes''" "unquote ''rules'' = ''rules''"
  "unquote ''route_tables'' = ''route_tables''" "unquote ''nftables'' = ''nftables''" "unquote ''sysctls'' = ''sysctls''"
  "unquote ''resolver'' = ''resolver''"
  by (simp_all add: plain_unquote plain_def)

lemma decode_route: "decode_struct route_fields zero_route (route_json r) = Some (clean_route r)"
proof -
  have "to_valid [] = []" by (simp add: valid_simps)
  then show ?thesis
    by (cases "route_via r = []"; cases "route_priority r = 0")
      (simp_all add: decode_struct_def route_json_def unless_empty_def find_field_def route_fields_def set_field_def
        clean_route_def zero_route_def)
qed

lemma decode_rule: "decode_struct rule_fields zero_rule (rule_json r) = Some (clean_rule r)"
  by (cases "rule_fwmark r = 0")
    (simp_all add: decode_struct_def rule_json_def unless_empty_def find_field_def rule_fields_def set_field_def
      clean_rule_def zero_rule_def)

lemma decode_nftable: "decode_struct nftable_fields zero_nftable (nftable_json n) = Some (clean_nftable n)"
  by (simp add: decode_struct_def nftable_json_def find_field_def nftable_fields_def set_field_def
      clean_nftable_def zero_nftable_def)

lemma decode_sysctl: "decode_struct sysctl_fields zero_sysctl (sysctl_json n) = Some (clean_sysctl n)"
  by (simp add: decode_struct_def sysctl_json_def find_field_def sysctl_fields_def set_field_def
      clean_sysctl_def zero_sysctl_def)

lemma decode_resolver_json: "decode_resolver None (resolver_json r) = Some (Some (clean_resolver r))"
proof -
  have "to_valid [] = []" by (simp add: valid_simps)
  then have "decode_struct resolver_fields zero_resolver (resolver_json r) = Some (clean_resolver r)"
    by (cases "resolver_link r = []")
      (simp_all add: decode_struct_def resolver_json_def unless_empty_def find_field_def resolver_fields_def set_field_def
        clean_resolver_def zero_resolver_def)
  then show ?thesis by (simp add: decode_resolver_def resolver_json_def)
qed

lemma decode_slice_map:
  assumes "\<And>x. f (g x) = Some (h x)"
  shows "decode_slice f (JArr (map g xs)) = Some (map h xs)"
  using assms by (induction xs) (simp_all add: decode_slice_def)

text \<open>A member that may have been left out, when its field still has the zero value.\<close>

lemma decode_optional:
  assumes "find_field fs (unquote k) = Some (set_field dec get upd)" and "dec (get a) v = Some b"
    and "e \<Longrightarrow> upd (\<lambda>_. b) a = a"
  shows "decode_members fs a (unless_empty e k v @ ms) = decode_members fs (upd (\<lambda>_. b) a) ms"
  using assms by (simp add: unless_empty_def set_field_def)

lemma journal_field_simps:
  "find_field (journal_fields tp) ''schema'' = Some (set_field decode_int schema schema_update)"
  "find_field (journal_fields tp) ''role'' = Some (set_field decode_string role role_update)"
  "find_field (journal_fields tp) ''instance_id'' = Some (set_field decode_string instance_id instance_id_update)"
  "find_field (journal_fields tp) ''created_at'' = Some (set_field (decode_time tp) created_at created_at_update)"
  "find_field (journal_fields tp) ''routes'' =
     Some (set_field (\<lambda>_. decode_slice (decode_struct route_fields zero_route)) routes routes_update)"
  "find_field (journal_fields tp) ''rules'' =
     Some (set_field (\<lambda>_. decode_slice (decode_struct rule_fields zero_rule)) rules rules_update)"
  "find_field (journal_fields tp) ''route_tables'' = Some (set_field (\<lambda>_. decode_slice (decode_u32 0)) tables tables_update)"
  "find_field (journal_fields tp) ''nftables'' =
     Some (set_field (\<lambda>_. decode_slice (decode_struct nftable_fields zero_nftable)) nftables nftables_update)"
  "find_field (journal_fields tp) ''sysctls'' =
     Some (set_field (\<lambda>_. decode_slice (decode_struct sysctl_fields zero_sysctl)) sysctls sysctls_update)"
  "find_field (journal_fields tp) ''resolver'' = Some (set_field decode_resolver resolver resolver_update)"
  by (simp_all add: find_field_def journal_fields_def)

lemma slice_codecs:
  "decode_slice (decode_struct route_fields zero_route) (JArr (map route_json rs)) = Some (map clean_route rs)"
  "decode_slice (decode_struct rule_fields zero_rule) (JArr (map rule_json us)) = Some (map clean_rule us)"
  "decode_slice (decode_struct nftable_fields zero_nftable) (JArr (map nftable_json ns)) = Some (map clean_nftable ns)"
  "decode_slice (decode_struct sysctl_fields zero_sysctl) (JArr (map sysctl_json ss)) = Some (map clean_sysctl ss)"
  "decode_slice (decode_u32 0) (JArr (map (\<lambda>t. num (unat t)) ts)) = Some ts"
  using decode_slice_map [of "decode_u32 0" "\<lambda>t. num (unat t)" "\<lambda>t. t" ts]
  by (simp_all add: decode_slice_map decode_route decode_rule decode_nftable decode_sysctl)

lemma decode_journal:
  assumes "int64 (schema j)" and "tp t = Some (created_at j)"
  shows "decode_struct (journal_fields tp) zero_journal (journal_json t j) = Some (clean_journal j)"
proof -
  let ?F = "journal_fields tp"
  define j1 where "j1 = zero_journal\<lparr>schema := schema j, role := to_valid (role j), instance_id := to_valid (instance_id j),
    created_at := created_at j\<rparr>"
  define j2 where "j2 = j1\<lparr>routes := map clean_route (routes j), rules := map clean_rule (rules j), tables := tables j\<rparr>"
  define j3 where "j3 = j2\<lparr>nftables := map clean_nftable (nftables j), sysctls := map clean_sysctl (sysctls j)\<rparr>"
  have one: "decode_members ?F zero_journal ([(''schema'', JNum (int_text (schema j))), (''role'', str (role j)),
      (''instance_id'', str (instance_id j)), (''created_at'', JStr t)] @ ms) = decode_members ?F j1 ms" for ms
    using assms by (simp add: journal_field_simps set_field_def decode_time_def j1_def)
  have two: "decode_members ?F j1 (unless_empty (routes j = []) ''routes'' (JArr (map route_json (routes j)))
      @ unless_empty (rules j = []) ''rules'' (JArr (map rule_json (rules j)))
      @ unless_empty (tables j = []) ''route_tables'' (JArr (map (\<lambda>t. num (unat t)) (tables j))) @ ms)
      = decode_members ?F j2 ms" for ms
    by (simp add: decode_optional journal_field_simps slice_codecs j1_def j2_def zero_journal_def)
  have three: "decode_members ?F j2 (unless_empty (nftables j = []) ''nftables'' (JArr (map nftable_json (nftables j)))
      @ unless_empty (sysctls j = []) ''sysctls'' (JArr (map sysctl_json (sysctls j))) @ ms)
      = decode_members ?F j3 ms" for ms
    by (simp add: decode_optional journal_field_simps slice_codecs j1_def j2_def j3_def zero_journal_def)
  have four: "decode_members ?F j3 (case resolver j of None \<Rightarrow> [] | Some r \<Rightarrow> [(''resolver'', resolver_json r)])
      = Some (clean_journal j)"
    by (cases "resolver j") (simp_all add: journal_field_simps set_field_def decode_resolver_json j1_def j2_def j3_def
        zero_journal_def clean_journal_def)
  show ?thesis by (simp only: decode_struct_def journal_json_def json.case one two three four)
qed

subsection \<open>The document\<close>

lemma escaped_json_escape [simp]: "escaped (json_escape s)"
  by (auto simp: escaped_def)

lemma plain_escaped: "list_all plain s \<Longrightarrow> escaped s"
  unfolding escaped_def by (metis plain_escape)

lemma names_escaped [simp]:
  "escaped ''table''" "escaped ''dst''" "escaped ''dev''" "escaped ''via''" "escaped ''priority''"
  "escaped ''family''" "escaped ''fwmark''" "escaped ''name''" "escaped ''prior''" "escaped ''installed''"
  "escaped ''manager''" "escaped ''link''" "escaped ''schema''" "escaped ''role''" "escaped ''instance_id''"
  "escaped ''created_at''" "escaped ''routes''" "escaped ''rules''" "escaped ''route_tables''"
  "escaped ''nftables''" "escaped ''sysctls''" "escaped ''resolver''"
  by (simp_all add: plain_escaped plain_def)

lemma printable_simps [simp]:
  "printable (num n)" "printable (str s)" "json_depth (num n) = 0" "json_depth (str s) = 0"
  by (auto simp: num_def str_def)

lemma set_unless_empty: "m \<in> set (unless_empty e k v) \<longleftrightarrow> \<not> e \<and> m = (k, v)"
  by (simp add: unless_empty_def)

lemma printable_records [simp]:
  "printable (route_json r)" "printable (rule_json u)" "printable (nftable_json n)" "printable (sysctl_json s)"
  "printable (resolver_json x)"
  by (auto simp: route_json_def rule_json_def nftable_json_def sysctl_json_def resolver_json_def set_unless_empty)

lemma depth_le: "(\<And>m. m \<in> set ms \<Longrightarrow> json_depth (snd m) \<le> k) \<Longrightarrow> json_depth (JObj ms) \<le> Suc k"
  "(\<And>x. x \<in> set xs \<Longrightarrow> json_depth x \<le> k) \<Longrightarrow> json_depth (JArr xs) \<le> Suc k"
proof -
  have "(\<And>x. x \<in> set ys \<Longrightarrow> f x \<le> k) \<Longrightarrow> foldr max (map f ys) 0 \<le> k" for ys and f :: "'z \<Rightarrow> nat"
    by (induction ys) auto
  from this [of ms "\<lambda>m. json_depth (snd m)"] this [of xs json_depth] show
    "(\<And>m. m \<in> set ms \<Longrightarrow> json_depth (snd m) \<le> k) \<Longrightarrow> json_depth (JObj ms) \<le> Suc k"
    "(\<And>x. x \<in> set xs \<Longrightarrow> json_depth x \<le> k) \<Longrightarrow> json_depth (JArr xs) \<le> Suc k" by simp_all
qed

lemma depth_records:
  "json_depth (route_json r) \<le> 1" "json_depth (rule_json u) \<le> 1" "json_depth (nftable_json n) \<le> 1"
  "json_depth (sysctl_json s) \<le> 1" "json_depth (resolver_json x) \<le> 1"
  unfolding route_json_def rule_json_def nftable_json_def sysctl_json_def resolver_json_def One_nat_def
  by (rule depth_le; auto simp: set_unless_empty)+

lemma depth_slice: "(\<And>x. json_depth (f x) \<le> 1) \<Longrightarrow> json_depth (JArr (map f xs)) \<le> 2"
  using depth_le(2) [of "map f xs" 1] by (auto simp: numeral_2_eq_2)

lemma journal_json_ok:
  assumes "list_all plain t"
  shows "printable (journal_json t j)" and "json_depth (journal_json t j) \<le> 3"
proof -
  show "printable (journal_json t j)"
    using plain_escaped [OF assms] by (auto simp: journal_json_def set_unless_empty split: option.splits)
  have arrays: "json_depth (JArr (map route_json rs)) \<le> 2" "json_depth (JArr (map rule_json us)) \<le> 2"
    "json_depth (JArr (map nftable_json ns)) \<le> 2" "json_depth (JArr (map sysctl_json ss)) \<le> 2"
    "json_depth (JArr (map (\<lambda>t. num (unat t)) (ts :: u32 list))) \<le> 2" for rs us ns ss ts
    by (intro depth_slice depth_records; simp)+
  have r: "json_depth (resolver_json r) \<le> 2" for r using depth_records(5) [of r] by simp
  have obj: "json_depth (JObj ms) \<le> 3" if "\<And>m. m \<in> set ms \<Longrightarrow> json_depth (snd m) \<le> 2" for ms
    using depth_le(1) [of ms 2] that by (simp add: numeral_3_eq_3)
  show "json_depth (journal_json t j) \<le> 3"
    unfolding journal_json_def
    by (rule obj) (use arrays r in \<open>auto simp del: json_depth.simps(1,2) simp: set_unless_empty split: option.splits\<close>)
qed

lemma of_to_bytes [simp]: "of_bytes (to_bytes s) = s"
proof -
  have "char_of (unat (of_char c :: byte)) = c" for c
  proof -
    have "ord_of c < 256" by (metis of_char_mod_256 mod_less_divisor zero_less_numeral)
    then have "unat (of_nat (ord_of c) :: byte) = ord_of c" by (simp add: unsigned_of_nat take_bit_nat_eq_self)
    then show ?thesis by (simp add: of_nat_of_char)
  qed
  then show ?thesis by (simp add: of_bytes_def to_bytes_def comp_def)
qed

lemma to_bytes_append [simp]: "to_bytes (s @ t) = to_bytes s @ to_bytes t"
  by (simp add: to_bytes_def)

lemma to_bytes_newline: "to_bytes [CHR 0x0A] = [10]"
  by (simp add: to_bytes_def)

text \<open>What the codec of the journal needs of the codec of a time, and what it then gives.\<close>

locale time_codec =
  fixes time_text :: "int \<Rightarrow> string option" and time_parse :: "string \<Rightarrow> int option"
  assumes time_back: "time_text x = Some t \<Longrightarrow> time_parse t = Some x"
    and time_plain: "time_text x = Some t \<Longrightarrow> list_all plain t"
begin

lemma journal_codec:
  assumes "int64 (schema j)" and "journal_enc time_text j = Some b"
  shows "journal_dec time_parse (b @ [10]) = Inr (clean_journal j, [10])"
proof -
  obtain t where t: "time_text (created_at j) = Some t" "b = to_bytes (json_print 0 (journal_json t j))"
    using assms(2) by (auto simp: journal_enc_def)
  note c = time_back [OF t(1)] time_plain [OF t(1)]
  have "b @ [10] = to_bytes (json_print 0 (journal_json t j) @ [CHR 0x0A])"
    using t(2) to_bytes_newline by simp
  then have "of_bytes (b @ [10]) = json_print 0 (journal_json t j) @ [CHR 0x0A]" by (simp only: of_to_bytes)
  moreover have "json_parse (json_print 0 (journal_json t j) @ [CHR 0x0A]) = Some (journal_json t j, [CHR 0x0A])"
    using journal_json_ok [OF c(2), of j]
    by (intro json_parse_print) (auto simp: max_depth_def stops_def digit_def digit_val_def)
  ultimately show ?thesis
    using decode_journal [of j time_parse t] assms(1) c(1) to_bytes_newline by (simp add: journal_dec_def)
qed

lemma valid_codec:
  "journal_validate (with_schema j) = None \<Longrightarrow> journal_enc time_text (with_schema j) = Some b \<Longrightarrow>
     journal_dec time_parse (b @ [10]) = Inr (clean_journal (with_schema j), [10])"
  by (rule journal_codec) (auto simp: journal_validate_None journal_ok_def int64_def)

end

lemma stamp_plain: "stamp_char c \<Longrightarrow> plain c"
proof -
  have "plain c" if n: "is_num c"
  proof -
    from n have "48 \<le> ord_of c \<and> ord_of c \<le> 57" by (auto simp: digit_val_def Let_def split: if_splits)
    then show ?thesis by (auto simp: plain_def)
  qed
  then show "stamp_char c \<Longrightarrow> plain c" by (auto simp: stamp_char_def plain_def)
qed

text \<open>The text in any time zone of whole minutes, and the parser with any layout parser behind it.\<close>

interpretation zoned: time_codec "rfc3339_text (60 * k)" "rfc3339_parse layout" for k layout
proof
  fix x t assume t: "rfc3339_text (60 * k) x = Some t"
  from rfc3339_roundtrip [OF t] show "rfc3339_parse layout t = Some x" by (simp add: rfc3339_parse_def)
  from rfc3339_stamp [OF t] stamp_plain show "list_all plain t" by (auto simp: list_all_iff)
qed

end
