(* ===== verification/JournalLoad.thy ===== *)
theory JournalLoad
  imports JournalJson
begin

text \<open>
  Writing a journal and loading it again, with the codec of \<open>JournalJson\<close> in the place of the
  parameters of \<open>JournalStore\<close>: what comes back after a write and after a crash in the middle of one.
\<close>

section \<open>A valid journal stays valid\<close>

lemma plain_segments: "list_all (list_all plain) gs \<Longrightarrow> plain c \<Longrightarrow> list_all plain (join_with c gs)"
  by (induction c gs rule: join_with.induct) auto

lemma plain_classes: "is_alnum c \<Longrightarrow> plain c" "c \<in> set ''._-'' \<Longrightarrow> plain c"
proof -
  have "list_all plain (''0123456789abcdefghijklmnopqrstuvwxyzABCDEFGHIJKLMNOPQRSTUVWXYZ'' @ ''._-'')"
    by (simp add: plain_def)
  then show "is_alnum c \<Longrightarrow> plain c" "c \<in> set ''._-'' \<Longrightarrow> plain c"
    unfolding is_alnum_def is_digit_def is_lower_def is_upper_def list_all_iff by auto
qed

lemma all_plain: "list_all P s \<Longrightarrow> (\<And>c. P c \<Longrightarrow> plain c) \<Longrightarrow> list_all plain s"
  by (simp add: list_all_iff)

lemma identifiers_plain:
  "instance_id_re s \<Longrightarrow> list_all plain s" "dev_name_re s \<Longrightarrow> list_all plain s"
  "nft_name_re s \<Longrightarrow> list_all plain s" "sysctl_name_re s \<Longrightarrow> list_all plain s"
proof -
  have c: "plain c" if "is_alnum c \<or> c \<in> set ''._-''" for c using that plain_classes by blast
  then show "instance_id_re s \<Longrightarrow> list_all plain s" "dev_name_re s \<Longrightarrow> list_all plain s"
    unfolding instance_id_re_def dev_name_re_def by (blast intro: all_plain)+
  have "plain c" if "is_alnum c \<or> c \<in> set ''_-''" for c using that c by auto
  then show "nft_name_re s \<Longrightarrow> list_all plain s" unfolding nft_name_re_def by (blast intro: all_plain)
  have "plain c" if "is_lower c \<or> is_digit c \<or> c = CHR ''_''" for c
    using that c [of c] by (auto simp: is_alnum_def)
  then have "list_all plain g" if "g \<noteq> [] \<and> list_all (\<lambda>c. is_lower c \<or> is_digit c \<or> c = CHR ''_'') g" for g
    using that all_plain by blast
  moreover assume "sysctl_name_re s"
  then have "list_all (\<lambda>g. g \<noteq> [] \<and> list_all (\<lambda>c. is_lower c \<or> is_digit c \<or> c = CHR ''_'') g) (split_on (CHR ''.'') s)"
    by (simp add: sysctl_name_re_def Let_def)
  ultimately have "list_all (list_all plain) (split_on (CHR ''.'') s)" by (rule list.pred_mono_strong [rotated])
  from plain_segments [OF this, of "CHR ''.''"] c show "list_all plain s"
    by (simp add: join_split)
qed

lemmas identifiers_valid = identifiers_plain [THEN plain_valid]

lemma keywords_valid [simp]:
  "to_valid ''default'' = ''default''" "to_valid ''ip'' = ''ip''" "to_valid ''ip6'' = ''ip6''"
  "to_valid ''inet'' = ''inet''" "to_valid ''client'' = ''client''" "to_valid ''server'' = ''server''"
  by (simp_all add: plain_valid plain_def)

lemma clean_ok: "journal_ok j \<Longrightarrow> journal_ok (clean_journal j)"
proof -
  have "route_ok r \<Longrightarrow> route_ok (clean_route r)" for r
    using to_valid_ascii [of "CHR ''/''" "route_dst r"]
    by (auto simp: route_ok_def clean_route_def identifiers_valid(2))
  moreover have "rule_ok r \<Longrightarrow> rule_ok (clean_rule r)" for r
    by (auto simp: rule_ok_def clean_rule_def)
  moreover have "nft_ok n \<Longrightarrow> nft_ok (clean_nftable n)" for n
    by (auto simp: nft_ok_def clean_nftable_def identifiers_valid(3))
  moreover have "sysctl_name_re (sysctl_name s) \<Longrightarrow> sysctl_name_re (sysctl_name (clean_sysctl s))" for s
    by (simp add: clean_sysctl_def identifiers_valid(4))
  ultimately show "journal_ok j \<Longrightarrow> journal_ok (clean_journal j)"
    by (auto simp: journal_ok_def clean_journal_def identifiers_valid(1) list.pred_map elim!: list.pred_mono_strong)
qed

text \<open>The strings whose bytes nothing checks.\<close>

definition free_strings :: "journal \<Rightarrow> string list" where
  "free_strings j = concat (map (\<lambda>r. [route_dst r, route_via r]) (routes j))
     @ concat (map (\<lambda>s. [sysctl_prior s, sysctl_installed s]) (sysctls j))
     @ (case resolver j of None \<Rightarrow> [] | Some r \<Rightarrow> [resolver_manager r, resolver_link r, resolver_prior r])"

lemma clean_id:
  assumes "journal_ok j" and "list_all valid_utf8 (free_strings j)"
  shows "clean_journal j = j"
proof -
  have "clean_route r = r" if "r \<in> set (routes j)" for r
  proof -
    have "route_ok r" "valid_utf8 (route_dst r)" "valid_utf8 (route_via r)"
      using assms that by (auto simp: journal_ok_def list_all_iff free_strings_def)
    then show ?thesis by (simp add: clean_route_def route_ok_def identifiers_valid(2) to_valid_id)
  qed
  then have "map clean_route (routes j) = routes j" by (rule map_idI)
  moreover have "clean_rule r = r" if "r \<in> set (rules j)" for r
  proof -
    have "rule_ok r" using assms(1) that by (simp add: journal_ok_def list_all_iff)
    then show ?thesis by (auto simp: clean_rule_def rule_ok_def)
  qed
  then have "map clean_rule (rules j) = rules j" by (rule map_idI)
  moreover have "clean_nftable n = n" if "n \<in> set (nftables j)" for n
  proof -
    have "nft_ok n" using assms(1) that by (simp add: journal_ok_def list_all_iff)
    then show ?thesis by (auto simp: clean_nftable_def nft_ok_def identifiers_valid(3))
  qed
  then have "map clean_nftable (nftables j) = nftables j" by (rule map_idI)
  moreover have "clean_sysctl s = s" if "s \<in> set (sysctls j)" for s
  proof -
    have "sysctl_name_re (sysctl_name s)" "valid_utf8 (sysctl_prior s)" "valid_utf8 (sysctl_installed s)"
      using assms that by (auto simp: journal_ok_def list_all_iff free_strings_def)
    then show ?thesis by (simp add: clean_sysctl_def identifiers_valid(4) to_valid_id)
  qed
  then have "map clean_sysctl (sysctls j) = sysctls j" by (rule map_idI)
  moreover have "map_option clean_resolver (resolver j) = resolver j"
    using assms(2) by (cases "resolver j") (auto simp: free_strings_def clean_resolver_def to_valid_id)
  moreover have "to_valid (role j) = role j" "to_valid (instance_id j) = instance_id j"
    using assms(1) by (auto simp: journal_ok_def identifiers_valid(1))
  ultimately show ?thesis by (simp add: clean_journal_def)
qed

section \<open>Written and loaded\<close>

text \<open>
  C9. What WriteTo stored Load returns: after a successful write, whatever the time zone of the
  creation time, as long as its offset is in whole minutes, loading the path in the state it left gives the same journal, every field of it,
  except that a byte that is not UTF-8 has become the replacement character.
\<close>

theorem load_after_write:
  assumes "write_to (journal_enc (rfc3339_text (60 * k))) euid tmp ino flt p j s = (None, ss)" and "p \<noteq> tmp"
    and "entries s p \<noteq> Some ino"
  shows "journal_load (journal_dec (rfc3339_parse layout)) euid False False p (last ss)
    = Inr (clean_journal (with_schema j))"
proof -
  have v: "journal_validate (with_schema j) = None"
    using assms(1) by (auto simp: write_to_def Let_def split: option.splits)
  show ?thesis
    by (rule written_loads [OF _ assms], erule zoned.valid_codec [OF v])
      (use v clean_ok in \<open>auto simp: journal_validate_None\<close>)
qed

abbreviation json_load :: "(string \<Rightarrow> int option) \<Rightarrow> u32 \<Rightarrow> string \<Rightarrow> fs \<Rightarrow> load_err + journal" where
  "json_load layout euid p s \<equiv> journal_load (journal_dec (rfc3339_parse layout)) euid False False p s"

lemma json_crash_loads:
  assumes w: "write_to (journal_enc (rfc3339_text (60 * k))) euid tmp ino flt p j s = (e, ss)" "p \<noteq> tmp"
    and fresh: "fresh_inode ino s"
    and old: "\<And>s'. crash s s' \<Longrightarrow> json_load layout euid p s' \<in> Inr ` J"
  shows "t \<in> set (s # ss) \<Longrightarrow> crash t t' \<Longrightarrow>
      json_load layout euid p t' \<in> Inr ` insert (clean_journal (with_schema j)) J"
    and "e = None \<Longrightarrow> f_dir_sync flt = None \<Longrightarrow> crash (last ss) t' \<Longrightarrow>
      json_load layout euid p t' = Inr (clean_journal (with_schema j))"
proof -
  have valid: "journal_validate (with_schema j) = None \<Longrightarrow> journal_validate (clean_journal (with_schema j)) = None"
    using clean_ok by (simp add: journal_validate_None)
  show "json_load layout euid p t' \<in> Inr ` insert (clean_journal (with_schema j)) J"
    if t: "t \<in> set (s # ss)" "crash t t'"
  proof (cases "journal_validate (with_schema j)")
    case None
    show ?thesis by (rule crash_loads(1) [OF zoned.valid_codec [OF None] w fresh old valid t])
  next
    case (Some x)
    then have "ss = []" using w(1) by (simp add: write_to_def)
    with t old show ?thesis by auto
  qed
  assume e: "e = None" "f_dir_sync flt = None" "crash (last ss) t'"
  then have None: "journal_validate (with_schema j) = None"
    using w(1) by (auto simp: write_to_def split: option.splits)
  show "json_load layout euid p t' = Inr (clean_journal (with_schema j))"
    by (rule crash_loads(2) [OF zoned.valid_codec [OF None] w fresh old valid e])
qed

lemma json_crash_result:
  assumes "write_to (journal_enc (rfc3339_text (60 * k))) euid tmp ino flt p j s = (e, ss)" and "p \<noteq> tmp"
    and "fresh_inode ino s"
    and "\<And>s'. crash s s' \<Longrightarrow> json_load layout euid p s' \<in> Inr ` J"
    and "t \<in> set (s # ss)" and "crash t t'"
  shows "json_load layout euid p t' \<in> Inr ` (if e = None \<and> f_dir_sync flt = None \<and> t = last ss
      then {clean_journal (with_schema j)} else insert (clean_journal (with_schema j)) J)"
proof (cases "e = None \<and> f_dir_sync flt = None \<and> t = last ss")
  case True
  with assms(6) have "crash (last ss) t'" by simp
  with json_crash_loads(2) [OF assms(1-4)] True show ?thesis by simp
next
  case False
  with json_crash_loads(1) [OF assms(1-6)] show ?thesis by auto
qed

text \<open>
  C10. A journal survives a crash during its own update. A crash is the death of the process, which loses
  nothing, or a power failure, which leaves any version of the directory since its last sync and
  anything in the files that were not flushed. If after a crash before the update one of the journals
  \<open>J\<close> could be loaded, then after a crash at any point of WriteTo, whatever failed, Load returns one of
  \<open>J\<close> or the complete new one; it is never refused and never sees a mixture. And once WriteTo has
  succeeded with a sync of the directory, only the new journal is loaded.
\<close>

theorem load_after_crash:
  assumes "write_to (journal_enc (rfc3339_text (60 * k))) euid tmp ino flt p j s = (e, ss)" and "p \<noteq> tmp"
    and "fresh_inode ino s"
    and "\<And>s'. crash s s' \<Longrightarrow>
      journal_load (journal_dec (rfc3339_parse layout)) euid False False p s' \<in> Inr ` J"
    and "t \<in> set (s # ss)" and "crash t t'"
  shows "journal_load (journal_dec (rfc3339_parse layout)) euid False False p t'
      \<in> Inr ` (if e = None \<and> f_dir_sync flt = None \<and> t = last ss then {clean_journal (with_schema j)}
                else insert (clean_journal (with_schema j)) J)"
  using assms by (rule json_crash_result)

section \<open>Witnesses\<close>

text \<open>The encoding of the sample journal, in UTC, and a directory that holds it on disk.\<close>

lemma sample_enc_exists: "\<exists>b. journal_enc (rfc3339_text (60 * 0)) sample_journal = Some b"
proof -
  have "date_of 0 = (1970, 1, 1)" by code_simp
  then show ?thesis by (simp add: journal_enc_def rfc3339_text_def sample_journal_def)
qed

definition sample_doc :: "byte list" where
  "sample_doc = the (journal_enc (rfc3339_text (60 * 0)) sample_journal) @ [10]"

definition json_fs :: fs where
  "json_fs = \<lparr>entries = [''j'' \<mapsto> 1], disk = [[''j'' \<mapsto> 1]],
     inodes = [1 \<mapsto> \<lparr>ikind = Regular, imode = 384, iuid = 0, inlink = 1, idata = sample_doc, isynced = True\<rparr>]\<rparr>"

lemma sample_facts:
  "with_schema sample_journal = sample_journal" "clean_journal sample_journal = sample_journal"
  "journal_validate sample_journal = None"
proof -
  have "free_strings sample_journal = [''default'', [], ''0'', ''1'']" by (simp add: free_strings_def sample_journal_def)
  moreover have "list_all valid_utf8 [''default'', [], ''0'', ''1'']" by code_simp
  ultimately show "clean_journal sample_journal = sample_journal" using clean_id [OF sample_journal_ok] by simp
qed (simp_all add: with_schema_def sample_journal_def journal_validate_None sample_journal_ok [unfolded sample_journal_def])

lemma sample_dec: "journal_dec (rfc3339_parse layout) sample_doc = Inr (sample_journal, [10])"
proof -
  obtain b where "journal_enc (rfc3339_text (60 * 0)) sample_journal = Some b" using sample_enc_exists by blast
  with zoned.valid_codec [of sample_journal 0 b layout] show ?thesis by (simp add: sample_doc_def sample_facts)
qed

lemma sample_json_load:
  "journal_load (journal_dec (rfc3339_parse layout)) u False False ''j'' json_fs = Inr sample_journal"
  by (simp add: journal_load_def json_fs_def sample_dec group_or_other_def acceptable_owner_def json_space_def sample_facts)

lemma sample_json_crash:
  assumes "crash json_fs s'"
  shows "journal_load (journal_dec (rfc3339_parse layout)) u False False ''j'' s' \<in> Inr ` {sample_journal}"
  using assms
proof (cases rule: crash.cases)
  case killed
  then show ?thesis using sample_json_load by simp
next
  case (power d lost)
  have "{q. q = ''j''} = {''j''}" by auto
  with power show ?thesis
    by (simp add: journal_load_def power_cut_def json_fs_def sample_dec group_or_other_def acceptable_owner_def
        json_space_def sample_facts)
qed

lemma json_fs_fresh: "fresh_inode 2 json_fs"
  by (simp add: fresh_inode_def json_fs_def)

lemma sample_json_write:
  "\<exists>ss. write_to (journal_enc (rfc3339_text (60 * 0))) u ''t'' 2 no_faults ''j'' sample_journal json_fs = (None, ss)
    \<and> ss \<noteq> []"
proof -
  obtain b where "journal_enc (rfc3339_text (60 * 0)) sample_journal = Some b" using sample_enc_exists by blast
  then show ?thesis
    by (simp add: write_to_def no_faults_def json_fs_def sample_facts
        create_temp_def os_rename_def is_directory_def fsync_dir_def Let_def os_chmod_def
        os_write_def os_fsync_def update_inode_def set_entries_def)
qed

theorem load_after_write_witness:
  "\<exists>ss. write_to (journal_enc (rfc3339_text (60 * 0))) 1000 ''t'' 2 no_faults ''j'' sample_journal json_fs = (None, ss)
    \<and> journal_load (journal_dec (rfc3339_parse Map.empty)) 1000 False False ''j'' (last ss) = Inr sample_journal"
proof -
  obtain ss where w: "write_to (journal_enc (rfc3339_text (60 * 0))) 1000 ''t'' 2 no_faults ''j'' sample_journal json_fs
      = (None, ss)" using sample_json_write by blast
  from load_after_write [OF w, of Map.empty] w show ?thesis by (simp add: json_fs_def sample_facts)
qed

theorem load_after_crash_witness:
  "\<exists>ss. write_to (journal_enc (rfc3339_text (60 * 0))) 1000 ''t'' 2 no_faults ''j'' sample_journal json_fs = (None, ss)
    \<and> journal_load (journal_dec (rfc3339_parse Map.empty)) 1000 False False ''j''
        (power_cut (\<lambda>_. complete_inode 0 []) (entries (last ss)) (last ss)) = Inr sample_journal"
proof -
  obtain ss where w: "write_to (journal_enc (rfc3339_text (60 * 0))) 1000 ''t'' 2 no_faults ''j'' sample_journal json_fs
      = (None, ss)" and ne: "ss \<noteq> []" using sample_json_write by blast
  then have t: "last ss \<in> set (json_fs # ss)" by simp
  have "entries (last ss) \<in> set (disk (last ss))"
    using w sample_enc_exists by (auto simp: write_to_def no_faults_def json_fs_def sample_facts
        create_temp_def os_rename_def is_directory_def fsync_dir_def Let_def os_chmod_def
        os_write_def os_fsync_def update_inode_def)
  then have c: "crash (last ss) (power_cut (\<lambda>_. complete_inode 0 []) (entries (last ss)) (last ss))" by (rule crash.power)
  have "journal_load (journal_dec (rfc3339_parse Map.empty)) 1000 False False ''j''
      (power_cut (\<lambda>_. complete_inode 0 []) (entries (last ss)) (last ss)) \<in> Inr ` {sample_journal}"
    using load_after_crash [OF w _ json_fs_fresh sample_json_crash t c] by (simp add: no_faults_def sample_facts)
  with w show ?thesis by auto
qed

end
