(* ===== verification/SystemClock.thy ===== *)
theory SystemClock
  imports TestClock
begin

text \<open>
  The clock interface of \<open>internal/clock\<close>: the production clock \<open>System\<close>, which forwards to package
  \<open>time\<close>, with the timers of that package as Go has them since version 1.23 (the module is built with
  1.27), and how the deterministic clock of the tests compares with it. The runtime is idealised in
  one way: a timer fires exactly at its deadline.
\<close>

section \<open>Timers of package time\<close>

record 'f rtimer =
  rt_when :: "int option"
  rt_period :: int
  rt_buf :: "int option"
  rt_func :: "'f option"
  rt_runs :: nat

record 'f runtime =
  run_now :: int
  run_timers :: "'f rtimer list"

text \<open>
  A timer once the time is \<open>t\<close>: a channel takes a value only when it is empty, a periodic timer skips
  the ticks it has missed, a function runs in its own goroutine.
\<close>

definition rtimer_at :: "int \<Rightarrow> 'f rtimer \<Rightarrow> 'f rtimer" where
  "rtimer_at t x =
     (case rt_when x of
        None \<Rightarrow> x
      | Some w \<Rightarrow>
          if t < w then x
          else (case rt_func x of
                  Some _ \<Rightarrow> x\<lparr>rt_when := None, rt_runs := rt_runs x + 1\<rparr>
                | None \<Rightarrow> x\<lparr>rt_when := (if 0 < rt_period x then Some (w + rt_period x * (1 + (t - w) div rt_period x)) else None),
                    rt_buf := (if rt_buf x = None then Some w else rt_buf x)\<rparr>))"

definition elapse :: "int \<Rightarrow> 'f runtime \<Rightarrow> 'f runtime" where
  "elapse d r = r\<lparr>run_now := run_now r + d, run_timers := map (rtimer_at (run_now r + d)) (run_timers r)\<rparr>"

section \<open>System\<close>

text \<open>A handle is the index of the timer it wraps.\<close>

definition sys_now :: "'f runtime \<Rightarrow> int" where
  "sys_now r = run_now r"

definition sys_since :: "'f runtime \<Rightarrow> int \<Rightarrow> int" where
  "sys_since r t = max (- (2 ^ 63)) (min (2 ^ 63 - 1) (run_now r - t))"

definition start_timer :: "'f rtimer \<Rightarrow> 'f runtime \<Rightarrow> nat \<times> 'f runtime" where
  "start_timer x r = (length (run_timers r), r\<lparr>run_timers := run_timers r @ [x]\<rparr>)"

definition sys_new_timer :: "int \<Rightarrow> 'f runtime \<Rightarrow> nat \<times> 'f runtime" where
  "sys_new_timer d r =
     start_timer \<lparr>rt_when = Some (run_now r + max 0 d), rt_period = 0, rt_buf = None, rt_func = None, rt_runs = 0\<rparr> r"

definition sys_after_func :: "int \<Rightarrow> 'f \<Rightarrow> 'f runtime \<Rightarrow> nat \<times> 'f runtime" where
  "sys_after_func d f r =
     start_timer \<lparr>rt_when = Some (run_now r + max 0 d), rt_period = 0, rt_buf = None, rt_func = Some f, rt_runs = 0\<rparr> r"

definition sys_new_ticker :: "int \<Rightarrow> 'f runtime \<Rightarrow> (nat \<times> 'f runtime) may_panic" where
  "sys_new_ticker d r =
     (if d \<le> 0 then Inl (Panic ''non-positive interval for NewTicker'')
      else Inr (start_timer \<lparr>rt_when = Some (run_now r + d), rt_period = d, rt_buf = None, rt_func = None, rt_runs = 0\<rparr> r))"

definition set_timer :: "nat \<Rightarrow> 'f rtimer \<Rightarrow> 'f runtime \<Rightarrow> 'f runtime" where
  "set_timer i x r = r\<lparr>run_timers := (run_timers r)[i := x]\<rparr>"

text \<open>
  Stop and Reset report whether the timer was still to come or its value still unread, and take an
  unread value away, so that nothing stale is received afterwards.
\<close>

definition pending :: "'f rtimer \<Rightarrow> bool" where
  "pending x \<longleftrightarrow> rt_when x \<noteq> None \<or> rt_buf x \<noteq> None"

definition sys_timer_stop :: "nat \<Rightarrow> 'f runtime \<Rightarrow> bool \<times> 'f runtime" where
  "sys_timer_stop i r =
     (let x = run_timers r ! i in (pending x, set_timer i (x\<lparr>rt_when := None, rt_buf := None\<rparr>) r))"

definition sys_timer_reset :: "nat \<Rightarrow> int \<Rightarrow> 'f runtime \<Rightarrow> bool \<times> 'f runtime" where
  "sys_timer_reset i d r =
     (let x = run_timers r ! i in
      (pending x, set_timer i (x\<lparr>rt_when := Some (run_now r + max 0 d), rt_buf := None\<rparr>) r))"

definition sys_ticker_stop :: "nat \<Rightarrow> 'f runtime \<Rightarrow> 'f runtime" where
  "sys_ticker_stop i r = set_timer i ((run_timers r ! i)\<lparr>rt_when := None, rt_buf := None\<rparr>) r"

definition sys_ticker_reset :: "nat \<Rightarrow> int \<Rightarrow> 'f runtime \<Rightarrow> 'f runtime may_panic" where
  "sys_ticker_reset i d r =
     (if d \<le> 0 then Inl (Panic ''non-positive interval for Ticker.Reset'')
      else Inr (set_timer i ((run_timers r ! i)\<lparr>rt_when := Some (run_now r + d), rt_period := d, rt_buf := None\<rparr>) r))"

text \<open>The channel of a handle is nil for \<open>AfterFunc\<close>; a receive that does not block.\<close>

definition sys_chan :: "nat \<Rightarrow> 'f runtime \<Rightarrow> nat option" where
  "sys_chan i r = (if rt_func (run_timers r ! i) = None then Some i else None)"

definition sys_recv :: "nat \<Rightarrow> 'f runtime \<Rightarrow> int option \<times> 'f runtime" where
  "sys_recv i r = (rt_buf (run_timers r ! i), set_timer i ((run_timers r ! i)\<lparr>rt_buf := None\<rparr>) r)"

section \<open>What a client sees of a timer\<close>

text \<open>The calls on one timer or ticker, and the time that passes between them.\<close>

datatype timer_op = StopIt | ResetTo int | Elapse int | Receive

datatype answer = WasActive bool | Received "int option" | Done

record view =
  v_now :: int
  v_when :: "int option"
  v_period :: int
  v_buf :: "int option"

definition view_at :: "int \<Rightarrow> view \<Rightarrow> view" where
  "view_at t v =
     (case v_when v of
        None \<Rightarrow> v\<lparr>v_now := t\<rparr>
      | Some w \<Rightarrow>
          if t < w then v\<lparr>v_now := t\<rparr>
          else v\<lparr>v_now := t,
            v_when := (if 0 < v_period v then Some (w + v_period v * (1 + (t - w) div v_period v)) else None),
            v_buf := (if v_buf v = None then Some w else v_buf v)\<rparr>)"

text \<open>The contract of \<open>Timer\<close> and \<open>Ticker\<close> for a client; a ticker answers nothing.\<close>

definition was_active :: "bool \<Rightarrow> view \<Rightarrow> answer" where
  "was_active tick v = (if tick then Done else WasActive (v_when v \<noteq> None \<or> v_buf v \<noteq> None))"

fun contract_step :: "bool \<Rightarrow> view \<Rightarrow> timer_op \<Rightarrow> answer \<times> view" where
  "contract_step tick v StopIt = (was_active tick v, v\<lparr>v_when := None, v_buf := None\<rparr>)"
| "contract_step tick v (ResetTo d) =
     (was_active tick v, v\<lparr>v_when := Some (v_now v + d), v_period := (if tick then d else v_period v), v_buf := None\<rparr>)"
| "contract_step tick v (Elapse d) = (Done, view_at (v_now v + d) v)"
| "contract_step tick v Receive = (Received (v_buf v), v\<lparr>v_buf := None\<rparr>)"

text \<open>
  A client that receives what has been sent before it stops or resets a timer, and sets no timer to
  the present or the past.
\<close>

fun careful :: "view \<Rightarrow> timer_op \<Rightarrow> bool" where
  "careful v StopIt \<longleftrightarrow> v_buf v = None"
| "careful v (ResetTo d) \<longleftrightarrow> v_buf v = None \<and> 0 < d"
| "careful v (Elapse d) \<longleftrightarrow> 0 \<le> d"
| "careful v Receive \<longleftrightarrow> True"

fun careful_run :: "bool \<Rightarrow> view \<Rightarrow> timer_op list \<Rightarrow> bool" where
  "careful_run tick v [] \<longleftrightarrow> True"
| "careful_run tick v (e # es) \<longleftrightarrow> careful v e \<and> careful_run tick (snd (contract_step tick v e)) es"

text \<open>An implementation of the contract, for one timer of a clock.\<close>

locale timer_impl =
  fixes tick :: bool and ok :: "'s \<Rightarrow> bool" and view_of :: "'s \<Rightarrow> view" and step :: "'s \<Rightarrow> timer_op \<Rightarrow> answer \<times> 's"
  assumes step_ok: "ok s \<Longrightarrow> careful (view_of s) e \<Longrightarrow> ok (snd (step s e))"
    and step_view: "ok s \<Longrightarrow> careful (view_of s) e \<Longrightarrow>
      contract_step tick (view_of s) e = (fst (step s e), view_of (snd (step s e)))"
begin

lemma run_contract:
  "ok s \<Longrightarrow> careful_run tick (view_of s) es \<Longrightarrow>
     run_ops (contract_step tick) (view_of s) es = (fst (run_ops step s es), view_of (snd (run_ops step s es)))"
proof (induction es arbitrary: s)
  case (Cons e es)
  then have c: "careful (view_of s) e" "careful_run tick (snd (contract_step tick (view_of s) e)) es" by simp_all
  note n = step_ok [OF Cons.prems(1) c(1)] step_view [OF Cons.prems(1) c(1)]
  from Cons.IH [OF n(1)] c(2) n(2) show ?case by (simp add: split_beta Let_def)
qed simp

end

section \<open>System keeps the contract\<close>

definition sys_view :: "nat \<Rightarrow> 'f runtime \<Rightarrow> view" where
  "sys_view i r = (let x = run_timers r ! i in
     \<lparr>v_now = run_now r, v_when = rt_when x, v_period = rt_period x, v_buf = rt_buf x\<rparr>)"

definition sys_ok :: "nat \<Rightarrow> 'f runtime \<Rightarrow> bool" where
  "sys_ok i r \<longleftrightarrow> i < length (run_timers r) \<and> rt_func (run_timers r ! i) = None"

fun sys_step :: "bool \<Rightarrow> nat \<Rightarrow> 'f runtime \<Rightarrow> timer_op \<Rightarrow> answer \<times> 'f runtime" where
  "sys_step tick i r StopIt =
     (if tick then (Done, sys_ticker_stop i r) else apfst WasActive (sys_timer_stop i r))"
| "sys_step tick i r (ResetTo d) =
     (if tick then (case sys_ticker_reset i d r of Inl _ \<Rightarrow> (Done, r) | Inr r' \<Rightarrow> (Done, r'))
      else apfst WasActive (sys_timer_reset i d r))"
| "sys_step tick i r (Elapse d) = (Done, elapse d r)"
| "sys_step tick i r Receive = apfst Received (sys_recv i r)"

lemmas sys_defs = sys_ticker_stop_def sys_timer_stop_def sys_ticker_reset_def sys_timer_reset_def sys_recv_def
  set_timer_def elapse_def

lemma rtimer_at_view:
  assumes "rt_func x = None"
  shows "\<lparr>v_now = t, v_when = rt_when (rtimer_at t x), v_period = rt_period (rtimer_at t x), v_buf = rt_buf (rtimer_at t x)\<rparr>
    = view_at t \<lparr>v_now = u, v_when = rt_when x, v_period = rt_period x, v_buf = rt_buf x\<rparr>"
    and "rt_func (rtimer_at t x) = None"
  using assms by (simp_all add: rtimer_at_def view_at_def split: option.split)

interpretation sys: timer_impl tick "sys_ok i" "sys_view i" "sys_step tick i" for tick i
proof
  fix r :: "'f runtime" and e
  assume ok: "sys_ok i r" and c: "careful (sys_view i r) e"
  show "sys_ok i (snd (sys_step tick i r e))"
    using ok by (cases e) (auto simp: sys_ok_def sys_defs rtimer_at_view Let_def split: sum.split)
  show "contract_step tick (sys_view i r) e = (fst (sys_step tick i r e), sys_view i (snd (sys_step tick i r e)))"
    using ok c rtimer_at_view(1) [of "run_timers r ! i"]
    by (cases e) (auto simp: sys_ok_def sys_defs sys_view_def Let_def was_active_def pending_def)
qed

section \<open>The deterministic clock keeps it too\<close>

text \<open>One timer or ticker of a test clock; the callbacks of other timers do not touch the clock.\<close>

definition tc_view :: "handle \<Rightarrow> 'f tclock \<Rightarrow> view" where
  "tc_view h c =
     \<lparr>v_now = now c,
       v_when = (case lookup_entry (hid h) (timers c) of
         Some x \<Rightarrow> if active x then Some (deadline x) else None | None \<Rightarrow> None),
       v_period = (case lookup_entry (hid h) (timers c) of Some x \<Rightarrow> period x | None \<Rightarrow> 0),
       v_buf = chans c (hid h)\<rparr>"

definition own_entry :: "bool \<Rightarrow> handle \<Rightarrow> 'f entry \<Rightarrow> bool" where
  "own_entry tick h x \<longleftrightarrow> chan x = Some (hid h) \<and> callback x = None
     \<and> (if tick then 0 < period x else period x = 0 \<and> active x)"

definition tc_ok :: "bool \<Rightarrow> handle \<Rightarrow> 'f tclock \<Rightarrow> bool" where
  "tc_ok tick h c \<longleftrightarrow> clock_ok c \<and> hid h \<le> next_id c \<and> hchan h = Some (hid h)
     \<and> (case lookup_entry (hid h) (timers c) of Some x \<Rightarrow> own_entry tick h x | None \<Rightarrow> \<not> tick)"

fun tc_step :: "('f \<Rightarrow> 'f tclock \<times> 'w \<Rightarrow> 'f tclock \<times> 'w) \<Rightarrow> bool \<Rightarrow> handle
    \<Rightarrow> 'f tclock \<times> 'w \<Rightarrow> timer_op \<Rightarrow> answer \<times> 'f tclock \<times> 'w" where
  "tc_step cb tick h (c, w) StopIt =
     (if tick then (Done, ticker_stop h c, w) else (case timer_stop h c of (b, c') \<Rightarrow> (WasActive b, c', w)))"
| "tc_step cb tick h (c, w) (ResetTo d) =
     (if tick then (case ticker_reset h d c of Inl _ \<Rightarrow> (Done, c, w) | Inr c' \<Rightarrow> (Done, c', w))
      else (case timer_reset h d c of (b, c') \<Rightarrow> (WasActive b, c', w)))"
| "tc_step cb tick h (c, w) (Elapse d) =
     (Done, case clock_advance cb d (c, w) of Some (Inr (_, s)) \<Rightarrow> s | _ \<Rightarrow> (c, w))"
| "tc_step cb tick h (c, w) Receive = (case chan_recv h c of (v, c') \<Rightarrow> (Received v, c', w))"

text \<open>Firing at a deadline that has passed is a part of going to a later instant.\<close>

lemma view_at_fired:
  assumes "v_when v = Some x" and "x \<le> t" and "u = (if v_buf v = None then Some x else v_buf v)"
  shows "view_at t (v\<lparr>v_now := n, v_when := (if 0 < v_period v then Some (x + v_period v) else None), v_buf := u\<rparr>)
    = view_at t v"
proof (cases "0 < v_period v \<and> x + v_period v \<le> t")
  case True
  let ?p = "v_period v"
  have "(t - x) div ?p = (t - (x + ?p)) div ?p + 1"
    using True div_add_self2 [of ?p "t - (x + ?p)"] by simp
  then have "x + ?p + ?p * (1 + (t - (x + ?p)) div ?p) = x + ?p * (1 + (t - x) div ?p)"
    by (simp add: algebra_simps)
  with True assms show ?thesis by (simp add: view_at_def)
next
  case False
  then have "0 < v_period v \<Longrightarrow> (t - x) div v_period v = 0" using assms(2) by (simp add: div_pos_pos_trivial)
  with False assms show ?thesis by (auto simp: view_at_def not_le)
qed

lemma fire_view:
  assumes ok: "tc_ok tick h c" and due: "earliest_due t c = Some e"
  shows "tc_ok tick h (after_fire e c)" and "view_at t (tc_view h (after_fire e c)) = view_at t (tc_view h c)"
proof -
  have c: "clock_ok c" using ok by (simp add: tc_ok_def)
  note e = earliest_due_Some [OF due]
  have le: "lookup_entry (eid e) (timers c) = Some e" using c e by (simp add: clock_ok_def lookup_entry_mem)
  have ce: "chan e = None \<or> chan e = Some (eid e)" using c e by (simp add: clock_ok_def entry_ok_def)
  have "tc_ok tick h (after_fire e c) \<and> view_at t (tc_view h (after_fire e c)) = view_at t (tc_view h c)"
  proof (cases "eid e = hid h")
    case True
    then have own: "own_entry tick h e" using ok le by (simp add: tc_ok_def)
    then have "tc_ok tick h (after_fire e c)"
      using ok le True after_fire_ok [OF c due] by (auto simp: tc_ok_def after_fire_def own_entry_def)
    moreover have "tc_view h (after_fire e c) = (tc_view h c)\<lparr>v_now := deadline e,
        v_when := (if 0 < period e then Some (deadline e + period e) else None),
        v_buf := (if chans c (hid h) = None then Some (deadline e) else chans c (hid h))\<rparr>"
      using own le True e by (cases tick) (auto simp: tc_view_def after_fire_def own_entry_def)
    moreover have w: "v_when (tc_view h c) = Some (deadline e)" and v: "v_period (tc_view h c) = period e"
      "v_buf (tc_view h c) = chans c (hid h)"
      using le True e by (simp_all add: tc_view_def)
    ultimately show ?thesis using view_at_fired [OF w _ refl, of t "deadline e"] e unfolding v by simp
  next
    case False
    then have "chans (after_fire e c) (hid h) = chans c (hid h)"
      using ce by (auto simp: after_fire_def split: option.split)
    moreover have "lookup_entry (hid h) (timers (after_fire e c)) = lookup_entry (hid h) (timers c)"
      using False by (simp add: after_fire_def)
    moreover have "next_id (after_fire e c) = next_id c" by (simp add: after_fire_def)
    ultimately show ?thesis
      using ok after_fire_ok [OF c due] by (auto simp: tc_ok_def tc_view_def view_at_def split: option.split)
  qed
  then show "tc_ok tick h (after_fire e c)" "view_at t (tc_view h (after_fire e c)) = view_at t (tc_view h c)"
    by simp_all
qed

lemma advance_view:
  assumes ok: "tc_ok tick h c" and "quiet cb" and "0 \<le> d" and run: "clock_advance cb d (c, w) = Some (Inr (tr, c', w'))"
  shows "tc_ok tick h c' \<and> tc_view h c' = view_at (now c + d) (tc_view h c)"
proof -
  let ?t = "now c + d"
  obtain c1 where run: "set_loop cb ?t [] (c, w) = Some (tr, c1, w')" and c': "c' = c1\<lparr>now := ?t\<rparr>"
    using clock_set_Inr [of cb ?t "(c, w)"] run assms(3) by (auto simp: clock_advance_def)
  define I where "I = (\<lambda>(_ :: 'a entry list) (s :: 'a tclock \<times> 'b). tc_ok tick h (fst s)
    \<and> view_at ?t (tc_view h (fst s)) = view_at ?t (tc_view h c))"
  have "I tr (c1, w') \<and> earliest_due ?t (fst (c1, w')) = None"
  proof (rule set_loop_rule [OF run])
    show "I [] (c, w)" using ok by (simp add: I_def)
  next
    fix tr' :: "'a entry list" and s :: "'a tclock \<times> 'b" and e
    assume "I tr' s" and "earliest_due ?t (fst s) = Some e"
    with fire_view [of tick h "fst s" ?t e] fst_fire_quiet [OF assms(2), of e "fst s" "snd s"]
    show "I (tr' @ [e]) (fire cb e s)" by (simp add: I_def)
  qed
  then have i: "tc_ok tick h c1" "view_at ?t (tc_view h c1) = view_at ?t (tc_view h c)" "earliest_due ?t c1 = None"
    by (simp_all add: I_def)
  have "view_at ?t (tc_view h c1) = tc_view h c'"
    using i(3) by (auto simp: earliest_due_None view_at_def tc_view_def c' Let_def split: option.split dest!: lookup_entry_Some)
  moreover have "tc_ok tick h c'"
  proof -
    have "?t \<le> deadline x" if "x \<in> set (timers c1)" "active x" for x
      using i(3) that by (auto simp: earliest_due_None order_less_imp_le)
    with i(1) show ?thesis by (auto simp: tc_ok_def c' clock_ok_def entry_ok_def)
  qed
  ultimately show ?thesis using i(2) by simp
qed

interpretation tc: timer_impl tick "\<lambda>s. quiet cb \<and> tc_ok tick h (fst s)" "\<lambda>s. tc_view h (fst s)" "tc_step cb tick h"
  for cb tick h
proof
  fix s :: "'a tclock \<times> 'b" and e
  assume "quiet cb \<and> tc_ok tick h (fst s)" and c: "careful (tc_view h (fst s)) e"
  then have q: "quiet cb" and ok: "tc_ok tick h (fst s)" by simp_all
  obtain k w where s: "s = (k, w)" by fastforce
  have k: "clock_ok k" "handle_ok k h" using ok by (simp_all add: s tc_ok_def handle_ok_def)
  have "tc_ok tick h (fst (snd (tc_step cb tick h s e)))
    \<and> contract_step tick (tc_view h k) e = (fst (tc_step cb tick h s e), tc_view h (fst (snd (tc_step cb tick h s e))))"
  proof (cases e)
    case StopIt
    then show ?thesis
      using ok c timer_stop_ok [OF k(1), of h] ticker_stop_ok [OF k(1), of h]
      by (cases tick) (auto simp: s tc_ok_def tc_view_def own_entry_def was_active_def timer_stop_def ticker_stop_def
          split: option.splits)
  next
    case (ResetTo d)
    have "clock_ok (snd (timer_reset h d k))" using timer_reset_ok [OF k] c ResetTo by simp
    moreover have "clock_ok c'" if "ticker_reset h d k = Inr c'" for c' using ticker_reset_ok [OF k(1) that] .
    ultimately show ?thesis
      using ok c ResetTo
      by (cases tick) (auto simp: s tc_ok_def tc_view_def own_entry_def was_active_def timer_reset_def ticker_reset_def
          split: option.splits)
  next
    case (Elapse d)
    then have d: "0 \<le> d" using c by simp
    obtain tr c' w' where "clock_set cb (now k + d) (k, w) = Some (Inr (tr, c', w'))"
      using clock_set_ex [OF q k(1), of "now k + d" w] d by auto
    then have "clock_advance cb d (k, w) = Some (Inr (tr, c', w'))" using d by (simp add: clock_advance_def)
    with advance_view [OF _ q d this] ok Elapse show ?thesis by (simp add: s) (simp add: tc_view_def Let_def)
  next
    case Receive
    then show ?thesis
      using ok by (auto simp: s tc_ok_def tc_view_def own_entry_def chan_recv_def clock_ok_def entry_ok_def Let_def
          split: option.splits)
  qed
  then show "quiet cb \<and> tc_ok tick h (fst (snd (tc_step cb tick h s e)))"
    and "contract_step tick (tc_view h (fst s)) e = (fst (tc_step cb tick h s e), tc_view h (fst (snd (tc_step cb tick h s e))))"
    using q by (simp_all add: s)
qed

section \<open>The clock of the tests stands for the system clock\<close>

definition new_view :: "bool \<Rightarrow> int \<Rightarrow> int \<Rightarrow> view" where
  "new_view tick t d = \<lparr>v_now = t, v_when = Some (t + d), v_period = (if tick then d else 0), v_buf = None\<rparr>"

definition made_on_both :: "bool \<Rightarrow> int \<Rightarrow> 'f tclock \<Rightarrow> handle \<times> 'f tclock \<Rightarrow> 'g runtime \<Rightarrow> nat \<times> 'g runtime \<Rightarrow> bool" where
  "made_on_both tick d c hc r ir \<longleftrightarrow>
     (if tick then new_ticker d c = Inr hc \<and> sys_new_ticker d r = Inr ir
      else new_timer d c = hc \<and> sys_new_timer d r = ir)"

lemma made_views:
  assumes "clock_ok c" and "0 < d" and "run_now r = now c" and "made_on_both tick d c (h, c1) r (i, r1)"
  shows "tc_ok tick h c1" and "tc_view h c1 = new_view tick (now c) d" and "sys_ok i r1"
    and "sys_view i r1 = new_view tick (now c) d"
proof -
  let ?i = "next_id c + 1"
  let ?p = "if tick then d else 0"
  have h: "h = \<lparr>hclock = clock_id c, hid = ?i, hchan = Some ?i\<rparr>" and c1: "c1 = add_entry d ?p (Some ?i) None c"
    using assms(4) by (auto simp: made_on_both_def new_ticker_def new_timer_def Let_def split: if_splits)
  have "clock_ok c1" unfolding c1 using assms(1,2) by (intro add_entry_ok) auto
  moreover have "lookup_entry ?i (timers c) = None"
    using assms(1) by (fastforce simp: lookup_entry_None clock_ok_def entry_ok_def)
  ultimately show "tc_ok tick h c1" "tc_view h c1 = new_view tick (now c) d"
    using assms(2) by (auto simp: tc_ok_def tc_view_def new_view_def own_entry_def h c1 add_entry_def)
  show "sys_ok i r1" "sys_view i r1 = new_view tick (now c) d"
    using assms(2-4) by (auto simp: made_on_both_def sys_new_ticker_def sys_new_timer_def start_timer_def sys_ok_def
        sys_view_def new_view_def split: if_splits)
qed

text \<open>
  C37. A timer or ticker of the deterministic clock cannot be told from one of the production clock by a
  careful client: made at the same instant with the same positive duration, and whatever else is armed on
  either clock, a history of Stop, of Reset to positive durations, of receives and of time that passes (never
  backwards) gives the same answers, value for value, if the client has received what was sent before it stops
  or resets, and callbacks leave the clock alone. Without that care the clocks differ: an unread value survives
  a reset on the test clock only, and a timer that is reset to a negative duration delivers its own past
  deadline there and the present on the production clock.
\<close>

theorem test_clock_like_system:
  assumes "clock_ok c" and "quiet cb" and "0 < d" and "run_now r = now c"
    and "made_on_both tick d c (h, c1) r (i, r1)" and "careful_run tick (new_view tick (now c) d) es"
  shows "fst (run_ops (tc_step cb tick h) (c1, w) es) = fst (run_ops (sys_step tick i) r1 es)"
proof -
  note m = made_views [OF assms(1,3,4,5)]
  have "run_ops (contract_step tick) (tc_view h c1) es = (fst (run_ops (tc_step cb tick h) (c1, w) es),
      tc_view h (fst (snd (run_ops (tc_step cb tick h) (c1, w) es))))"
    using tc.run_contract [of cb tick h "(c1, w)" es] assms(2,6) m by simp
  moreover have "run_ops (contract_step tick) (sys_view i r1) es =
      (fst (run_ops (sys_step tick i) r1 es), sys_view i (snd (run_ops (sys_step tick i) r1 es)))"
    using sys.run_contract [of i r1 tick es] assms(6) m by simp
  ultimately show ?thesis using m by simp
qed

theorem test_clock_like_system_witness:
  "\<exists>h c1 i r1. made_on_both True 5 (clock_new 0 100 :: nat tclock) (h, c1) \<lparr>run_now = 100, run_timers = []\<rparr> (i, r1 :: nat runtime)
    \<and> fst (run_ops (tc_step no_callback True h) (c1, ()) [Elapse 12, Receive, Receive, StopIt, Elapse 9, Receive])
      = [Done, Received (Some 105), Received None, Done, Done, Received None]"
proof -
  let ?es = "[Elapse 12, Receive, Receive, StopIt, Elapse 9, Receive]"
  let ?r = "\<lparr>run_now = 100, run_timers = []\<rparr> :: nat runtime"
  obtain h and c1 :: "nat tclock" and i and r1 :: "nat runtime" where
      made: "made_on_both True 5 (clock_new 0 100) (h, c1) ?r (i, r1)"
    by (auto simp: made_on_both_def new_ticker_def sys_new_ticker_def start_timer_def Let_def)
  have now: "run_now ?r = now (clock_new 0 100 :: nat tclock)" by (simp add: clock_new_def)
  have careful: "careful_run True (new_view True (now (clock_new 0 100 :: nat tclock)) 5) ?es"
    by (simp add: new_view_def clock_new_def view_at_def)
  from test_clock_like_system [OF clock_new_ok no_callback_quiet _ now made careful] made
  have "fst (run_ops (tc_step no_callback True h) (c1, ()) ?es) = fst (run_ops (sys_step True i) r1 ?es)" by simp
  also have "\<dots> = [Done, Received (Some 105), Received None, Done, Done, Received None]"
    using made by (auto simp: made_on_both_def sys_new_ticker_def start_timer_def sys_defs rtimer_at_def)
  finally show ?thesis using made by blast
qed

text \<open>
  Without that care they differ. After its deadline a timer is stopped or reset with its value still
  unread: the production clock reports that it stopped it and the value is gone, the test clock
  reports false and the old value is received after the reset.
\<close>

theorem stale_value_after_reset:
  "made_on_both False 5 (clock_new 0 100 :: nat tclock) (h, c1) \<lparr>run_now = 100, run_timers = []\<rparr> (i, r1 :: nat runtime) \<Longrightarrow>
     fst (run_ops (tc_step no_callback False h) (c1, ()) [Elapse 5, ResetTo 10, Receive])
       = [Done, WasActive False, Received (Some 105)]
     \<and> fst (run_ops (sys_step False i) r1 [Elapse 5, ResetTo 10, Receive])
       = [Done, WasActive True, Received None]"
  by (auto simp: made_on_both_def new_timer_def sys_new_timer_def start_timer_def sys_defs rtimer_at_def pending_def
      clock_new_def add_entry_def clock_advance_def clock_set_def set_loop.simps earliest_due_def fire_def
      timer_reset_def chan_recv_def lookup_entry_def delete_entry_def Let_def)

text \<open>
  So they do when a timer is reset to the past: the test clock delivers the instant three before the
  present, the production clock the present.
\<close>

theorem negative_reset_differs:
  "made_on_both False 5 (clock_new 0 100 :: nat tclock) (h, c1) \<lparr>run_now = 100, run_timers = []\<rparr> (i, r1 :: nat runtime) \<Longrightarrow>
     fst (run_ops (tc_step no_callback False h) (c1, ()) [ResetTo (- 3), Elapse 0, Receive])
       = [WasActive True, Done, Received (Some 97)]
     \<and> fst (run_ops (sys_step False i) r1 [ResetTo (- 3), Elapse 0, Receive])
       = [WasActive True, Done, Received (Some 100)]"
  by (auto simp: made_on_both_def new_timer_def sys_new_timer_def start_timer_def sys_defs rtimer_at_def pending_def
      clock_new_def add_entry_def clock_advance_def clock_set_def set_loop.simps earliest_due_def fire_def
      timer_reset_def chan_recv_def lookup_entry_def delete_entry_def update_entry_def Let_def)

end
