(* ===== verification/PacketBuf.thy ===== *)
theory PacketBuf
  imports Prelude
begin

text \<open>
  Pooled buffers, \<open>internal/packetbuf\<close>. A buffer is a cell of a heap and a pointer to it is its
  index; its backing array keeps the length of its size class and \<open>blen\<close> is the length of the
  slice. \<open>sync.Pool\<close> may hand back any stored buffer, make a new one, or drop stored ones: \<open>pick\<close>
  says which, and the theorems quantify over it. The build tag is the argument \<open>debug\<close>.
\<close>

definition max_handshake_datagram :: int where "max_handshake_datagram = 768"
definition max_data_datagram :: int where "max_data_datagram = 1500"
definition max_outer_datagram :: int where "max_outer_datagram = 1560"

definition size_classes :: "int list" where
  "size_classes = [128, max_handshake_datagram, max_outer_datagram]"

record buffer =
  store :: "byte list"
  blen :: nat
  bclass :: int
  pooled :: bool
  pool_idx :: nat
  released :: bool

record pool =
  bufs :: "buffer list"
  classes :: "int list"
  free :: "nat list list"

definition new_pool :: "int list \<Rightarrow> pool" where
  "new_pool cs = \<lparr>bufs = [], classes = cs, free = map (\<lambda>_. []) cs\<rparr>"

text \<open>The first size class that fits, with its index.\<close>

fun class_for :: "int \<Rightarrow> nat \<Rightarrow> int list \<Rightarrow> (nat \<times> int) option" where
  "class_for n i [] = None"
| "class_for n i (sz # cs) = (if n \<le> sz then Some (i, sz) else class_for n (i + 1) cs)"

text \<open>\<open>New\<close> of the \<open>sync.Pool\<close> of one class.\<close>

definition fresh_buffer :: "int \<Rightarrow> buffer" where
  "fresh_buffer sz = \<lparr>store = replicate (nat sz) 0, blen = nat sz, bclass = sz, pooled = False,
     pool_idx = 0, released = False\<rparr>"

text \<open>\<open>sync.Pool.Get\<close>: a stored buffer when \<open>pick\<close> names one, a new one otherwise.\<close>

definition take_free :: "nat option \<Rightarrow> nat \<Rightarrow> int \<Rightarrow> pool \<Rightarrow> nat \<times> pool" where
  "take_free pick i sz p =
     (case pick of
        Some k \<Rightarrow>
          if k < length (free p ! i) then
            (free p ! i ! k, p\<lparr>free := (free p)[i := remove1 (free p ! i ! k) (free p ! i)]\<rparr>)
          else (length (bufs p), p\<lparr>bufs := bufs p @ [fresh_buffer sz]\<rparr>)
      | None \<Rightarrow> (length (bufs p), p\<lparr>bufs := bufs p @ [fresh_buffer sz]\<rparr>))"

definition upd_buf :: "nat \<Rightarrow> (buffer \<Rightarrow> buffer) \<Rightarrow> pool \<Rightarrow> pool" where
  "upd_buf b f p = p\<lparr>bufs := (bufs p)[b := f (bufs p ! b)]\<rparr>"

definition pool_get :: "nat option \<Rightarrow> int \<Rightarrow> pool \<Rightarrow> (nat \<times> pool) may_panic" where
  "pool_get pick n p =
     (if n < 0 then Inl (Panic ''packetbuf: negative length'')
      else (case class_for n 0 (classes p) of
              None \<Rightarrow> Inl (Panic ''packetbuf: requested size exceeds largest class'')
            | Some (i, sz) \<Rightarrow>
                (let (b, p') = take_free pick i sz p
                 in Inr (b, upd_buf b (\<lambda>x. x\<lparr>pooled := True, pool_idx := i, blen := nat n,
                      released := False\<rparr>) p'))))"

definition check_live :: "bool \<Rightarrow> nat \<Rightarrow> pool \<Rightarrow> go_panic option" where
  "check_live debug b p =
     (if debug \<and> released (bufs p ! b) then Some (Panic ''packetbuf: use of released buffer'') else None)"

definition buf_bytes :: "bool \<Rightarrow> nat \<Rightarrow> pool \<Rightarrow> byte list may_panic" where
  "buf_bytes debug b p =
     (case check_live debug b p of
        Some e \<Rightarrow> Inl e
      | None \<Rightarrow> Inr (take (blen (bufs p ! b)) (store (bufs p ! b))))"

definition buf_cap :: "nat \<Rightarrow> pool \<Rightarrow> int" where
  "buf_cap b p = bclass (bufs p ! b)"

definition buf_resize :: "bool \<Rightarrow> nat \<Rightarrow> int \<Rightarrow> pool \<Rightarrow> pool may_panic" where
  "buf_resize debug b n p =
     (case check_live debug b p of
        Some e \<Rightarrow> Inl e
      | None \<Rightarrow>
          if n < 0 \<or> n > bclass (bufs p ! b) then Inl (Panic ''packetbuf: Resize out of range'')
          else Inr (upd_buf b (\<lambda>x. x\<lparr>blen := nat n\<rparr>) p))"

definition report_double_release :: "bool \<Rightarrow> pool \<Rightarrow> pool may_panic" where
  "report_double_release debug p =
     (if debug then Inl (Panic ''packetbuf: double release'') else Inr p)"

definition buf_release :: "bool \<Rightarrow> nat \<Rightarrow> pool \<Rightarrow> pool may_panic" where
  "buf_release debug b p =
     (let x = bufs p ! b in
      if released x then report_double_release debug p
      else Inr ((upd_buf b (\<lambda>x. x\<lparr>released := True, blen := nat (bclass x), pooled := False\<rparr>) p)
             \<lparr>free := (free p)[pool_idx x := free p ! pool_idx x @ [b]]\<rparr>))"

text \<open>Writing through the slice that Bytes returned, from its start.\<close>

definition buf_write :: "nat \<Rightarrow> byte list \<Rightarrow> pool \<Rightarrow> pool" where
  "buf_write b d p = upd_buf b (\<lambda>x. x\<lparr>store := take (blen x) d
     @ drop (min (blen x) (length d)) (store x)\<rparr>) p"

text \<open>The collector empties a pool at any time.\<close>

definition drop_free :: "nat \<Rightarrow> nat \<Rightarrow> pool \<Rightarrow> pool" where
  "drop_free i b p = p\<lparr>free := (free p)[i := removeAll b (free p ! i)]\<rparr>"

section \<open>The ownership discipline\<close>

text \<open>
  The package comment's contract as a step relation on a pool and the set of buffers that
  have an owner: a buffer is used and released only while owned. Giving a buffer to another
  component leaves it in the set.
\<close>

inductive own_step :: "bool \<Rightarrow> pool \<times> nat set \<Rightarrow> pool \<times> nat set \<Rightarrow> bool" for debug where
  get: "pool_get pick n p = Inr (b, p') \<Longrightarrow> own_step debug (p, W) (p', insert b W)"
| resize: "b \<in> W \<Longrightarrow> buf_resize debug b n p = Inr p' \<Longrightarrow> own_step debug (p, W) (p', W)"
| fill: "b \<in> W \<Longrightarrow> own_step debug (p, W) (buf_write b d p, W)"
| release: "b \<in> W \<Longrightarrow> buf_release debug b p = Inr p' \<Longrightarrow> own_step debug (p, W) (p', W - {b})"
| collect: "own_step debug (p, W) (drop_free i b p, W)"

inductive reachable_pool :: "bool \<Rightarrow> int list \<Rightarrow> pool \<times> nat set \<Rightarrow> bool" for debug cs where
  start: "reachable_pool debug cs (new_pool cs, {})"
| step: "reachable_pool debug cs s \<Longrightarrow> own_step debug s s' \<Longrightarrow> reachable_pool debug cs s'"

definition buffer_ok :: "buffer \<Rightarrow> bool" where
  "buffer_ok x \<longleftrightarrow> length (store x) = nat (bclass x) \<and> blen x \<le> nat (bclass x)"

definition pool_inv :: "int list \<Rightarrow> pool \<times> nat set \<Rightarrow> bool" where
  "pool_inv cs s \<longleftrightarrow> (case s of (p, W) \<Rightarrow>
     classes p = cs \<and> length (free p) = length cs
   \<and> list_all buffer_ok (bufs p)
   \<and> (\<forall>b \<in> W. b < length (bufs p) \<and> \<not> released (bufs p ! b)
        \<and> pool_idx (bufs p ! b) < length cs \<and> cs ! pool_idx (bufs p ! b) = bclass (bufs p ! b) \<and> 0 \<le> bclass (bufs p ! b))
   \<and> (\<forall>i < length cs. distinct (free p ! i)
        \<and> (\<forall>b \<in> set (free p ! i). b < length (bufs p) \<and> released (bufs p ! b) \<and> b \<notin> W
             \<and> pool_idx (bufs p ! b) = i \<and> bclass (bufs p ! b) = cs ! i)))"


lemma class_for_Some:
  "class_for n i cs = Some (k, sz) \<Longrightarrow> i \<le> k \<and> k - i < length cs \<and> cs ! (k - i) = sz \<and> n \<le> sz"
  by (induction cs arbitrary: i) (fastforce simp: nth_Cons' split: if_splits)+

lemma class_for_None: "class_for n i cs = None \<longleftrightarrow> (\<forall>sz \<in> set cs. sz < n)"
  by (induction cs arbitrary: i) auto

lemma upd_buf_sel [simp]:
  "classes (upd_buf b f p) = classes p" "free (upd_buf b f p) = free p"
  "length (bufs (upd_buf b f p)) = length (bufs p)"
  "b < length (bufs p) \<Longrightarrow> bufs (upd_buf b f p) ! c = (if c = b then f (bufs p ! b) else bufs p ! c)"
  by (auto simp: upd_buf_def nth_list_update)

lemma upd_buf_ok:
  "list_all buffer_ok (bufs p) \<Longrightarrow> b < length (bufs p) \<Longrightarrow> buffer_ok (f (bufs p ! b)) \<Longrightarrow>
     list_all buffer_ok (bufs (upd_buf b f p))"
  by (auto simp: upd_buf_def list_all_length nth_list_update)

text \<open>What a Get that returns has taken: a free buffer, or one that did not exist.\<close>

lemma take_free_cases:
  assumes "take_free pick i sz p = (b, p')"
  obtains (stored) "b \<in> set (free p ! i)"
      "p' = p\<lparr>free := (free p)[i := remove1 b (free p ! i)]\<rparr>"
  | (new) "b = length (bufs p)" "p' = p\<lparr>bufs := bufs p @ [fresh_buffer sz]\<rparr>"
  using assms by (auto simp: take_free_def split: option.splits if_splits)

text \<open>The buffer as Get hands it out, and what the caller then holds.\<close>

definition handed :: "nat \<Rightarrow> int \<Rightarrow> buffer \<Rightarrow> buffer" where
  "handed i n x = x\<lparr>pooled := True, pool_idx := i, blen := nat n, released := False\<rparr>"

definition handed_out :: "int list \<Rightarrow> nat set \<Rightarrow> int \<Rightarrow> nat \<Rightarrow> pool \<Rightarrow> bool" where
  "handed_out cs W n b p' \<longleftrightarrow> b \<notin> W \<and> pool_inv cs (p', insert b W)
     \<and> blen (bufs p' ! b) = nat n \<and> n \<le> bclass (bufs p' ! b) \<and> 0 \<le> n"

lemma get_stored:
  assumes "pool_inv cs (p, W)" and i: "i < length cs" "n \<le> cs ! i" "0 \<le> n" and mem: "b \<in> set (free p ! i)"
    and p': "p' = upd_buf b (handed i n) (p\<lparr>free := (free p)[i := remove1 b (free p ! i)]\<rparr>)"
  shows "handed_out cs W n b p'"
proof -
  note inv = assms(1) [unfolded pool_inv_def split_conv]
  have b: "b < length (bufs p)" "released (bufs p ! b)" "b \<notin> W" "bclass (bufs p ! b) = cs ! i"
    using inv i mem by auto
  have ok: "buffer_ok (bufs p ! b)" using inv b(1) by (simp add: list_all_length)
  have dj: "b \<notin> set (free p ! k)" if "k < length cs" "k \<noteq> i" for k
    using inv i(1) that mem by metis
  have d: "distinct (free p ! i)" using inv i(1) by blast
  have fr: "free p' ! k = (if k = i then remove1 b (free p ! i) else free p ! k)" if "k < length cs" for k
    using inv that i(1) unfolding p' by (simp add: nth_list_update)
  have bf: "bufs p' ! c = (if c = b then handed i n (bufs p ! b) else bufs p ! c)" for c
    using b(1) unfolding p' by simp
  have len: "length (bufs p') = length (bufs p)" "classes p' = cs" "length (free p') = length cs"
    using inv unfolding p' by simp_all
  have "list_all buffer_ok (bufs p')"
    unfolding p' using inv b ok i by (intro upd_buf_ok) (auto simp: buffer_ok_def handed_def)
  moreover have "\<forall>k < length cs. distinct (free p' ! k)
      \<and> (\<forall>c \<in> set (free p' ! k). c < length (bufs p') \<and> released (bufs p' ! c) \<and> c \<notin> insert b W
           \<and> pool_idx (bufs p' ! c) = k \<and> bclass (bufs p' ! c) = cs ! k)"
    using inv d dj by (auto simp: fr bf len)
  moreover have "\<forall>c \<in> insert b W. c < length (bufs p') \<and> \<not> released (bufs p' ! c)
      \<and> pool_idx (bufs p' ! c) < length cs \<and> cs ! pool_idx (bufs p' ! c) = bclass (bufs p' ! c) \<and> 0 \<le> bclass (bufs p' ! c)"
    using inv b i by (auto simp: bf len handed_def)
  ultimately have "pool_inv cs (p', insert b W)"
    using inv by (simp add: pool_inv_def len)
  then show ?thesis using b i bf by (simp add: handed_out_def handed_def)
qed

lemma get_new:
  assumes "pool_inv cs (p, W)" and i: "i < length cs" "n \<le> cs ! i" "0 \<le> n" and b: "b = length (bufs p)"
    and p': "p' = upd_buf b (handed i n) (p\<lparr>bufs := bufs p @ [fresh_buffer (cs ! i)]\<rparr>)"
  shows "handed_out cs W n b p'"
proof -
  note inv = assms(1) [unfolded pool_inv_def split_conv]
  have bf: "bufs p' ! c = (if c = b then handed i n (fresh_buffer (cs ! i)) else bufs p ! c)" if "c < length (bufs p')" for c
    using that unfolding p' b by (simp add: nth_append)
  have len: "length (bufs p') = Suc (length (bufs p))" "free p' = free p" "classes p' = cs"
    using inv unfolding p' b by simp_all
  have nW: "c < length (bufs p) \<and> c \<noteq> b" if "c \<in> W" for c using inv that b by blast
  have nf: "c < length (bufs p) \<and> c \<noteq> b" if "k < length cs" "c \<in> set (free p ! k)" for c k
    using inv that b by blast
  have "list_all buffer_ok (bufs p')"
    unfolding p' using inv i
    by (intro upd_buf_ok) (auto simp: b buffer_ok_def fresh_buffer_def handed_def)
  moreover have "\<forall>c \<in> insert b W. c < length (bufs p') \<and> \<not> released (bufs p' ! c)
      \<and> pool_idx (bufs p' ! c) < length cs \<and> cs ! pool_idx (bufs p' ! c) = bclass (bufs p' ! c) \<and> 0 \<le> bclass (bufs p' ! c)"
    using inv i nW b by (auto simp: len bf fresh_buffer_def handed_def less_Suc_eq)
  moreover have "\<forall>k < length cs. distinct (free p' ! k)
      \<and> (\<forall>c \<in> set (free p' ! k). c < length (bufs p') \<and> released (bufs p' ! c) \<and> c \<notin> insert b W
           \<and> pool_idx (bufs p' ! c) = k \<and> bclass (bufs p' ! c) = cs ! k)"
    using inv nf by (auto simp: len bf less_Suc_eq)
  ultimately have "pool_inv cs (p', insert b W)"
    using inv by (simp add: pool_inv_def len)
  then show ?thesis
    using nW i bf [of b] len b by (auto simp: handed_out_def handed_def fresh_buffer_def)
qed

lemma get_returns_free:
  assumes "pool_inv cs (p, W)" and "pool_get pick n p = Inr (b, p')"
  shows "b \<notin> W" and "pool_inv cs (p', insert b W)"
    and "blen (bufs p' ! b) = nat n" and "n \<le> bclass (bufs p' ! b)" and "0 \<le> n"
proof -
  from assms(2) obtain i sz q where c: "class_for n 0 (classes p) = Some (i, sz)" "0 \<le> n"
    and q: "take_free pick i sz p = (b, q)"
    and p': "p' = upd_buf b (handed i n) q"
    by (auto simp: pool_get_def Let_def handed_def [abs_def] split: if_splits option.splits prod.splits)
  have i: "i < length cs" "cs ! i = sz" "n \<le> sz"
    using class_for_Some [OF c(1)] assms(1) by (auto simp: pool_inv_def)
  have "handed_out cs W n b p'"
    using q by (cases rule: take_free_cases)
      (use get_stored [OF assms(1) i(1)] get_new [OF assms(1) i(1)] i c(2) p' in auto)
  then show "b \<notin> W" "pool_inv cs (p', insert b W)"
    "blen (bufs p' ! b) = nat n" "n \<le> bclass (bufs p' ! b)" "0 \<le> n" by (simp_all add: handed_out_def)
qed


lemma inv_owned: "pool_inv cs (p, W) \<Longrightarrow> b \<in> W \<Longrightarrow>
    b < length (bufs p) \<and> \<not> released (bufs p ! b) \<and> buffer_ok (bufs p ! b)
    \<and> pool_idx (bufs p ! b) < length cs \<and> cs ! pool_idx (bufs p ! b) = bclass (bufs p ! b) \<and> 0 \<le> bclass (bufs p ! b)"
  by (auto simp: pool_inv_def list_all_length)

lemma upd_inv:
  assumes "pool_inv cs (p, W)" and "b \<in> W" and "buffer_ok (f (bufs p ! b))"
    and "released (f (bufs p ! b)) = released (bufs p ! b)"
    and "pool_idx (f (bufs p ! b)) = pool_idx (bufs p ! b)"
    and "bclass (f (bufs p ! b)) = bclass (bufs p ! b)"
  shows "pool_inv cs (upd_buf b f p, W)"
proof -
  have b: "b < length (bufs p)" using inv_owned [OF assms(1,2)] by simp
  with assms show ?thesis
    using upd_buf_ok [of p b f] by (auto simp: pool_inv_def)
qed

lemma release_inv:
  assumes "pool_inv cs (p, W)" and "b \<in> W" and "buf_release debug b p = Inr p'"
  shows "pool_inv cs (p', W - {b})"
proof -
  note o = inv_owned [OF assms(1,2)]
  define i where "i = pool_idx (bufs p ! b)"
  have p': "p' = (upd_buf b (\<lambda>x. x\<lparr>released := True, blen := nat (bclass x), pooled := False\<rparr>) p)
      \<lparr>free := (free p)[i := free p ! i @ [b]]\<rparr>"
    using assms(3) o by (simp add: buf_release_def Let_def i_def)
  note inv = assms(1) [unfolded pool_inv_def split_conv]
  have i: "i < length cs" "cs ! i = bclass (bufs p ! b)" using o by (simp_all add: i_def)
  have fr: "free p' ! k = (if k = i then free p ! i @ [b] else free p ! k)" if "k < length cs" for k
    using inv that i(1) unfolding p' by (simp add: nth_list_update)
  have bf: "bufs p' ! c = (if c = b then (bufs p ! b)\<lparr>released := True,
      blen := nat (bclass (bufs p ! b)), pooled := False\<rparr> else bufs p ! c)" for c
    using o unfolding p' by simp
  have len: "length (bufs p') = length (bufs p)" "classes p' = cs" "length (free p') = length cs"
    using inv unfolding p' by simp_all
  have nb: "b \<notin> set (free p ! k)" if "k < length cs" for k using inv that o by metis
  have "list_all buffer_ok (bufs p')"
    using inv o by (auto simp: list_all_length len bf buffer_ok_def)
  moreover have "\<forall>k < length cs. distinct (free p' ! k)
      \<and> (\<forall>c \<in> set (free p' ! k). c < length (bufs p') \<and> released (bufs p' ! c) \<and> c \<notin> W - {b}
           \<and> pool_idx (bufs p' ! c) = k \<and> bclass (bufs p' ! c) = cs ! k)"
  proof (intro allI impI)
    fix k assume k: "k < length cs"
    have "distinct (free p ! k) \<and> (\<forall>c \<in> set (free p ! k). c < length (bufs p) \<and> released (bufs p ! c)
        \<and> c \<notin> W \<and> pool_idx (bufs p ! c) = k \<and> bclass (bufs p ! c) = cs ! k)"
      using inv k by blast
    with k o i nb [OF k] show "distinct (free p' ! k)
      \<and> (\<forall>c \<in> set (free p' ! k). c < length (bufs p') \<and> released (bufs p' ! c) \<and> c \<notin> W - {b}
           \<and> pool_idx (bufs p' ! c) = k \<and> bclass (bufs p' ! c) = cs ! k)"
      by (auto simp: fr bf len i_def [symmetric])
  qed
  moreover have "\<forall>c \<in> W - {b}. c < length (bufs p') \<and> \<not> released (bufs p' ! c)
      \<and> pool_idx (bufs p' ! c) < length cs \<and> cs ! pool_idx (bufs p' ! c) = bclass (bufs p' ! c) \<and> 0 \<le> bclass (bufs p' ! c)"
    using inv by (simp add: bf len)
  ultimately show ?thesis by (simp add: pool_inv_def len)
qed

lemma drop_free_inv: "pool_inv cs (p, W) \<Longrightarrow> pool_inv cs (drop_free i b p, W)"
  by (cases "i < length (free p)")
    (auto simp: pool_inv_def drop_free_def nth_list_update distinct_removeAll)

lemma step_inv:
  assumes "own_step debug s s'" and "pool_inv cs s"
  shows "pool_inv cs s'"
  using assms
proof cases
  case (get pick n p b p' W)
  with assms(2) get_returns_free(2) show ?thesis by simp
next
  case (resize b W n p p')
  with assms(2) inv_owned [of cs p W b] show ?thesis
    by (auto simp: buf_resize_def buffer_ok_def split: option.splits if_splits intro!: upd_inv)
next
  case (fill b W p d)
  with assms(2) inv_owned [of cs p W b] show ?thesis
    by (auto simp: buf_write_def buffer_ok_def intro!: upd_inv)
next
  case (release b W p p')
  with assms(2) release_inv show ?thesis by simp
next
  case (collect p W i b)
  with assms(2) drop_free_inv show ?thesis by simp
qed

lemma new_pool_inv: "pool_inv cs (new_pool cs, {})"
  by (simp add: pool_inv_def new_pool_def)

lemma reachable_inv: "reachable_pool debug cs s \<Longrightarrow> pool_inv cs s"
  by (induction rule: reachable_pool.induct) (auto intro: new_pool_inv step_inv)

text \<open>
  C24. One owner at a time: as long as components only touch buffers they own, Get, whatever
  stored buffer the pool picks, hands out a buffer nobody owns, of the requested length and
  with a large enough backing array, and no owned buffer changes.
\<close>

theorem pool_hands_out_unowned:
  assumes "reachable_pool debug cs (p, W)" and "pool_get pick n p = Inr (b, p')"
  shows "b \<notin> W \<and> blen (bufs p' ! b) = nat n \<and> n \<le> buf_cap b p'
    \<and> length (store (bufs p' ! b)) = nat (buf_cap b p') \<and> (\<forall>c \<in> W. bufs p' ! c = bufs p ! c)"
proof -
  note inv = reachable_inv [OF assms(1)]
  note g = get_returns_free [OF inv assms(2)]
  have "bufs p' ! c = bufs p ! c" if "c \<in> W" for c
  proof -
    have "c \<noteq> b" "c < length (bufs p)" using that g(1) inv_owned [OF inv that] by auto
    with assms(2) show ?thesis
      by (auto simp: pool_get_def Let_def take_free_def upd_buf_def nth_append
          split: if_splits option.splits prod.splits)
  qed
  with g inv_owned [OF g(2)] show ?thesis by (simp add: buf_cap_def buffer_ok_def)
qed

text \<open>
  C25. A component that keeps to the ownership rules never panics, not even in a debug build:
  its buffer can be read in full length, released, and resized within its capacity; Get on the
  default size classes succeeds exactly for lengths from 0 to 1560.
\<close>

theorem owned_use_never_panics:
  assumes "reachable_pool debug size_classes (p, W)" and "b \<in> W"
  shows "(\<exists>d. buf_bytes debug b p = Inr d \<and> length d = blen (bufs p ! b))
    \<and> (\<exists>p'. buf_release debug b p = Inr p')
    \<and> ((\<exists>p'. buf_resize debug b n p = Inr p') \<longleftrightarrow> 0 \<le> n \<and> n \<le> buf_cap b p)
    \<and> ((\<exists>r. pool_get pick n p = Inr r) \<longleftrightarrow> 0 \<le> n \<and> n \<le> 1560)"
proof -
  have "class_for n 0 size_classes = None \<longleftrightarrow> 1560 < n"
    by (auto simp: class_for_None size_classes_def max_handshake_datagram_def max_outer_datagram_def)
  moreover have "classes p = size_classes" using reachable_inv [OF assms(1)] by (simp add: pool_inv_def)
  ultimately have "(\<exists>r. pool_get pick n p = Inr r) \<longleftrightarrow> 0 \<le> n \<and> n \<le> 1560"
    by (auto simp: pool_get_def Let_def split: option.split prod.split)
  then show ?thesis
    using inv_owned [OF reachable_inv [OF assms(1)] assms(2)]
    by (auto simp: buf_bytes_def buf_release_def buf_resize_def check_live_def buf_cap_def
        buffer_ok_def Let_def)
qed


text \<open>A pool with one buffer taken, for the witnesses.\<close>

definition one_taken :: pool where
  "one_taken = \<lparr>bufs = [(fresh_buffer 128)\<lparr>pooled := True, blen := 100\<rparr>],
     classes = size_classes, free = [[], [], []]\<rparr>"

lemma one_taken_reachable: "reachable_pool debug size_classes (one_taken, {0})"
proof -
  have "pool_get None 100 (new_pool size_classes) = Inr (0, one_taken)"
    by (simp add: pool_get_def new_pool_def size_classes_def take_free_def upd_buf_def one_taken_def
        fresh_buffer_def max_handshake_datagram_def max_outer_datagram_def)
  from step [OF start get [OF this]] show ?thesis by simp
qed

theorem pool_hands_out_unowned_witness:
  "\<exists>b p'. pool_get (Some 0) 50 one_taken = Inr (b, p') \<and> b \<noteq> 0"
proof -
  have "\<exists>b p'. pool_get (Some 0) 50 one_taken = Inr (b, p')"
    by (simp add: pool_get_def one_taken_def size_classes_def take_free_def)
  then obtain b p' where g: "pool_get (Some 0) 50 one_taken = Inr (b, p')" by blast
  from pool_hands_out_unowned [OF one_taken_reachable g] g show ?thesis by auto
qed

theorem owned_use_never_panics_witness:
  "\<exists>p'. buf_resize True 0 128 one_taken = Inr p'"
proof -
  have "(0::nat) \<in> {0}" by simp
  from owned_use_never_panics [OF one_taken_reachable this, where debug = True and n = 128] show ?thesis
    by (simp add: buf_cap_def one_taken_def fresh_buffer_def)
qed

text \<open>
  A second Release goes unnoticed, in a debug build too, when the buffer was handed out
  again in between: it is accepted, and the next two Gets give one buffer to two owners.
\<close>

theorem stale_release_aliases:
  "\<exists>p1 p2 p3 p4 p5. pool_get None 100 (new_pool size_classes) = Inr (0, p1)
     \<and> buf_release True 0 p1 = Inr p2
     \<and> pool_get (Some 0) 100 p2 = Inr (0, p3)
     \<and> buf_release True 0 p3 = Inr p4
     \<and> pool_get (Some 0) 100 p4 = Inr (0, p5)"
  by (simp add: pool_get_def new_pool_def size_classes_def take_free_def upd_buf_def fresh_buffer_def
      buf_release_def Let_def max_handshake_datagram_def max_outer_datagram_def)

end
