(* ===== verification/Reason.thy ===== *)
theory Reason
  imports Prelude
begin

text \<open>
  The closed sets of reason codes, \<open>internal/reason/reason.go\<close>. A code is a \<open>uint8\<close>; the label
  tables list the labels in the order of the constants, so the sentinel of each set is the
  length of its table.
\<close>

definition drop_text :: "string list" where
  "drop_text = [''unspecified'', ''queue_full_packets'', ''queue_full_bytes'', ''replica_deadline'',
     ''duplicate'', ''outside_window'', ''decrypt_failed'', ''short_packet'', ''unknown_path'',
     ''no_route'', ''inner_too_large'', ''path_down'', ''shutting_down'']"

definition drop_max :: byte where "drop_max = 13"

definition handshake_text :: "string list" where
  "handshake_text = [''unspecified'', ''bad_magic'', ''bad_version'', ''malformed'',
     ''decrypt_failed'', ''unknown_peer'', ''bad_psk'', ''replayed'', ''timeout'', ''rate_limited'',
     ''shutting_down'']"

definition handshake_max :: byte where "handshake_max = 11"

definition close_text :: "string list" where
  "close_text = [''unspecified'', ''local_shutdown'', ''config_reload'', ''peer_gone'',
     ''idle_timeout'', ''key_expired'', ''handshake_failed'', ''all_paths_down'', ''protocol_error'',
     ''nonce_exhausted'']"

definition close_max :: byte where "close_max = 10"

definition health_text :: "string list" where
  "health_text = [''unspecified'', ''probing'', ''up'', ''degraded'', ''down'', ''recovered'', ''retired'']"

definition health_max :: byte where "health_max = 7"

definition lookup :: "byte \<Rightarrow> string list \<Rightarrow> string" where
  "lookup v table =
     (if unat v < length table then table ! unat v else ''unknown('' @ itoa (unat v) @ '')'')"

definition drop_string :: "byte \<Rightarrow> string" where "drop_string r = lookup r drop_text"
definition drop_valid :: "byte \<Rightarrow> bool" where "drop_valid r \<longleftrightarrow> r < drop_max"
definition handshake_string :: "byte \<Rightarrow> string" where "handshake_string f = lookup f handshake_text"
definition handshake_valid :: "byte \<Rightarrow> bool" where "handshake_valid f \<longleftrightarrow> f < handshake_max"
definition close_string :: "byte \<Rightarrow> string" where "close_string r = lookup r close_text"
definition close_valid :: "byte \<Rightarrow> bool" where "close_valid r \<longleftrightarrow> r < close_max"
definition health_string :: "byte \<Rightarrow> string" where "health_string t = lookup t health_text"
definition health_valid :: "byte \<Rightarrow> bool" where "health_valid t \<longleftrightarrow> t < health_max"

section \<open>Labels identify codes\<close>

definition plain_label :: "string \<Rightarrow> bool" where
  "plain_label s \<longleftrightarrow> s \<noteq> [] \<and> \<not> has_prefix s ''unknown(''"

lemma unknown_prefix: "has_prefix (''unknown('' @ s) ''unknown(''"
  by (simp add: has_prefix_def)

lemma lookup_known: "unat v < length t \<Longrightarrow> list_all plain_label t \<Longrightarrow> plain_label (lookup v t)"
  by (simp add: lookup_def list_all_length)

lemma lookup_unknown: "\<not> unat v < length t \<Longrightarrow> \<not> plain_label (lookup v t)"
  by (simp add: lookup_def plain_label_def has_prefix_def)

lemma lookup_inj:
  assumes "distinct t" and "list_all plain_label t"
  shows "lookup v t = lookup w t \<longleftrightarrow> v = w"
proof
  assume e: "lookup v t = lookup w t"
  have "unat v < length t \<longleftrightarrow> unat w < length t"
    using e lookup_known [OF _ assms(2)] lookup_unknown [of _ t] by metis
  then have "unat v = unat w"
    using e assms(1) by (auto simp: lookup_def nth_eq_iff_index_eq split: if_splits dest: itoa_inj)
  then show "v = w" by (rule unsigned_word_eqI)
qed simp

text \<open>
  C40. In each of the four sets a label identifies its code among all 256 values, known or
  not; the defined codes are exactly those whose label does not start with \<open>unknown(\<close>, and no
  label is empty.
\<close>

theorem labels_identify_codes:
  "(drop_string a = drop_string b) = (a = b) \<and> (handshake_string a = handshake_string b) = (a = b)
   \<and> (close_string a = close_string b) = (a = b) \<and> (health_string a = health_string b) = (a = b)
   \<and> drop_valid a = plain_label (drop_string a) \<and> handshake_valid a = plain_label (handshake_string a)
   \<and> close_valid a = plain_label (close_string a) \<and> health_valid a = plain_label (health_string a)
   \<and> {drop_string a, handshake_string a, close_string a, health_string a} \<inter> {[]} = {}"
proof -
  have d: "distinct drop_text" "list_all plain_label drop_text" "length drop_text = 13"
    and h: "distinct handshake_text" "list_all plain_label handshake_text" "length handshake_text = 11"
    and c: "distinct close_text" "list_all plain_label close_text" "length close_text = 10"
    and t: "distinct health_text" "list_all plain_label health_text" "length health_text = 7"
    by (simp_all add: drop_text_def handshake_text_def close_text_def health_text_def plain_label_def
        has_prefix_def)
  have v: "drop_valid a \<longleftrightarrow> unat a < 13" "handshake_valid a \<longleftrightarrow> unat a < 11"
    "close_valid a \<longleftrightarrow> unat a < 10" "health_valid a \<longleftrightarrow> unat a < 7"
    by (simp_all add: drop_valid_def drop_max_def handshake_valid_def handshake_max_def
        close_valid_def close_max_def health_valid_def health_max_def word_less_nat_alt)
  have ne: "lookup a x \<noteq> []" if "list_all plain_label x" for x
    using that lookup_known [of a x] by (cases "unat a < length x") (auto simp: plain_label_def lookup_def)
  have valid: "unat a < length x \<longleftrightarrow> plain_label (lookup a x)" if "list_all plain_label x" for x
    using lookup_known [OF _ that] lookup_unknown by blast
  show ?thesis
    unfolding drop_string_def handshake_string_def close_string_def health_string_def v
    using valid [OF d(2)] valid [OF h(2)] valid [OF c(2)] valid [OF t(2)] d h c t
    by (simp add: lookup_inj ne)
qed

end
