(* ===== verification/BuildInfo.thy ===== *)
theory BuildInfo
  imports Prelude
begin

text \<open>
  Build identity, \<open>internal/buildinfo/buildinfo.go\<close>. The values the linker injects, the version of
  the run time and the information recorded by the toolchain are arguments.
\<close>

record info =
  version :: string
  commit :: string
  date :: string
  go_version :: string

record build_info =
  main_version :: string
  settings :: "(string \<times> string) list"

definition short_commit :: "string \<Rightarrow> string" where
  "short_commit r = (if length r > 12 then take 12 r else r)"

definition apply_setting :: "string \<times> string \<Rightarrow> info \<Rightarrow> info" where
  "apply_setting s i =
     (if fst s = ''vcs.revision'' then
        (if commit i = ''unknown'' \<and> snd s \<noteq> [] then i\<lparr>commit := short_commit (snd s)\<rparr> else i)
      else if fst s = ''vcs.time'' then
        (if date i = ''unknown'' \<and> snd s \<noteq> [] then i\<lparr>date := snd s\<rparr> else i)
      else i)"

definition get_info :: "string \<Rightarrow> string \<Rightarrow> string \<Rightarrow> string \<Rightarrow> build_info option \<Rightarrow> info" where
  "get_info v c d gv bi =
     (let i = \<lparr>version = v, commit = c, date = d, go_version = gv\<rparr> in
      case bi of
        None \<Rightarrow> i
      | Some b \<Rightarrow>
          fold apply_setting (settings b)
            (if version i = ''dev'' \<and> main_version b \<noteq> [] \<and> main_version b \<noteq> ''(devel)''
             then i\<lparr>version := main_version b\<rparr> else i))"

definition format_info :: "info \<Rightarrow> string" where
  "format_info i = ''red-mpudp '' @ version i @ '' (commit '' @ commit i @ '', built '' @ date i
     @ '', '' @ go_version i @ '')''"

section \<open>Linker values win\<close>

lemma settings_keep:
  "version (fold apply_setting ss i) = version i"
  "go_version (fold apply_setting ss i) = go_version i"
  "commit i \<noteq> ''unknown'' \<Longrightarrow> commit (fold apply_setting ss i) = commit i"
  "date i \<noteq> ''unknown'' \<Longrightarrow> date (fold apply_setting ss i) = date i"
  by (induction ss arbitrary: i) (simp_all add: apply_setting_def)

lemma settings_commit:
  "commit (fold apply_setting ss i) = commit i
   \<or> (\<exists>r. (''vcs.revision'', r) \<in> set ss \<and> r \<noteq> [] \<and> commit (fold apply_setting ss i) = short_commit r)"
proof (induction ss arbitrary: i)
  case (Cons s ss)
  have "commit (apply_setting s i) = commit i
      \<or> (fst s = ''vcs.revision'' \<and> snd s \<noteq> [] \<and> commit (apply_setting s i) = short_commit (snd s))"
    by (simp add: apply_setting_def)
  with Cons [of "apply_setting s i"] show ?case by (cases s) fastforce
qed simp

text \<open>\<open>String\<close>: the version line of the current build.\<close>

definition build_string :: "string \<Rightarrow> string \<Rightarrow> string \<Rightarrow> string \<Rightarrow> build_info option \<Rightarrow> string" where
  "build_string v c d gv bi = format_info (get_info v c d gv bi)"

text \<open>Values injected by the linker are never overridden by what the toolchain recorded.\<close>

lemma injected_values_win:
  "v \<noteq> ''dev'' \<Longrightarrow> version (get_info v c d gv bi) = v"
  "c \<noteq> ''unknown'' \<Longrightarrow> commit (get_info v c d gv bi) = c"
  "d \<noteq> ''unknown'' \<Longrightarrow> date (get_info v c d gv bi) = d"
  by (simp_all add: get_info_def Let_def settings_keep split: option.split)

lemma short_commit_length: "length (short_commit r) \<le> 12"
  by (simp add: short_commit_def)

end
