(* ===== verification/Base64.thy ===== *)
theory Base64
  imports Prelude
begin

text \<open>
  Unpadded standard base64 of Go's \<open>encoding/base64\<close> (\<open>StdEncoding.WithPadding(NoPadding)\<close>), as
  the key files use it. Three bytes are one number below \<open>2 ^ 24\<close>, written as four digits to
  base 64. The decoder skips carriage returns and line feeds, and, not being strict, ignores
  the unused low bits of the last digit.
\<close>

definition b64_char :: "nat \<Rightarrow> byte" where
  "b64_char d = of_nat
     (if d < 26 then 65 + d else if d < 52 then 71 + d else if d < 62 then d - 4
      else if d = 62 then 43 else 47)"

definition b64_val :: "byte \<Rightarrow> nat option" where
  "b64_val b = (let n = unat b in
     if 65 \<le> n \<and> n \<le> 90 then Some (n - 65)
     else if 97 \<le> n \<and> n \<le> 122 then Some (n - 71)
     else if 48 \<le> n \<and> n \<le> 57 then Some (n + 4)
     else if n = 43 then Some 62
     else if n = 47 then Some 63
     else None)"

fun b64_digits :: "byte list \<Rightarrow> nat list" where
  "b64_digits [] = []"
| "b64_digits [a] = (let n = unat a * 65536 in [n div 262144, n div 4096 mod 64])"
| "b64_digits [a, b] = (let n = unat a * 65536 + unat b * 256 in
     [n div 262144, n div 4096 mod 64, n div 64 mod 64])"
| "b64_digits (a # b # c # r) = (let n = unat a * 65536 + unat b * 256 + unat c in
     [n div 262144, n div 4096 mod 64, n div 64 mod 64, n mod 64] @ b64_digits r)"

definition b64_encode :: "byte list \<Rightarrow> byte list" where
  "b64_encode bs = map b64_char (b64_digits bs)"

fun b64_bytes :: "nat list \<Rightarrow> byte list option" where
  "b64_bytes [] = Some []"
| "b64_bytes [p] = None"
| "b64_bytes [p, q] = (let n = p * 262144 + q * 4096 in Some [of_nat (n div 65536)])"
| "b64_bytes [p, q, r] = (let n = p * 262144 + q * 4096 + r * 64 in
     Some [of_nat (n div 65536), of_nat (n div 256 mod 256)])"
| "b64_bytes (p # q # r # s # t) = (let n = p * 262144 + q * 4096 + r * 64 + s in
     map_option (\<lambda>x. [of_nat (n div 65536), of_nat (n div 256 mod 256), of_nat (n mod 256)] @ x)
       (b64_bytes t))"

definition b64_decode :: "byte list \<Rightarrow> byte list option" where
  "b64_decode s =
     (case those (map b64_val (filter (\<lambda>b. b \<noteq> 10 \<and> b \<noteq> 13) s)) of
        None \<Rightarrow> None
      | Some ds \<Rightarrow> b64_bytes ds)"

lemma b64_char_val: "d < 64 \<Longrightarrow> b64_val (b64_char d) = Some d"
  by (auto simp: b64_char_def b64_val_def Let_def unat_of_nat take_bit_nat_eq_self)

lemma b64_char_text:
  assumes "d < 64"
  shows "b64_char d \<noteq> 10" "b64_char d \<noteq> 13" "b64_char d \<notin> {32, 9, 11, 12}" "b64_char d \<noteq> 61"
proof -
  have "b64_val (10::byte) = None" "b64_val (13::byte) = None" "b64_val (61::byte) = None"
    "\<forall>x \<in> {32, 9, 11, 12 :: byte}. b64_val x = None"
    by (simp_all add: b64_val_def)
  with b64_char_val [OF assms] show "b64_char d \<noteq> 10" "b64_char d \<noteq> 13"
    "b64_char d \<notin> {32, 9, 11, 12}" "b64_char d \<noteq> 61" by force+
qed

lemma byte_bound: "unat (b :: byte) < 256"
  using unsigned_less [of b] by simp

lemma b64_digits_bound: "\<forall>d \<in> set (b64_digits bs). d < 64"
proof (induction bs rule: b64_digits.induct)
  case (2 a)
  have "unat a * 65536 div 262144 < 64" using byte_bound [of a] by (simp add: less_mult_imp_div_less)
  then show ?case by (simp add: Let_def)
next
  case (3 a b)
  have "(unat a * 65536 + unat b * 256) div 262144 < 64"
    using byte_bound [of a] byte_bound [of b] by (intro less_mult_imp_div_less) simp
  then show ?case by (simp add: Let_def)
next
  case (4 a b c r)
  have "(unat a * 65536 + unat b * 256 + unat c) div 262144 < 64"
    using byte_bound [of a] byte_bound [of b] byte_bound [of c] by (intro less_mult_imp_div_less) simp
  then show ?case using 4 by (auto simp: Let_def)
qed simp

lemma digit_div: "r < m \<Longrightarrow> (a * m + r) div m = (a :: nat)"
  by simp

text \<open>Four base-64 digits of a 24-bit number recompose it.\<close>

lemma digits_recompose:
  fixes n :: nat
  shows "n div 262144 * 262144 + n div 4096 mod 64 * 4096 + n div 64 mod 64 * 64 + n mod 64 = n"
proof -
  have "n div 64 = n div 4096 * 64 + n div 64 mod 64"
    using div_mult_mod_eq [of "n div 64" 64] by (simp add: div_mult2_eq [symmetric])
  moreover have "n div 4096 = n div 262144 * 64 + n div 4096 mod 64"
    using div_mult_mod_eq [of "n div 4096" 64] by (simp add: div_mult2_eq [symmetric])
  moreover have "n = n div 64 * 64 + n mod 64" by simp
  ultimately show ?thesis by linarith
qed

lemma byte_split:
  fixes a b c :: byte
  defines "n \<equiv> unat a * 65536 + unat b * 256 + unat c"
  shows "of_nat (n div 65536) = a" "of_nat (n div 256 mod 256) = b" "of_nat (n mod 256) = c"
proof -
  note bd = byte_bound [of a] byte_bound [of b] byte_bound [of c]
  have "n div 65536 = unat a"
    unfolding n_def add.assoc by (rule digit_div) (use bd in linarith)
  moreover have n: "n = (unat a * 256 + unat b) * 256 + unat c" unfolding n_def by simp
  have "n div 256 = unat a * 256 + unat b"
    unfolding n by (rule digit_div) (use bd in linarith)
  then have "n div 256 mod 256 = unat b" using bd by simp
  moreover have "(x * 256 + unat c) mod 256 = unat c" for x using bd by simp
  then have "n mod 256 = unat c" unfolding n by blast
  ultimately show "of_nat (n div 65536) = a" "of_nat (n div 256 mod 256) = b" "of_nat (n mod 256) = c"
    by simp_all
qed

lemma b64_bytes_digits: "b64_bytes (b64_digits bs) = Some bs"
proof (induction bs rule: b64_digits.induct)
  case (2 a)
  have e: "unat a * 65536 = (unat a * 16 * 64) * 64" by simp
  have "unat a * 65536 div 64 mod 64 = 0" "unat a * 65536 mod 64 = 0" unfolding e by simp_all
  with digits_recompose [of "unat a * 65536"] byte_split(1) [of a 0 0] show ?case
    by (simp add: Let_def)
next
  case (3 a b)
  have e: "unat a * 65536 + unat b * 256 = (unat a * 1024 + unat b * 4) * 64" by simp
  have "(unat a * 65536 + unat b * 256) mod 64 = 0" unfolding e by simp
  with digits_recompose [of "unat a * 65536 + unat b * 256"] byte_split(1,2) [of a b 0] show ?case
    by (simp add: Let_def)
next
  case (4 a b c r)
  with digits_recompose [of "unat a * 65536 + unat b * 256 + unat c"] byte_split [of a b c]
  show ?case by (simp add: Let_def)
qed simp

lemma those_map_val: "\<forall>d \<in> set ds. d < 64 \<Longrightarrow> those (map b64_val (map b64_char ds)) = Some ds"
  by (induction ds) (simp_all add: b64_char_val)

lemma encode_text: "b \<in> set (b64_encode bs) \<Longrightarrow> b \<notin> {9, 10, 11, 12, 13, 32, 61}"
  using b64_digits_bound [of bs] b64_char_text by (fastforce simp: b64_encode_def)

lemma b64_roundtrip: "b64_decode (b64_encode bs) = Some bs"
proof -
  have "filter (\<lambda>b. b \<noteq> 10 \<and> b \<noteq> 13) (b64_encode bs) = b64_encode bs"
    using encode_text [of _ bs] by (intro filter_True) auto
  then show ?thesis
    using those_map_val [OF b64_digits_bound [of bs]] b64_bytes_digits [of bs]
    by (simp add: b64_decode_def) (simp add: b64_encode_def)
qed

end
