(* ===== verification/Sha256.thy ===== *)
theory Sha256
  imports Prelude
begin

text \<open>
  SHA-256, the standard library's hash (\<open>crypto/sha256\<close>) behind the peer id and the key schedule
  of \<open>internal/identity\<close>, as in FIPS 180-4: padding, message schedule and compression on 32-bit
  words.
\<close>

unbundle bit_operations_syntax

definition rotr :: "nat \<Rightarrow> u32 \<Rightarrow> u32" where
  "rotr n x = drop_bit n x OR push_bit (32 - n) x"

definition sha_k :: "u32 list" where
  "sha_k = [
     1116352408, 1899447441, 3049323471, 3921009573, 961987163, 1508970993, 2453635748, 2870763221,
     3624381080, 310598401, 607225278, 1426881987, 1925078388, 2162078206, 2614888103, 3248222580,
     3835390401, 4022224774, 264347078, 604807628, 770255983, 1249150122, 1555081692, 1996064986,
     2554220882, 2821834349, 2952996808, 3210313671, 3336571891, 3584528711, 113926993, 338241895,
     666307205, 773529912, 1294757372, 1396182291, 1695183700, 1986661051, 2177026350, 2456956037,
     2730485921, 2820302411, 3259730800, 3345764771, 3516065817, 3600352804, 4094571909, 275423344,
     430227734, 506948616, 659060556, 883997877, 958139571, 1322822218, 1537002063, 1747873779,
     1955562222, 2024104815, 2227730452, 2361852424, 2428436474, 2756734187, 3204031479, 3329325298]"

type_synonym sha_state = "u32 \<times> u32 \<times> u32 \<times> u32 \<times> u32 \<times> u32 \<times> u32 \<times> u32"

definition sha_start :: sha_state where
  "sha_start = (0x6a09e667, 0xbb67ae85, 0x3c6ef372, 0xa54ff53a, 0x510e527f, 0x9b05688c, 0x1f83d9ab, 0x5be0cd19)"

definition sha_round :: "u32 \<Rightarrow> u32 \<Rightarrow> sha_state \<Rightarrow> sha_state" where
  "sha_round k w s =
     (case s of (a, b, c, d, e, f, g, h) \<Rightarrow>
        let t1 = h + (rotr 6 e XOR rotr 11 e XOR rotr 25 e) + ((e AND f) XOR (NOT e AND g)) + k + w;
            t2 = (rotr 2 a XOR rotr 13 a XOR rotr 22 a) + ((a AND b) XOR (a AND c) XOR (b AND c))
        in (t1 + t2, a, b, c, d + t1, e, f, g))"

text \<open>The next word of the message schedule, from a window of the last 16.\<close>

definition sha_next :: "u32 list \<Rightarrow> u32" where
  "sha_next ws =
     (let x = ws ! 14; y = ws ! 1
      in (rotr 17 x XOR rotr 19 x XOR drop_bit 10 x) + ws ! 9
         + (rotr 7 y XOR rotr 18 y XOR drop_bit 3 y) + ws ! 0)"

definition sha_rounds :: "u32 list \<Rightarrow> u32 list \<times> sha_state \<Rightarrow> u32 list \<times> sha_state" where
  "sha_rounds = fold (\<lambda>k (ws, s). (tl ws @ [sha_next ws], sha_round k (hd ws) s))"

definition sha_compress :: "u32 list \<Rightarrow> sha_state \<Rightarrow> sha_state" where
  "sha_compress ws s =
     (case s of (a, b, c, d, e, f, g, h) \<Rightarrow>
      case snd (sha_rounds sha_k (ws, s)) of (a', b', c', d', e', f', g', h') \<Rightarrow>
        (a + a', b + b', c + c', d + d', e + e', f + f', g + g', h + h'))"

section \<open>Bytes and words, big endian\<close>

fun be_words :: "byte list \<Rightarrow> u32 list" where
  "be_words (a # b # c # d # r) =
     (push_bit 24 (ucast a) OR push_bit 16 (ucast b) OR push_bit 8 (ucast c) OR ucast d) # be_words r"
| "be_words _ = []"

definition be_bytes :: "u32 \<Rightarrow> byte list" where
  "be_bytes w = [ucast (drop_bit 24 w), ucast (drop_bit 16 w), ucast (drop_bit 8 w), ucast w]"

definition sha_pad :: "byte list \<Rightarrow> byte list" where
  "sha_pad m = m @ 0x80 # replicate ((119 - length m mod 64) mod 64) 0
     @ (let n = of_nat (length m) * 8 :: 64 word in
        map (\<lambda>i. ucast (drop_bit i n)) [56, 48, 40, 32, 24, 16, 8, 0])"

fun sha_blocks :: "u32 list \<Rightarrow> sha_state \<Rightarrow> sha_state" where
  "sha_blocks [] s = s"
| "sha_blocks (w # ws) s = sha_blocks (drop 15 ws) (sha_compress (w # take 15 ws) s)"

definition sha256 :: "byte list \<Rightarrow> byte list" where
  "sha256 m =
     (case sha_blocks (be_words (sha_pad m)) sha_start of (a, b, c, d, e, f, g, h) \<Rightarrow>
        concat (map be_bytes [a, b, c, d, e, f, g, h]))"

lemma sha_rounds_append: "sha_rounds (ks @ ls) s = sha_rounds ls (sha_rounds ks s)"
  by (simp add: sha_rounds_def)

lemma sha256_length: "length (sha256 m) = 32"
  by (simp add: sha256_def be_bytes_def split: prod.split)

end
