(* ===== verification/Identity.thy ===== *)
theory Identity
  imports Base64 Sha256
begin

text \<open>
  Key material, \<open>internal/identity\<close>: key files (\<open>keyfile.go\<close>), generation and exclusive writing
  (\<open>keygen.go\<close>) and the key schedule (\<open>derive.go\<close>). HMAC and HKDF are written out over a hash
  function and used with SHA-256; the base-point multiplication of X25519 is an argument, and
  random bytes are the answer of the system's generator, \<open>None\<close> when it fails. A key is a list of
  32 bytes.
\<close>

unbundle bit_operations_syntax

definition key_len :: nat where "key_len = 32"

datatype key_err =
    ErrEmpty | ErrWhitespace | ErrPadded | ErrNotBase64 | ErrInteriorNL | ErrInteriorWS
  | ErrKeyLength nat

definition space_byte :: "byte \<Rightarrow> bool" where
  "space_byte b \<longleftrightarrow> b = 32 \<or> b = 9 \<or> b = 13 \<or> b = 10 \<or> b = 11 \<or> b = 12"

definition contains_space :: "byte list \<Rightarrow> bool" where
  "contains_space b = list_ex space_byte b"

definition has_base64_padding :: "byte list \<Rightarrow> bool" where
  "has_base64_padding b \<longleftrightarrow> b \<noteq> [] \<and> last b = 61"

definition key_body :: "byte list \<Rightarrow> byte list" where
  "key_body raw =
     (if last raw = 10 then
        (let body = butlast raw in
         if body \<noteq> [] \<and> last body = 13 then butlast body else body)
      else raw)"

definition parse_key :: "byte list \<Rightarrow> key_err + byte list" where
  "parse_key raw =
     (if raw = [] then Inl ErrEmpty
      else (let body = key_body raw in
        if body = [] then Inl ErrEmpty
        else if list_ex (\<lambda>b. b = 10) body then Inl ErrInteriorNL
        else if space_byte (hd body) \<or> space_byte (last body) then Inl ErrWhitespace
        else if contains_space body then Inl ErrInteriorWS
        else if has_base64_padding body then Inl ErrPadded
        else (case b64_decode body of
                None \<Rightarrow> Inl ErrNotBase64
              | Some dec \<Rightarrow>
                  if length dec \<noteq> key_len then Inl (ErrKeyLength (length dec)) else Inr dec)))"

definition encode_key :: "byte list \<Rightarrow> byte list" where
  "encode_key key = b64_encode key @ [10]"

section \<open>Files\<close>

datatype file_err =
    PathErr | NotPrivate u32 | BadKey key_err | AlreadyExists | WriteFailed | SyncFailed

definition require_private_perms :: "u32 \<Rightarrow> file_err option" where
  "require_private_perms mode = (if mode AND 63 \<noteq> 0 then Some (NotPrivate mode) else None)"

text \<open>The two system calls of a load may see different files.\<close>

definition load_private_key_file :: "u32 option \<Rightarrow> byte list option \<Rightarrow> file_err + byte list" where
  "load_private_key_file stat contents =
     (case stat of
        None \<Rightarrow> Inl PathErr
      | Some mode \<Rightarrow>
          (case require_private_perms mode of
             Some e \<Rightarrow> Inl e
           | None \<Rightarrow>
               (case contents of
                  None \<Rightarrow> Inl PathErr
                | Some raw \<Rightarrow> (case parse_key raw of Inl e \<Rightarrow> Inl (BadKey e) | Inr k \<Rightarrow> Inr k))))"

definition load_public_key_file :: "byte list option \<Rightarrow> file_err + byte list" where
  "load_public_key_file contents =
     (case contents of
        None \<Rightarrow> Inl PathErr
      | Some raw \<Rightarrow> (case parse_key raw of Inl e \<Rightarrow> Inl (BadKey e) | Inr k \<Rightarrow> Inr k))"

record key_file =
  file_mode :: u32
  file_data :: "byte list"

record write_faults =
  open_fails :: bool
  write_stops :: "nat option"
  sync_fails :: bool

definition write_exclusive ::
  "write_faults \<Rightarrow> u32 \<Rightarrow> string \<Rightarrow> byte list \<Rightarrow> u32 \<Rightarrow> (string \<rightharpoonup> key_file)
    \<Rightarrow> file_err option \<times> (string \<rightharpoonup> key_file)" where
  "write_exclusive flt umask path data mode files =
     (if files path \<noteq> None then (Some AlreadyExists, files)
      else if open_fails flt then (Some PathErr, files)
      else (let m = mode AND NOT umask in
        case write_stops flt of
          Some n \<Rightarrow> (Some WriteFailed, files(path \<mapsto> \<lparr>file_mode = m, file_data = take n data\<rparr>))
        | None \<Rightarrow>
            (if sync_fails flt then Some SyncFailed else None,
             files(path \<mapsto> \<lparr>file_mode = m, file_data = data\<rparr>))))"

definition write_private_key_file where
  "write_private_key_file flt umask path key = write_exclusive flt umask path (encode_key key) 384"

definition write_public_key_file where
  "write_public_key_file flt umask path key = write_exclusive flt umask path (encode_key key) 420"

section \<open>Generation and derivation\<close>

datatype crypto_err = RandomFailed | InvalidPrivateKey | IdenticalKeys

definition generate_private_key :: "byte list option \<Rightarrow> crypto_err + byte list" where
  "generate_private_key rng = (case rng of None \<Rightarrow> Inl RandomFailed | Some b \<Rightarrow> Inr b)"

definition generate_psk :: "byte list option \<Rightarrow> crypto_err + byte list" where
  "generate_psk rng = (case rng of None \<Rightarrow> Inl RandomFailed | Some b \<Rightarrow> Inr b)"

definition public_key :: "(byte list \<Rightarrow> byte list) \<Rightarrow> byte list \<Rightarrow> crypto_err + byte list" where
  "public_key base_mult priv =
     (if length priv \<noteq> key_len then Inl InvalidPrivateKey else Inr (base_mult priv))"

type_synonym hash = "byte list \<Rightarrow> byte list"

definition ascii_bytes :: "string \<Rightarrow> byte list" where
  "ascii_bytes = map of_char"

definition hmac :: "hash \<Rightarrow> byte list \<Rightarrow> byte list \<Rightarrow> byte list" where
  "hmac H k m =
     (let k' = (if length k > 64 then H k else k);
          block = k' @ replicate (64 - length k') 0
      in H (map (\<lambda>b. b XOR 0x5C) block @ H (map (\<lambda>b. b XOR 0x36) block @ m)))"

definition hkdf_extract :: "hash \<Rightarrow> byte list \<Rightarrow> byte list \<Rightarrow> byte list" where
  "hkdf_extract H secret salt = hmac H salt secret"

fun hkdf_blocks :: "hash \<Rightarrow> byte list \<Rightarrow> byte list \<Rightarrow> byte list \<Rightarrow> nat \<Rightarrow> nat \<Rightarrow> byte list" where
  "hkdf_blocks H prk info prev i 0 = []"
| "hkdf_blocks H prk info prev i (Suc n) =
     (let t = hmac H prk (prev @ info @ [of_nat i]) in t @ hkdf_blocks H prk info t (i + 1) n)"

definition hkdf_expand :: "hash \<Rightarrow> byte list \<Rightarrow> string \<Rightarrow> nat \<Rightarrow> byte list" where
  "hkdf_expand H prk info n = take n (hkdf_blocks H prk (ascii_bytes info) [] 1 ((n + 31) div 32))"

definition key_schedule_salt :: string where "key_schedule_salt = ''RED_MPUDP/v1/key-schedule''"
definition preauth_info :: string where "preauth_info = ''RED_MPUDP/v1/preauth''"
definition noise_psk_info :: string where "noise_psk_info = ''RED_MPUDP/v1/noise-psk''"

definition derive_peer_id :: "byte list \<Rightarrow> byte list" where
  "derive_peer_id pub = take 8 (sha256 pub)"

record schedule =
  preauth_key :: "byte list"
  noise_psk :: "byte list"

definition derive_schedule :: "byte list \<Rightarrow> crypto_err + schedule" where
  "derive_schedule psk =
     (let prk = hkdf_extract sha256 psk (sha256 (ascii_bytes key_schedule_salt));
          preauth = hkdf_expand sha256 prk preauth_info key_len;
          noise = hkdf_expand sha256 prk noise_psk_info key_len
      in if preauth = noise then Inl IdenticalKeys
         else Inr \<lparr>preauth_key = preauth, noise_psk = noise\<rparr>)"

section \<open>Parsing\<close>

lemma those_None: "x \<in> set xs \<Longrightarrow> f x = None \<Longrightarrow> those (map f xs) = None"
  by (induction xs) (auto split: option.split)

lemma padding_not_base64: "has_base64_padding body \<Longrightarrow> b64_decode body = None"
proof -
  assume "has_base64_padding body"
  then have "61 \<in> set (filter (\<lambda>b. b \<noteq> 10 \<and> b \<noteq> 13) body)"
    by (auto simp: has_base64_padding_def dest: last_in_set)
  moreover have "b64_val (61 :: byte) = None" by (simp add: b64_val_def)
  ultimately have "those (map b64_val (filter (\<lambda>b. b \<noteq> 10 \<and> b \<noteq> 13) body)) = None"
    by (rule those_None)
  then show ?thesis by (simp add: b64_decode_def)
qed

lemma key_body_cases:
  assumes "raw \<noteq> []"
  shows "raw \<in> {key_body raw, key_body raw @ [10], key_body raw @ [13, 10]}"
proof -
  obtain ys y where raw: "raw = ys @ [y]" using assms by (cases raw rule: rev_cases) auto
  show ?thesis
  proof (cases ys rule: rev_cases)
    case Nil
    with raw show ?thesis by (simp add: key_body_def)
  next
    case (snoc zs z)
    then have "butlast raw = zs @ [z]" "last raw = y" using raw by (simp_all add: butlast_append)
    with raw snoc show ?thesis by (simp add: key_body_def Let_def butlast_append)
  qed
qed

lemma key_body_plain:
  assumes "body \<noteq> []" and "list_all (\<lambda>b. \<not> space_byte b) body"
  shows "key_body body = body" "key_body (body @ [10]) = body" "key_body (body @ [13, 10]) = body"
proof -
  have "\<not> space_byte (last body)" using assms by (simp add: list_all_iff)
  then show "key_body body = body" "key_body (body @ [10]) = body" "key_body (body @ [13, 10]) = body"
    by (auto simp: key_body_def Let_def space_byte_def butlast_append)
qed

lemma parse_key_body:
  "parse_key raw = Inr k \<longleftrightarrow> raw \<noteq> [] \<and> key_body raw \<noteq> [] \<and> list_all (\<lambda>b. \<not> space_byte b) (key_body raw)
     \<and> b64_decode (key_body raw) = Some k \<and> length k = key_len"
proof -
  have sp: "list_all (\<lambda>b. \<not> space_byte b) b \<longleftrightarrow> \<not> list_ex (\<lambda>x. x = 10) b
      \<and> \<not> (space_byte (hd b) \<or> space_byte (last b)) \<and> \<not> contains_space b" if "b \<noteq> []" for b
  proof -
    have "list_all (\<lambda>b. \<not> space_byte b) b \<longleftrightarrow> \<not> contains_space b"
      by (simp add: contains_space_def list_all_iff list_ex_iff)
    moreover have "space_byte (hd b) \<or> space_byte (last b) \<Longrightarrow> contains_space b"
      using that hd_in_set [of b] last_in_set [of b] by (auto simp: contains_space_def list_ex_iff)
    moreover have "list_ex (\<lambda>x. x = 10) b \<Longrightarrow> contains_space b"
      by (auto simp: contains_space_def list_ex_iff space_byte_def)
    ultimately show ?thesis by blast
  qed
  show ?thesis
    using sp [of "key_body raw"] padding_not_base64 [of "key_body raw"]
    by (auto simp: parse_key_def Let_def split: option.splits)
qed

text \<open>
  ParseKey accepts exactly one unpadded base64 value of 32 bytes, without any white space,
  followed by nothing, by a line feed, or by a carriage return and a line feed.
\<close>

theorem parse_key_iff:
  "parse_key raw = Inr k \<longleftrightarrow> length k = 32 \<and>
     (\<exists>body. raw \<in> {body, body @ [10], body @ [13, 10]} \<and> body \<noteq> []
        \<and> list_all (\<lambda>b. \<not> space_byte b) body \<and> b64_decode body = Some k)"
proof
  assume "parse_key raw = Inr k"
  then show "length k = 32 \<and> (\<exists>body. raw \<in> {body, body @ [10], body @ [13, 10]} \<and> body \<noteq> []
      \<and> list_all (\<lambda>b. \<not> space_byte b) body \<and> b64_decode body = Some k)"
    using key_body_cases [of raw] by (auto simp: parse_key_body key_len_def)
next
  assume "length k = 32 \<and> (\<exists>body. raw \<in> {body, body @ [10], body @ [13, 10]} \<and> body \<noteq> []
      \<and> list_all (\<lambda>b. \<not> space_byte b) body \<and> b64_decode body = Some k)"
  then show "parse_key raw = Inr k"
    using key_body_plain by (auto simp: parse_key_body key_len_def)
qed

lemma parse_encode: "length k = key_len \<Longrightarrow> parse_key (encode_key k) = Inr k"
proof -
  assume k: "length k = key_len"
  have ne: "b64_encode k \<noteq> []" using b64_roundtrip [of k] k by (auto simp: key_len_def b64_decode_def)
  have sp: "list_all (\<lambda>b. \<not> space_byte b) (b64_encode k)"
    using encode_text [of _ k] by (fastforce simp: list_all_iff space_byte_def)
  from key_body_plain [OF ne sp] k ne sp show ?thesis
    by (simp add: parse_key_body encode_key_def b64_roundtrip)
qed

lemma masked_private: "(384 AND NOT u) AND 63 = (0 :: u32)"
proof -
  have "(384 AND NOT u) AND 63 = (384 AND 63) AND NOT u" by (simp only: ac_simps)
  then show ?thesis by simp
qed

text \<open>
  A private key written to a path that did not exist is read back unchanged, whatever the
  umask: the file is private, and the loader accepts its permissions and its content.
\<close>

theorem private_key_roundtrip:
  assumes "length key = 32" and "write_private_key_file flt umask path key files = (None, files')"
  shows "\<exists>f. files' path = Some f \<and> load_private_key_file (Some (file_mode f)) (Some (file_data f)) = Inr key"
proof -
  have "files' path = Some \<lparr>file_mode = 384 AND NOT umask, file_data = encode_key key\<rparr>"
    using assms(2) by (auto simp: write_private_key_file_def write_exclusive_def Let_def
        split: if_splits option.splits)
  then show ?thesis
    using parse_encode [of key] assms(1)
    by (simp add: load_private_key_file_def require_private_perms_def masked_private key_len_def)
qed

text \<open>
  Key material is never overwritten: whatever fails, every file that existed before a
  write is as it was, an existing path is refused, and only the named path can change.
\<close>

theorem key_files_never_overwritten:
  "let (e, files') = write_exclusive flt umask path data mode files in
     (files path = None \<or> (e = Some AlreadyExists \<and> files' = files))
   \<and> (\<forall>q. q = path \<or> files' q = files q)"
  by (auto simp: write_exclusive_def Let_def split: option.split)

lemma b64_bytes_zeros:
  "b64_bytes (replicate (n * 4) 0 @ t) = map_option (\<lambda>x. replicate (n * 3) 0 @ x) (b64_bytes t)"
proof (induction n)
  case (Suc n)
  have "replicate (Suc n * 4) (0 :: nat) = 0 # 0 # 0 # 0 # replicate (n * 4) 0"
    "replicate (Suc n * 3) (0 :: byte) = 0 # 0 # 0 # replicate (n * 3) 0"
    by (simp_all add: numeral_eq_Suc)
  with Suc show ?case by (simp add: Let_def option.map_comp comp_def del: mult_Suc)
qed (simp add: option.map_ident)

lemma b64_digits_zeros: "b64_digits (replicate (n * 3) 0 @ t) = replicate (n * 4) 0 @ b64_digits t"
proof (induction n)
  case (Suc n)
  have "replicate (Suc n * 4) (0 :: nat) = 0 # 0 # 0 # 0 # replicate (n * 4) 0"
    "replicate (Suc n * 3) (0 :: byte) = 0 # 0 # 0 # replicate (n * 3) 0"
    by (simp_all add: numeral_eq_Suc)
  with Suc show ?case by (simp add: Let_def del: mult_Suc)
qed simp

lemma decode_zeros:
  assumes "b64_val c = Some d" and "d < 64"
  shows "b64_decode (replicate 42 65 @ [c]) = Some (replicate 31 0 @ [of_nat (d * 64 div 256 mod 256)])"
proof -
  have "b64_val (65 :: byte) = Some 0" "b64_val (10 :: byte) = None" "b64_val (13 :: byte) = None"
    by (simp_all add: b64_val_def)
  then have "filter (\<lambda>b. b \<noteq> 10 \<and> b \<noteq> 13) (replicate 42 65 @ [c]) = replicate 42 65 @ [c]"
    using assms by auto
  moreover have "those (map b64_val (replicate n 65 @ [c])) = Some (replicate n 0 @ [d])" for n
    using assms \<open>b64_val 65 = Some 0\<close> by (induction n) simp_all
  moreover have "replicate 42 (0 :: nat) @ [d] = replicate (10 * 4) 0 @ [0, 0, d]"
    by (simp add: numeral_eq_Suc)
  moreover have "replicate 31 (0 :: byte) = replicate (10 * 3) 0 @ [0]"
    by (simp add: numeral_eq_Suc)
  ultimately show ?thesis
    using b64_bytes_zeros [of 10 "[0, 0, d]"] assms(2) by (simp add: b64_decode_def Let_def)
qed

lemma zeros_body: "\<not> space_byte c \<Longrightarrow> list_all (\<lambda>b. \<not> space_byte b) (replicate 42 65 @ [c])"
  by (simp add: list_all_iff space_byte_def)

text \<open>
  The encoding is not canonical: the last digit of a 32-byte value has two unused bits,
  which the decoder ignores, so a key is accepted under texts other than the one Encode writes.
\<close>

theorem parse_key_accepts_non_canonical:
  "parse_key (replicate 42 65 @ [68, 10]) = Inr (replicate 32 0)
   \<and> encode_key (replicate 32 0) \<noteq> replicate 42 65 @ [68, 10]"
proof
  have "b64_val (68 :: byte) = Some 3" by (simp add: b64_val_def)
  note d = decode_zeros [OF this, simplified]
  have z: "replicate 32 (0 :: byte) = replicate 31 0 @ [0]"
    by (simp add: replicate_append_same flip: replicate_Suc)
  have "list_all (\<lambda>b. \<not> space_byte b) (replicate 42 65 @ [68])"
    by (rule zeros_body) (simp add: space_byte_def)
  from key_body_plain(2) [OF _ this] d this show
    "parse_key (replicate 42 65 @ [68, 10]) = Inr (replicate 32 0)"
    by (simp add: parse_key_body key_len_def z)
  have z2: "replicate 32 (0 :: byte) = replicate 30 0 @ [0, 0]"
    using replicate_add [of 30 2 "0 :: byte"] by (simp add: numeral_2_eq_2)
  show "encode_key (replicate 32 0) \<noteq> replicate 42 65 @ [68, 10]"
  proof
    assume e: "encode_key (replicate 32 0) = replicate 42 65 @ [68, 10]"
    then have "b64_encode (replicate 32 0) = butlast (replicate 42 65 @ [68, 10])"
      by (metis butlast_snoc encode_key_def)
    moreover have "last (b64_encode (replicate 32 0)) = 65"
      using b64_digits_zeros [of 10 "[0, 0]"] by (simp add: z2 b64_encode_def Let_def b64_char_def)
    ultimately show False by (simp add: butlast_append)
  qed
qed

section \<open>The schedule\<close>

text \<open>What the schedule needs of its hash: digests of 32 bytes. SHA-256 provides it.\<close>

locale hash_function =
  fixes H :: hash
  assumes digest: "length (H m) = 32"
begin

lemma hmac_length: "length (hmac H k m) = 32"
  by (simp add: hmac_def Let_def digest)

lemma expand_label: "hkdf_expand H prk info key_len = hmac H prk (ascii_bytes info @ [1])"
  by (simp add: hkdf_expand_def key_len_def hmac_length)

end

interpretation sha: hash_function sha256
  by unfold_locales (rule sha256_length)

text \<open>
  A derived schedule consists of two different 32-byte keys, each the first HKDF block
  under its own label of one extracted key; the derivation fails only if the two coincide.
\<close>

theorem schedule_separates_keys:
  "let prk = hmac sha256 (sha256 (ascii_bytes key_schedule_salt)) psk;
       pre = hmac sha256 prk (ascii_bytes preauth_info @ [1]);
       noise = hmac sha256 prk (ascii_bytes noise_psk_info @ [1])
   in (case derive_schedule psk of
         Inl e \<Rightarrow> e = IdenticalKeys \<and> pre = noise
       | Inr s \<Rightarrow> preauth_key s = pre \<and> noise_psk s = noise \<and> pre \<noteq> noise
           \<and> length pre = 32 \<and> length noise = 32)"
  by (simp add: derive_schedule_def hkdf_extract_def sha.expand_label sha.hmac_length Let_def)

text \<open>A write without faults, for the witness.\<close>

definition no_write_faults :: write_faults where
  "no_write_faults = \<lparr>open_fails = False, write_stops = None, sync_fails = False\<rparr>"

theorem private_key_roundtrip_witness:
  "\<exists>files' f. write_private_key_file no_write_faults 18 ''k'' (replicate 32 7) (\<lambda>_. None) = (None, files')
     \<and> files' ''k'' = Some f
     \<and> load_private_key_file (Some (file_mode f)) (Some (file_data f)) = Inr (replicate 32 7)"
proof -
  obtain files' where
    w: "write_private_key_file no_write_faults 18 ''k'' (replicate 32 7) (\<lambda>_. None) = (None, files')"
    by (simp add: write_private_key_file_def write_exclusive_def no_write_faults_def Let_def)
  have "length (replicate 32 (7 :: byte)) = 32" by simp
  from private_key_roundtrip [OF this w] w show ?thesis by blast
qed

end
