(* ===== verification/Float64.thy ===== *)
theory Float64
  imports Prelude "HOL-Library.Log_Nat"
begin

text \<open>
  The binary64 numbers the code computes with, as far as it does: positive numbers in the normal
  range, kept as \<open>m * 2 ^ e\<close> with \<open>e\<close> an integer exponent. Every operation is the exact result
  rounded to the nearest multiple of the unit in the last place, ties to even.
\<close>

type_synonym pos_f64 = "int \<times> int"

definition two_to :: "int \<Rightarrow> int" where
  "two_to e = 2 ^ nat e"

text \<open>The integer nearest to \<open>n / d\<close>, ties to even.\<close>

definition round_div :: "int \<Rightarrow> int \<Rightarrow> int" where
  "round_div n d = (let q = n div d; r = n mod d in
     if d < 2 * r \<or> (2 * r = d \<and> odd q) then q + 1 else q)"

text \<open>\<open>p / q\<close> divided by \<open>2 ^ k\<close>, rounded.\<close>

definition scaled :: "int \<Rightarrow> int \<Rightarrow> int \<Rightarrow> int" where
  "scaled p q k = round_div (p * two_to (- k)) (q * two_to k)"

text \<open>The exponent that leaves 53 significant bits of \<open>p / q\<close>.\<close>

definition unit_exp :: "int \<Rightarrow> int \<Rightarrow> int" where
  "unit_exp p q = (let k = bitlen p - bitlen q - 53 in
     if two_to 53 * q * two_to k \<le> p * two_to (- k) then k + 1 else k)"

definition f64_ratio :: "int \<Rightarrow> int \<Rightarrow> pos_f64" where
  "f64_ratio p q = (let k = unit_exp p q in (scaled p q k, k))"

text \<open>\<open>float64(n)\<close>, \<open>x / float64(d)\<close> and \<open>x > y\<close>.\<close>

definition f64_of_int :: "int \<Rightarrow> pos_f64" where
  "f64_of_int n = f64_ratio n 1"

definition f64_div_int :: "pos_f64 \<Rightarrow> int \<Rightarrow> pos_f64" where
  "f64_div_int x d = (case x of (m, e) \<Rightarrow> f64_ratio (m * two_to e) (d * two_to (- e)))"

definition f64_greater :: "pos_f64 \<Rightarrow> pos_f64 \<Rightarrow> bool" where
  "f64_greater x y = (case (x, y) of ((m, e), (n, f)) \<Rightarrow>
     let l = min e f in n * two_to (f - l) < m * two_to (e - l))"

lemma two_to_pos [simp]: "0 < two_to e"
  by (simp add: two_to_def)

lemma round_div_near:
  assumes "0 < d"
  shows "\<bar>2 * (round_div n d * d - n)\<bar> \<le> d"
proof -
  define q r where "q = n div d" and "r = n mod d"
  have e: "n = q * d + r" and r: "0 \<le> r" "r < d" using assms by (simp_all add: q_def r_def)
  have "round_div n d = (if d < 2 * r \<or> (2 * r = d \<and> odd q) then q + 1 else q)"
    by (simp add: round_div_def Let_def q_def r_def)
  then show ?thesis
    using e r by (auto simp: distrib_right abs_le_iff)
qed

lemma round_div_le: "0 < d \<Longrightarrow> n \<le> j * d \<Longrightarrow> round_div n d \<le> j"
proof -
  assume d: "0 < d" and n: "n \<le> j * d"
  show ?thesis
  proof (cases "n mod d = 0")
    case True
    with d have "round_div n d = n div d" by (simp add: round_div_def Let_def)
    moreover have "n div d \<le> j" using zdiv_mono1 [OF n d] d by simp
    ultimately show ?thesis by simp
  next
    case False
    have "n < j * d" using n False by (metis mod_mult_self2_is_0 mult.commute order_le_less)
    moreover have "n div d * d \<le> n"
      using div_mult_mod_eq [of n d] pos_mod_sign [OF d, of n] by linarith
    ultimately have "n div d * d < j * d" by linarith
    then have "n div d < j" using d by (simp add: mult_less_cancel_right)
    then show ?thesis by (simp add: round_div_def Let_def)
  qed
qed

text \<open>Small integers are exact.\<close>

lemma unit_exp_small:
  assumes "0 < p" "p < 2 ^ 53"
  shows "unit_exp p 1 \<le> 0"
proof -
  have b: "bitlen p \<le> 53" using assms by (simp add: bitlen_le_iff_power)
  have b1: "bitlen (1::int) = 1" by (simp add: bitlen_def compute_floorlog)
  show ?thesis unfolding unit_exp_def Let_def b1 using b by simp
qed

lemma f64_of_int_exact:
  assumes "0 < p" "p < 2 ^ 53"
  obtains k where "k \<le> 0" "f64_of_int p = (p * two_to (- k), k)"
proof -
  have k: "unit_exp p 1 \<le> 0" by (rule unit_exp_small [OF assms])
  then have "two_to (unit_exp p 1) = 1" by (simp add: two_to_def)
  then have "f64_of_int p = (p * two_to (- unit_exp p 1), unit_exp p 1)"
    by (simp add: f64_of_int_def f64_ratio_def scaled_def round_div_def Let_def)
  with k that show ?thesis by blast
qed


lemma two_to_add: "0 \<le> a \<Longrightarrow> 0 \<le> b \<Longrightarrow> two_to (a + b) = two_to a * two_to b"
  by (simp add: two_to_def nat_add_distrib power_add)

text \<open>Comparing a quotient \<open>M * 2 ^ u\<close> with an integer, both exponents at most zero.\<close>

lemma greater_scaled:
  assumes "b \<le> 0" and "u \<le> 0"
  shows "f64_greater (M, u) (m * two_to (- b), b) \<longleftrightarrow> m * two_to (- u) < M"
proof -
  define l where "l = min u b"
  have l: "l \<le> u" "l \<le> b" by (simp_all add: l_def)
  have "two_to (- b) * two_to (b - l) = two_to (- l)" "two_to (- u) * two_to (u - l) = two_to (- l)"
    using two_to_add [of "- b" "b - l"] two_to_add [of "- u" "u - l"] assms l by simp_all
  then have eq: "m * two_to (- b) * two_to (b - l) = m * two_to (- u) * two_to (u - l)"
    by (simp only: mult.assoc)
  have "f64_greater (M, u) (m * two_to (- b), b)
      \<longleftrightarrow> m * two_to (- b) * two_to (b - l) < M * two_to (u - l)"
    by (simp add: f64_greater_def Let_def flip: l_def)
  also have "\<dots> \<longleftrightarrow> m * two_to (- u) * two_to (u - l) < M * two_to (u - l)" by (simp only: eq)
  also have "\<dots> \<longleftrightarrow> m * two_to (- u) < M" by (rule mult_less_cancel_right_pos) simp
  finally show ?thesis .
qed

text \<open>Rounding a thousandth to at least nine bits after the point never crosses an integer.\<close>

lemma rounded_thousandth:
  assumes "0 < A" and "512 \<le> U" and "M = round_div (k * A * U) (1000 * A)"
  shows "m * U < M \<longleftrightarrow> 1000 * m < (k :: int)"
proof
  assume "m * U < M"
  then have "\<not> M \<le> m * U" by simp
  then have "\<not> k * A * U \<le> (m * U) * (1000 * A)"
    using round_div_le [of "1000 * A" "k * A * U" "m * U"] assms(1,3) by auto
  then have "1000 * m * (A * U) < k * (A * U)" by (simp add: ac_simps not_le)
  then show "1000 * m < k" using assms(1,2) by (simp add: mult_less_cancel_right)
next
  assume "1000 * m < k"
  then have "(1000 * m + 1) * (A * U) \<le> k * (A * U)"
    using assms(1,2) by (intro mult_right_mono) auto
  then have 1: "A * U + 1000 * (A * U * m) \<le> A * U * k" by (simp add: algebra_simps)
  have "\<bar>2 * (M * (1000 * A) - k * A * U)\<bar> \<le> 1000 * A"
    unfolding assms(3) by (rule round_div_near) (use assms(1) in simp)
  then have 2: "2 * (A * U * k) \<le> 1000 * A + 2000 * (A * M)" by (simp add: algebra_simps abs_le_iff)
  have 3: "A * 512 \<le> A * U" using assms(1,2) by (intro mult_left_mono) auto
  have "A * U * m < A * M" using 1 2 3 assms(1) by linarith
  then have "A * (m * U) < A * M" by (simp add: ac_simps)
  then show "m * U < M" using mult_less_cancel_left_pos [OF assms(1)] by blast
qed

text \<open>
  Dividing by 1000 and comparing with an integer is exact below \<open>2 ^ 53\<close>: the quotient has at
  least nine bits after the point, so rounding never crosses an integer.
\<close>

lemma thousandth_greater:
  assumes "0 < k" "k < 2 ^ 53" "0 < m" "m < 2 ^ 53"
  shows "f64_greater (f64_div_int (f64_of_int k) 1000) (f64_of_int m) \<longleftrightarrow> 1000 * m < k"
proof -
  obtain a where a: "a \<le> 0" "f64_of_int k = (k * two_to (- a), a)"
    using f64_of_int_exact [OF assms(1,2)] .
  obtain b where b: "b \<le> 0" "f64_of_int m = (m * two_to (- b), b)"
    using f64_of_int_exact [OF assms(3,4)] .
  define A where "A = two_to (- a)"
  have A: "0 < A" by (simp add: A_def)
  have a1: "two_to a = 1" using a(1) by (simp add: two_to_def)
  define u where "u = unit_exp (k * A) (1000 * A)"
  define M where "M = scaled (k * A) (1000 * A) u"
  have dv: "f64_div_int (f64_of_int k) 1000 = (M, u)"
    by (simp add: a(2) f64_div_int_def f64_ratio_def Let_def a1 M_def u_def flip: A_def)
  have "bitlen (k * A) = bitlen k + nat (- a)" "bitlen (1000 * A) = bitlen 1000 + nat (- a)"
    using assms(1) by (simp_all add: A_def two_to_def)
  moreover have "bitlen k \<le> 53" using assms(1,2) by (simp add: bitlen_le_iff_power)
  moreover have "bitlen (1000 :: int) = 10" by (simp add: bitlen_def compute_floorlog)
  ultimately have u: "u \<le> - 9" by (auto simp: u_def unit_exp_def Let_def)
  have "(2 :: int) ^ 9 \<le> 2 ^ nat (- u)" using u by (intro power_increasing) auto
  then have U: "512 \<le> two_to (- u)" by (simp add: two_to_def)
  have "two_to u = 1" using u by (simp add: two_to_def)
  then have "M = round_div (k * A * two_to (- u)) (1000 * A)" by (simp add: M_def scaled_def)
  then show ?thesis
    using greater_scaled [OF b(1), of u M m] rounded_thousandth [OF A U] u by (simp add: dv b(2))
qed

end
