(* ===== verification/Netip.thy ===== *)
theory Netip
  imports Prelude
begin

text \<open>
  What the code uses of Go's \<open>net/netip\<close>: addresses, address and port, prefixes, and whether
  \<open>ParseAddr\<close> accepts a string. The zero value of each type is invalid.
\<close>

unbundle bit_operations_syntax

section \<open>Addresses\<close>

datatype addr = NoAddr | V4 u32 | V6 "128 word" string

definition addr_valid :: "addr \<Rightarrow> bool" where
  "addr_valid a \<longleftrightarrow> a \<noteq> NoAddr"

fun is4 :: "addr \<Rightarrow> bool" where
  "is4 (V4 w) = True"
| "is4 a = False"

fun is6 :: "addr \<Rightarrow> bool" where
  "is6 (V6 w z) = True"
| "is6 a = False"

text \<open>An IPv4 address in IPv6 form, and the address it stands for.\<close>

fun unmap :: "addr \<Rightarrow> addr" where
  "unmap (V6 w z) = (if drop_bit 32 w = 0xFFFF then V4 (ucast w) else V6 w z)"
| "unmap a = a"

definition is_unspecified :: "addr \<Rightarrow> bool" where
  "is_unspecified a \<longleftrightarrow> a = V4 0 \<or> a = V6 0 []"

definition is_multicast :: "addr \<Rightarrow> bool" where
  "is_multicast a \<longleftrightarrow> (case unmap a of
     V4 w \<Rightarrow> drop_bit 28 w = 0xE | V6 w z \<Rightarrow> drop_bit 120 w = 0xFF | NoAddr \<Rightarrow> False)"

definition is_loopback :: "addr \<Rightarrow> bool" where
  "is_loopback a \<longleftrightarrow> (case unmap a of
     V4 w \<Rightarrow> drop_bit 24 w = 127 | V6 w z \<Rightarrow> w = 1 | NoAddr \<Rightarrow> False)"

record addr_port =
  ap_addr :: addr
  ap_port :: "16 word"

definition ap_valid :: "addr_port \<Rightarrow> bool" where
  "ap_valid ap \<longleftrightarrow> addr_valid (ap_addr ap)"

definition no_addr_port :: addr_port where
  "no_addr_port = \<lparr>ap_addr = NoAddr, ap_port = 0\<rparr>"

section \<open>Prefixes\<close>

datatype prefix = NoPrefix | Prefix addr nat

fun prefix_valid :: "prefix \<Rightarrow> bool" where
  "prefix_valid NoPrefix = False"
| "prefix_valid (Prefix a n) = True"

fun prefix_addr :: "prefix \<Rightarrow> addr" where
  "prefix_addr NoPrefix = NoAddr"
| "prefix_addr (Prefix a n) = a"

text \<open>\<open>Bits\<close> is \<open>-1\<close> for an invalid prefix.\<close>

fun prefix_bits :: "prefix \<Rightarrow> int" where
  "prefix_bits NoPrefix = - 1"
| "prefix_bits (Prefix a n) = int n"

fun prefix_contains :: "prefix \<Rightarrow> addr \<Rightarrow> bool" where
  "prefix_contains (Prefix (V4 p) n) (V4 w) = (drop_bit (32 - n) (w XOR p) = 0)"
| "prefix_contains (Prefix (V6 p zp) n) (V6 w z) = (z = [] \<and> drop_bit (128 - n) (w XOR p) = 0)"
| "prefix_contains p a = False"

text \<open>Containment of IPv4 addresses is agreement on the leading bits.\<close>

lemma contains_v4:
  "prefix_contains (Prefix (V4 p) n) (V4 w) \<longleftrightarrow> drop_bit (32 - n) w = drop_bit (32 - n) p"
proof -
  have "drop_bit k (w XOR p) = drop_bit k w XOR drop_bit k p" for k
    by (simp add: drop_bit_xor)
  moreover have "a XOR b = 0 \<longleftrightarrow> a = b" for a b :: u32
  proof
    assume "a XOR b = 0"
    then have "(a XOR b) XOR b = 0 XOR b" by simp
    then show "a = b" by (simp add: xor.assoc)
  qed simp
  ultimately show ?thesis by simp
qed

section \<open>Parsing\<close>

text \<open>
  One decimal field: at least one digit, no leading zero, at most 255. Four of them make an
  IPv4 address.
\<close>

definition v4_field :: "string \<Rightarrow> nat option" where
  "v4_field s =
     (if s = [] \<or> (hd s = CHR ''0'' \<and> length s > 1) then None
      else (case those (map digit_val s) of
              None \<Rightarrow> None
            | Some ds \<Rightarrow> (let v = foldl (\<lambda>a d. a * 10 + d) 0 ds in if v \<le> 255 then Some v else None)))"

definition parse_v4 :: "string \<Rightarrow> u32 option" where
  "parse_v4 s =
     (case map v4_field (split_on (CHR ''.'') s) of
        [Some a, Some b, Some c, Some d] \<Rightarrow>
          Some (((of_nat a * 256 + of_nat b) * 256 + of_nat c) * 256 + of_nat d)
      | _ \<Rightarrow> None)"

text \<open>
  The loop over the groups of an IPv6 address: \<open>i\<close> groups of two bytes are done and \<open>ellipsis\<close>
  says whether \<open>::\<close> was seen. The result is the number of groups when the text is accepted by
  the loop, and whether an ellipsis was seen.
\<close>

function v6_groups :: "nat \<Rightarrow> bool \<Rightarrow> string \<Rightarrow> (nat \<times> bool \<times> string) option" where
  "v6_groups i ellipsis s =
     (if i \<ge> 8 then Some (i, ellipsis, s)
      else (let digits = takeWhile (\<lambda>c. hex_val c \<noteq> None) s; rest = dropWhile (\<lambda>c. hex_val c \<noteq> None) s in
        if digits = [] \<or> length digits > 4 then None
        else (case rest of
                [] \<Rightarrow> Some (i + 1, ellipsis, [])
              | c # rest' \<Rightarrow>
                  if c = CHR ''.'' then
                    (if \<not> ellipsis \<and> i \<noteq> 6 then None
                     else if i + 2 > 8 then None
                     else if parse_v4 s = None then None
                     else Some (i + 2, ellipsis, []))
                  else if c \<noteq> CHR '':'' \<or> rest' = [] then None
                  else if hd rest' = CHR '':'' then
                    (if ellipsis then None
                     else if tl rest' = [] then Some (i + 1, True, [])
                     else v6_groups (i + 1) True (tl rest'))
                  else v6_groups (i + 1) ellipsis rest')))"
  by pat_completeness auto

termination by (relation "measure (\<lambda>(i, e, s). 8 - i)") auto

definition parse_v6_ok :: "string \<Rightarrow> bool" where
  "parse_v6_ok inp =
     (let s = cut_at (CHR ''%'') inp in
      if s \<noteq> inp \<and> drop (length s + 1) inp = [] then False
      else (let lead = has_prefix s ''::''; t = (if lead then drop 2 s else s) in
        if lead \<and> t = [] then True
        else (case v6_groups 0 lead t of
                None \<Rightarrow> False
              | Some (n, e, rest) \<Rightarrow> rest = [] \<and> (if n < 8 then e else \<not> e))))"

text \<open>The first of \<open>.\<close>, \<open>:\<close> and \<open>%\<close> decides the form.\<close>

definition parse_addr_ok :: "string \<Rightarrow> bool" where
  "parse_addr_ok s =
     (case dropWhile (\<lambda>c. c \<notin> {CHR ''.'', CHR '':'', CHR ''%''}) s of
        [] \<Rightarrow> False
      | c # _ \<Rightarrow> (if c = CHR ''.'' then parse_v4 s \<noteq> None
                  else if c = CHR '':'' then parse_v6_ok s else False))"

declare v6_groups.simps [simp del]

end
