(* ===== verification/ConfigChecks.thy ===== *)
theory ConfigChecks
  imports Netip Float64
begin

text \<open>
  The checks shared by client and server configuration: \<open>internal/config/types.go\<close>,
  \<open>validate.go\<close> and the health and congestion parts of \<open>client.go\<close>. A check returns the list of
  problems it adds; the accumulating \<open>errList\<close> of the code is the concatenation of these lists
  in the order of the calls. A problem is the constructor of its message with the values the
  code formats into it. Durations are nanoseconds; a Go \<open>int\<close> is an \<open>int\<close>.
\<close>

type_synonym fwmark = u32
type_synonym route_table_id = u32

definition rt_unspec :: route_table_id where "rt_unspec = 0"
definition rt_default :: route_table_id where "rt_default = 253"
definition rt_main :: route_table_id where "rt_main = 254"
definition rt_local :: route_table_id where "rt_local = 255"
definition rt_max :: route_table_id where "rt_max = 0x7fffffff"

definition reserved :: "route_table_id \<Rightarrow> bool" where
  "reserved t \<longleftrightarrow> t = rt_unspec \<or> t = rt_default \<or> t = rt_main \<or> t = rt_local \<or> t > rt_max"

definition rule_priority_ceiling :: u32 where "rule_priority_ceiling = 32765"

definition min_tun_mtu :: int where "min_tun_mtu = 1112"
definition max_tun_mtu :: int where "max_tun_mtu = 1400"
definition min_paths :: int where "min_paths = 1"
definition max_paths :: int where "max_paths = 4"
definition min_dedup_window :: int where "min_dedup_window = 4096"
definition max_dedup_window :: int where "max_dedup_window = 1048576"
definition min_probe :: int where "min_probe = 100000000"
definition max_probe :: int where "max_probe = 5000000000"
definition iface_name_max :: nat where "iface_name_max = 15"

datatype (plugins only: code) problem =
    NotLiteralIPv4 string
  | NotIPv4 string addr
  | PortZero string
  | AddrUnspecified string
  | AddrMulticast string
  | AddrBroadcast string
  | MetricsInvalid string
  | MetricsPublic string addr
  | DedupRange int
  | DedupNotPowerOfTwo int
  | ProbeRange string int
  | MtuRange string int
  | IfaceEmpty
  | IfaceTooLong string
  | IfaceBadChar string
  | NotPositive string
  | Required string
  | BadChoice string string
  | TableReserved string u32
  | RuleBaseRange u32
  | PathsRange string int
  | AtLeastOne string
  | InvalidDNS nat
  | NoUplink
  | TooManyUplinks nat
  | DuplicateName string
  | MarkZero string
  | DuplicateMark u32
  | TableCollides string u32
  | DuplicateTable u32
  | BadGateway string string
  | MinAboveInitial int int
  | InitialAboveMax int int
  | BadPrefix string
  | AddressOutside prefix prefix
  | BitsDiffer int int
  | SourceAboveHandshakes int int
  | NoPeer
  | PeerUnnamed nat
  | PeerNotIPv4 string
  | PeerOutside string addr prefix
  | DuplicateIP addr

definition add_if :: "bool \<Rightarrow> problem \<Rightarrow> problem list" where
  "add_if b p = (if b then [p] else [])"

lemma add_if_Nil [simp]: "add_if b p = [] \<longleftrightarrow> \<not> b"
  by (simp add: add_if_def)

text \<open>\<open>errList.err\<close>: nil when nothing was added.\<close>

definition err_of :: "problem list \<Rightarrow> problem list option" where
  "err_of ps = (if ps = [] then None else Some ps)"

section \<open>Single fields\<close>

definition check_server_addr :: "string \<Rightarrow> addr_port \<Rightarrow> problem list" where
  "check_server_addr field ap =
     (if \<not> ap_valid ap then [NotLiteralIPv4 field]
      else (let a = ap_addr ap in
        add_if (\<not> is4 a) (NotIPv4 field a)
        @ add_if (ap_port ap = 0) (PortZero field)
        @ (if is_unspecified a then [AddrUnspecified field]
           else if is_multicast a then [AddrMulticast field]
           else add_if (a = V4 0xFFFFFFFF) (AddrBroadcast field))))"

definition check_listen_addr :: "string \<Rightarrow> addr_port \<Rightarrow> problem list" where
  "check_listen_addr field ap =
     (if \<not> ap_valid ap \<or> \<not> is4 (ap_addr ap) then [NotLiteralIPv4 field]
      else add_if (ap_port ap = 0) (PortZero field))"

definition check_metrics_addr :: "string \<Rightarrow> addr_port \<Rightarrow> bool \<Rightarrow> problem list" where
  "check_metrics_addr field ap allow_public =
     (if \<not> ap_valid ap then []
      else if \<not> is4 (ap_addr ap) \<and> \<not> is6 (ap_addr ap) then [MetricsInvalid field]
      else add_if (\<not> is_loopback (ap_addr ap) \<and> \<not> allow_public) (MetricsPublic field (ap_addr ap)))"

text \<open>\<open>n & (n-1) != 0\<close> on a 64-bit int.\<close>

definition check_dedup_window :: "int \<Rightarrow> problem list" where
  "check_dedup_window n =
     (if n < min_dedup_window \<or> n > max_dedup_window then [DedupRange n]
      else add_if ((word_of_int n :: 64 word) AND word_of_int (n - 1) \<noteq> 0) (DedupNotPowerOfTwo n))"

definition check_probe_interval :: "string \<Rightarrow> int \<Rightarrow> problem list" where
  "check_probe_interval field ns = add_if (ns < min_probe \<or> ns > max_probe) (ProbeRange field ns)"

definition check_tun_mtu :: "string \<Rightarrow> int \<Rightarrow> problem list" where
  "check_tun_mtu field mtu = add_if (mtu < min_tun_mtu \<or> mtu > max_tun_mtu) (MtuRange field mtu)"

definition check_iface_name :: "string \<Rightarrow> problem list" where
  "check_iface_name name =
     (if name = [] then [IfaceEmpty]
      else if length name > iface_name_max then [IfaceTooLong name]
      else add_if (contains_any name [CHR ''/'', CHR '' '', CHR 0x09, CHR 0x0A]) (IfaceBadChar name))"

definition require_dur :: "string \<Rightarrow> int \<Rightarrow> problem list" where
  "require_dur field d = add_if (d \<le> 0) (NotPositive field)"

section \<open>Health and congestion\<close>

record health_config =
  probe_interval :: int
  dead_after_missed :: int

record congestion_config =
  initial_rate_mbps :: int
  min_rate_kbps :: int
  max_rate_mbps :: int
  queue_delay_target :: int

definition apply_health_defaults :: "health_config \<Rightarrow> health_config" where
  "apply_health_defaults h = \<lparr>
     probe_interval = (if probe_interval h = 0 then 250000000 else probe_interval h),
     dead_after_missed = (if dead_after_missed h = 0 then 3 else dead_after_missed h)\<rparr>"

definition apply_congestion_defaults :: "congestion_config \<Rightarrow> congestion_config" where
  "apply_congestion_defaults c = \<lparr>
     initial_rate_mbps = (if initial_rate_mbps c = 0 then 1 else initial_rate_mbps c),
     min_rate_kbps = (if min_rate_kbps c = 0 then 128 else min_rate_kbps c),
     max_rate_mbps = (if max_rate_mbps c = 0 then 100 else max_rate_mbps c),
     queue_delay_target = (if queue_delay_target c = 0 then 15000000 else queue_delay_target c)\<rparr>"

definition validate_health :: "health_config \<Rightarrow> problem list" where
  "validate_health h =
     check_probe_interval ''health.probe_interval'' (probe_interval h)
     @ add_if (dead_after_missed h < 1) (AtLeastOne ''health.dead_after_missed_probes'')"

definition validate_congestion :: "congestion_config \<Rightarrow> problem list" where
  "validate_congestion c =
     (if initial_rate_mbps c \<le> 0 \<or> min_rate_kbps c \<le> 0 \<or> max_rate_mbps c \<le> 0
      then [NotPositive ''congestion'']
      else
        add_if (f64_greater (f64_div_int (f64_of_int (min_rate_kbps c)) 1000)
                  (f64_of_int (initial_rate_mbps c)))
          (MinAboveInitial (min_rate_kbps c) (initial_rate_mbps c))
        @ add_if (initial_rate_mbps c > max_rate_mbps c)
            (InitialAboveMax (initial_rate_mbps c) (max_rate_mbps c))
        @ require_dur ''congestion.queue_delay_target'' (queue_delay_target c))"

section \<open>What the checks accept\<close>

text \<open>A literal IPv4 endpoint a client can send to: not \<open>0.0.0.0\<close>, 224/4 or the broadcast address.\<close>

definition unicast_endpoint :: "addr_port \<Rightarrow> bool" where
  "unicast_endpoint ap \<longleftrightarrow> ap_port ap \<noteq> 0 \<and>
     (case ap_addr ap of V4 w \<Rightarrow> w \<noteq> 0 \<and> \<not> (0xE0000000 \<le> w \<and> w < 0xF0000000) \<and> w \<noteq> 0xFFFFFFFF
      | _ \<Rightarrow> False)"

lemma multicast_v4: "is_multicast (V4 w) \<longleftrightarrow> 0xE0000000 \<le> w \<and> w < 0xF0000000"
proof -
  have "drop_bit 28 w = 0xE \<longleftrightarrow> unat w div 2 ^ 28 = 0xE"
    by (simp add: word_unat_eq_iff unat_drop_bit_eq drop_bit_nat_def)
  also have "\<dots> \<longleftrightarrow> 0xE0000000 \<le> unat w \<and> unat w < 0xF0000000" by auto
  also have "\<dots> \<longleftrightarrow> 0xE0000000 \<le> w \<and> w < 0xF0000000"
    by (simp add: word_le_nat_alt word_less_nat_alt)
  finally show ?thesis by (simp add: is_multicast_def)
qed

lemma server_addr_ok: "check_server_addr field ap = [] \<longleftrightarrow> unicast_endpoint ap"
  by (cases "ap_addr ap")
    (auto simp: check_server_addr_def unicast_endpoint_def ap_valid_def addr_valid_def Let_def
      multicast_v4 is_unspecified_def)

lemma listen_addr_ok:
  "check_listen_addr field ap = [] \<longleftrightarrow> is4 (ap_addr ap) \<and> ap_port ap \<noteq> 0"
  by (cases "ap_addr ap") (auto simp: check_listen_addr_def ap_valid_def addr_valid_def)

lemma metrics_addr_ok:
  "check_metrics_addr field ap pub = [] \<longleftrightarrow>
     ap_addr ap = NoAddr \<or> is_loopback (ap_addr ap) \<or> pub"
  by (cases "ap_addr ap") (auto simp: check_metrics_addr_def ap_valid_def addr_valid_def)

lemma tun_mtu_ok: "check_tun_mtu field m = [] \<longleftrightarrow> 1112 \<le> m \<and> m \<le> 1400"
  by (auto simp: check_tun_mtu_def min_tun_mtu_def max_tun_mtu_def)

definition iface_name_ok :: "string \<Rightarrow> bool" where
  "iface_name_ok n \<longleftrightarrow> n \<noteq> [] \<and> length n \<le> 15
     \<and> set n \<inter> {CHR ''/'', CHR '' '', CHR 0x09, CHR 0x0A} = {}"

lemma iface_name_ok: "check_iface_name n = [] \<longleftrightarrow> iface_name_ok n"
  by (auto simp: check_iface_name_def iface_name_ok_def contains_any_iff iface_name_max_def)

lemma require_dur_ok: "require_dur field d = [] \<longleftrightarrow> 0 < d"
  by (auto simp: require_dur_def)

definition health_ok :: "health_config \<Rightarrow> bool" where
  "health_ok h \<longleftrightarrow> 100000000 \<le> probe_interval h \<and> probe_interval h \<le> 5000000000
     \<and> 1 \<le> dead_after_missed h"

lemma health_ok: "validate_health h = [] \<longleftrightarrow> health_ok h"
  by (auto simp: validate_health_def check_probe_interval_def health_ok_def min_probe_def max_probe_def)

text \<open>The exact reading of the three rates: \<open>min \<le> initial \<le> max\<close>.\<close>

definition congestion_ok :: "congestion_config \<Rightarrow> bool" where
  "congestion_ok c \<longleftrightarrow> 0 < min_rate_kbps c \<and> min_rate_kbps c \<le> 1000 * initial_rate_mbps c
     \<and> 0 < initial_rate_mbps c \<and> initial_rate_mbps c \<le> max_rate_mbps c \<and> 0 < queue_delay_target c"

definition exact_rates :: "congestion_config \<Rightarrow> bool" where
  "exact_rates c \<longleftrightarrow> min_rate_kbps c < 2 ^ 53 \<and> initial_rate_mbps c < 2 ^ 53"

lemma congestion_ok: "exact_rates c \<Longrightarrow> validate_congestion c = [] \<longleftrightarrow> congestion_ok c"
  using thousandth_greater [of "min_rate_kbps c" "initial_rate_mbps c"]
  by (auto simp: validate_congestion_def congestion_ok_def require_dur_ok exact_rates_def not_less)

text \<open>A dedup window is a power of two between \<open>2 ^ 12\<close> and \<open>2 ^ 20\<close>.\<close>

lemma power_of_two_double:
  fixes a :: int
  shows "(\<exists>k. 2 * a = 2 ^ k) \<longleftrightarrow> (\<exists>k. a = 2 ^ k) \<or> 2 * a = 1"
proof
  assume "\<exists>k. 2 * a = 2 ^ k"
  then obtain k where "2 * a = 2 ^ k" ..
  then show "(\<exists>k. a = 2 ^ k) \<or> 2 * a = 1" by (cases k) auto
next
  assume "(\<exists>k. a = 2 ^ k) \<or> 2 * a = 1"
  then obtain k where "a = 2 ^ k" by presburger
  then have "2 * a = 2 ^ Suc k" by simp
  then show "\<exists>k. 2 * a = 2 ^ k" ..
qed

lemma int_power_of_two: "0 < n \<Longrightarrow> n AND (n - 1) = 0 \<longleftrightarrow> (\<exists>k. n = (2 :: int) ^ k)"
proof (induction "nat n" arbitrary: n rule: less_induct)
  case less
  show ?case
  proof (cases "even n")
    case True
    then obtain a where a: "n = 2 * a" by blast
    with less.prems have "0 < a" by simp
    have "(2 * a - 1) div 2 = a - 1" by simp
    then have "n AND (n - 1) = 2 * (a AND (a - 1))"
      by (subst and_rec) (simp add: a)
    moreover have "a AND (a - 1) = 0 \<longleftrightarrow> (\<exists>k. a = 2 ^ k)"
      using less.hyps [of a] \<open>0 < a\<close> a by simp
    moreover have "2 * a \<noteq> 1" by presburger
    then have "(\<exists>k. a = 2 ^ k) \<longleftrightarrow> (\<exists>k. n = 2 ^ k)" unfolding a power_of_two_double by simp
    ultimately show ?thesis by simp
  next
    case False
    then obtain a where a: "n = 2 * a + 1" by (elim oddE)
    have "n AND (n - 1) = 2 * a"
      by (subst and_rec) (simp add: a)
    moreover have "(\<exists>k. n = 2 ^ k) \<longleftrightarrow> n = 1"
    proof
      assume "\<exists>k. n = 2 ^ k"
      then obtain k where "n = 2 ^ k" ..
      with False show "n = 1" by (cases k) auto
    next
      assume "n = 1"
      then show "\<exists>k. n = 2 ^ k" by (intro exI [of _ 0]) simp
    qed
    ultimately show ?thesis using a by auto
  qed
qed

lemma word_and_zero:
  assumes "0 \<le> n" "n < 2 ^ 63"
  shows "(word_of_int n :: 64 word) AND word_of_int (n - 1) = 0 \<longleftrightarrow> n AND (n - 1) = 0"
proof -
  have "n AND (n - 1) \<le> n" "0 \<le> n AND (n - 1)" using assms(1) by (simp_all add: AND_upper1)
  then have "take_bit 64 (n AND (n - 1)) = n AND (n - 1)"
    using assms(2) by (intro take_bit_int_eq_self) auto
  moreover have "(word_of_int n :: 64 word) AND word_of_int (n - 1) = word_of_int (n AND (n - 1))"
    by (simp add: of_int_and_eq)
  ultimately show ?thesis by (simp add: word_of_int_eq_0_iff dvd_eq_mod_eq_0 take_bit_eq_mod)
qed

lemma dedup_ok:
  "check_dedup_window n = [] \<longleftrightarrow> 4096 \<le> n \<and> n \<le> 1048576 \<and> (\<exists>k. n = 2 ^ k)"
  using word_and_zero [of n] int_power_of_two [of n]
  by (auto simp: check_dedup_window_def min_dedup_window_def max_dedup_window_def not_less)

end
