(* ===== verification/ConfigClient.thy ===== *)
theory ConfigClient
  imports ConfigChecks
begin

text \<open>
  The client configuration, \<open>internal/config/client.go\<close> with the loader of \<open>load.go\<close>: the record,
  its defaults and its validation. The YAML decoder is an argument that yields the documents
  of its input, each decoded or refused.
\<close>

record uplink =
  if_name :: string
  if_mark :: fwmark
  if_table :: route_table_id
  if_gateway :: string
  if_max_rate_mbps :: int

record client_identity =
  private_key_file :: string
  server_public_key_file :: string
  psk_file :: string

record client =
  c_server :: addr_port
  c_identity :: client_identity
  c_interfaces :: "uplink list"
  c_tun_name :: string
  c_tun_mtu :: int
  c_manage_routing :: bool
  c_full_tunnel :: bool
  c_tunnel_table :: route_table_id
  c_rule_base :: u32
  c_allow_lan :: bool
  c_kill_switch :: bool
  c_ipv6_policy :: string
  c_manage_dns :: bool
  c_dns_servers :: "addr list"
  c_dns_strict :: bool
  c_mode :: string
  c_max_paths :: int
  c_latency_max_bytes :: int
  c_latency_budget_mbps :: int
  c_standard_budget_mbps :: int
  c_replica_queue_budget :: int
  c_primary_deadline :: int
  c_health :: health_config
  c_congestion :: congestion_config
  c_rekey_after :: int
  c_rekey_packets :: u64
  c_dedup_window :: int
  c_metrics_addr :: addr_port
  c_metrics_public :: bool
  c_log_level :: string

definition or_default :: "'a \<Rightarrow> 'a \<Rightarrow> 'a \<Rightarrow> 'a" where
  "or_default zero d x = (if x = zero then d else x)"

lemma or_default_idem [simp]:
  "or_default z d (or_default z d x) = or_default z d x"
  by (simp add: or_default_def)

lemma or_default_not_zero: "d \<noteq> z \<Longrightarrow> or_default z d x \<noteq> z"
  by (simp add: or_default_def)

definition apply_client_defaults :: "client \<Rightarrow> client" where
  "apply_client_defaults c = c\<lparr>
     c_tun_name := or_default [] ''red0'' (c_tun_name c),
     c_tun_mtu := or_default 0 1180 (c_tun_mtu c),
     c_ipv6_policy := or_default [] ''block'' (c_ipv6_policy c),
     c_tunnel_table := or_default 0 200 (c_tunnel_table c),
     c_rule_base := or_default 0 10000 (c_rule_base c),
     c_mode := or_default [] ''adaptive-redundant'' (c_mode c),
     c_max_paths := or_default 0 4 (c_max_paths c),
     c_latency_max_bytes := or_default 0 768 (c_latency_max_bytes c),
     c_latency_budget_mbps := or_default 0 5 (c_latency_budget_mbps c),
     c_standard_budget_mbps := or_default 0 10 (c_standard_budget_mbps c),
     c_replica_queue_budget := or_default 0 5000000 (c_replica_queue_budget c),
     c_primary_deadline := or_default 0 50000000 (c_primary_deadline c),
     c_health := apply_health_defaults (c_health c),
     c_congestion := apply_congestion_defaults (c_congestion c),
     c_rekey_after := or_default 0 3600000000000 (c_rekey_after c),
     c_rekey_packets := or_default 0 4294967296 (c_rekey_packets c),
     c_dedup_window := or_default 0 65536 (c_dedup_window c),
     c_log_level := or_default [] ''info'' (c_log_level c)\<rparr>"

section \<open>Validation\<close>

text \<open>The loop over the uplinks, with the names, marks and tables seen so far.\<close>

fun validate_uplinks ::
  "route_table_id \<Rightarrow> string list \<Rightarrow> fwmark list \<Rightarrow> route_table_id list \<Rightarrow> uplink list \<Rightarrow> problem list" where
  "validate_uplinks tunnel ns ms ts [] = []"
| "validate_uplinks tunnel ns ms ts (u # us) =
     check_iface_name (if_name u)
     @ add_if (if_name u \<in> set ns) (DuplicateName (if_name u))
     @ (if if_mark u = 0 then [MarkZero (if_name u)]
        else add_if (if_mark u \<in> set ms) (DuplicateMark (if_mark u)))
     @ add_if (reserved (if_table u)) (TableReserved (if_name u) (if_table u))
     @ add_if (if_table u = tunnel) (TableCollides (if_name u) (if_table u))
     @ add_if (if_table u \<in> set ts) (DuplicateTable (if_table u))
     @ add_if (if_gateway u \<noteq> [] \<and> if_gateway u \<noteq> ''auto'' \<and> \<not> parse_addr_ok (if_gateway u))
         (BadGateway (if_name u) (if_gateway u))
     @ add_if (if_max_rate_mbps u \<le> 0) (NotPositive (if_name u))
     @ validate_uplinks tunnel (if_name u # ns) (if_mark u # ms) (if_table u # ts) us"

definition validate_interfaces :: "uplink list \<Rightarrow> route_table_id \<Rightarrow> problem list" where
  "validate_interfaces us tunnel =
     (if us = [] then [NoUplink]
      else add_if (int (length us) > max_paths) (TooManyUplinks (length us))
           @ validate_uplinks tunnel [] [] [] us)"

fun check_dns :: "nat \<Rightarrow> addr list \<Rightarrow> problem list" where
  "check_dns i [] = []"
| "check_dns i (s # ss) = add_if (\<not> addr_valid s) (InvalidDNS i) @ check_dns (i + 1) ss"

text \<open>\<open>base < 1 || base+1000 > rulePriorityCeiling\<close>, in 32-bit arithmetic.\<close>

definition rule_base_refused :: "u32 \<Rightarrow> bool" where
  "rule_base_refused base \<longleftrightarrow> base < 1 \<or> base + 1000 > rule_priority_ceiling"

definition validate_client :: "client \<Rightarrow> problem list" where
  "validate_client c =
     check_server_addr ''server'' (c_server c)
     @ add_if (private_key_file (c_identity c) = []) (Required ''identity.private_key_file'')
     @ add_if (server_public_key_file (c_identity c) = []) (Required ''identity.server_public_key_file'')
     @ add_if (psk_file (c_identity c) = []) (Required ''identity.psk_file'')
     @ validate_interfaces (c_interfaces c) (c_tunnel_table c)
     @ check_iface_name (c_tun_name c)
     @ check_tun_mtu ''tun.mtu'' (c_tun_mtu c)
     @ add_if (c_ipv6_policy c \<noteq> ''block'' \<and> c_ipv6_policy c \<noteq> ''passthrough'')
         (BadChoice ''routing.ipv6_policy'' (c_ipv6_policy c))
     @ add_if (reserved (c_tunnel_table c)) (TableReserved ''routing.tunnel_table'' (c_tunnel_table c))
     @ add_if (rule_base_refused (c_rule_base c)) (RuleBaseRange (c_rule_base c))
     @ add_if (c_max_paths c < min_paths \<or> c_max_paths c > max_paths)
         (PathsRange ''scheduler.max_paths'' (c_max_paths c))
     @ add_if (c_latency_max_bytes c \<le> 0) (NotPositive ''scheduler.latency_packet_max_bytes'')
     @ require_dur ''scheduler.replica_queue_budget'' (c_replica_queue_budget c)
     @ require_dur ''scheduler.primary_queue_deadline'' (c_primary_deadline c)
     @ validate_health (c_health c)
     @ validate_congestion (c_congestion c)
     @ check_dedup_window (c_dedup_window c)
     @ require_dur ''session.rekey_after'' (c_rekey_after c)
     @ add_if (c_rekey_packets c = 0) (NotPositive ''session.rekey_after_packets'')
     @ check_dns 0 (c_dns_servers c)
     @ check_metrics_addr ''metrics_addr'' (c_metrics_addr c) (c_metrics_public c)"

section \<open>Loading\<close>

datatype load_problem =
    EmptyConfig | DecodeError string | NotOneDocument | Invalid "problem list"

definition decode_strict :: "(string + 'c) list \<Rightarrow> load_problem + 'c" where
  "decode_strict docs =
     (case docs of
        [] \<Rightarrow> Inl EmptyConfig
      | Inl e # _ \<Rightarrow> Inl (DecodeError e)
      | Inr c # rest \<Rightarrow> (if rest = [] then Inr c else Inl NotOneDocument))"

definition load_client :: "('b \<Rightarrow> (string + client) list) \<Rightarrow> 'b \<Rightarrow> load_problem + client" where
  "load_client yaml data =
     (case decode_strict (yaml data) of
        Inl e \<Rightarrow> Inl e
      | Inr c0 \<Rightarrow>
          (let c = apply_client_defaults c0 in
           case err_of (validate_client c) of Some ps \<Rightarrow> Inl (Invalid ps) | None \<Rightarrow> Inr c))"

section \<open>What a valid client configuration is\<close>

definition uplink_ok :: "route_table_id \<Rightarrow> uplink \<Rightarrow> bool" where
  "uplink_ok tunnel u \<longleftrightarrow> iface_name_ok (if_name u) \<and> if_mark u \<noteq> 0 \<and> \<not> reserved (if_table u)
     \<and> if_table u \<noteq> tunnel \<and> if_gateway u \<in> {[], ''auto''} \<union> Collect parse_addr_ok
     \<and> 0 < if_max_rate_mbps u"

definition uplinks_ok :: "route_table_id \<Rightarrow> uplink list \<Rightarrow> bool" where
  "uplinks_ok tunnel us \<longleftrightarrow> 1 \<le> length us \<and> length us \<le> 4 \<and> list_all (uplink_ok tunnel) us
     \<and> distinct (map if_name us) \<and> distinct (map if_mark us) \<and> distinct (map if_table us)"

definition client_ok :: "client \<Rightarrow> bool" where
  "client_ok c \<longleftrightarrow> unicast_endpoint (c_server c)
     \<and> private_key_file (c_identity c) \<noteq> [] \<and> server_public_key_file (c_identity c) \<noteq> []
     \<and> psk_file (c_identity c) \<noteq> []
     \<and> uplinks_ok (c_tunnel_table c) (c_interfaces c)
     \<and> iface_name_ok (c_tun_name c) \<and> 1112 \<le> c_tun_mtu c \<and> c_tun_mtu c \<le> 1400
     \<and> c_ipv6_policy c \<in> {''block'', ''passthrough''}
     \<and> \<not> reserved (c_tunnel_table c)
     \<and> c_rule_base c \<noteq> 0 \<and> (c_rule_base c \<le> 31765 \<or> 0xFFFFFC18 \<le> c_rule_base c)
     \<and> 1 \<le> c_max_paths c \<and> c_max_paths c \<le> 4 \<and> 0 < c_latency_max_bytes c
     \<and> 0 < c_replica_queue_budget c \<and> 0 < c_primary_deadline c
     \<and> health_ok (c_health c) \<and> congestion_ok (c_congestion c)
     \<and> 4096 \<le> c_dedup_window c \<and> c_dedup_window c \<le> 1048576 \<and> (\<exists>k. c_dedup_window c = 2 ^ k)
     \<and> 0 < c_rekey_after c \<and> c_rekey_packets c \<noteq> 0
     \<and> list_all addr_valid (c_dns_servers c)
     \<and> (ap_addr (c_metrics_addr c) = NoAddr \<or> is_loopback (ap_addr (c_metrics_addr c))
        \<or> c_metrics_public c)"

lemma validate_uplinks_ok:
  "validate_uplinks tunnel ns ms ts us = [] \<longleftrightarrow> list_all (uplink_ok tunnel) us
     \<and> distinct (map if_name us) \<and> set (map if_name us) \<inter> set ns = {}
     \<and> distinct (map if_mark us) \<and> set (map if_mark us) \<inter> set ms = {}
     \<and> distinct (map if_table us) \<and> set (map if_table us) \<inter> set ts = {}"
  by (induction us arbitrary: ns ms ts) (auto simp: iface_name_ok uplink_ok_def)

lemma check_dns_ok: "check_dns i ss = [] \<longleftrightarrow> list_all addr_valid ss"
  by (induction ss arbitrary: i) auto

lemma interfaces_ok: "validate_interfaces us tunnel = [] \<longleftrightarrow> uplinks_ok tunnel us"
  by (cases us) (auto simp: validate_interfaces_def uplinks_ok_def validate_uplinks_ok max_paths_def
      simp del: validate_uplinks.simps)

text \<open>The 32-bit sum wraps for the last thousand values.\<close>

lemma rule_base_ok: "rule_base_refused b \<longleftrightarrow> b = 0 \<or> (31765 < b \<and> b < 0xFFFFFC18)"
proof -
  have "unat (b + 1000) = (unat b + 1000) mod 2 ^ 32" by (simp add: unat_word_ariths)
  moreover have "unat b < 2 ^ 32" using unsigned_less [of b] by simp
  ultimately have "unat (b + 1000) = (if unat b < 2 ^ 32 - 1000 then unat b + 1000 else unat b + 1000 - 2 ^ 32)"
    by (simp add: mod_if)
  then have "32765 < unat (b + 1000) \<longleftrightarrow> 31765 < unat b \<and> unat b < 2 ^ 32 - 1000"
    using \<open>unat b < 2 ^ 32\<close> by (auto split: if_splits)
  moreover have "b < 1 \<longleftrightarrow> b = 0" by (simp add: word_less_nat_alt unat_eq_0)
  ultimately show ?thesis
    by (simp add: rule_base_refused_def rule_priority_ceiling_def word_less_nat_alt)
qed

lemma client_valid:
  assumes "exact_rates (c_congestion c)"
  shows "validate_client c = [] \<longleftrightarrow> client_ok c"
  unfolding validate_client_def client_ok_def
  by (simp add: server_addr_ok interfaces_ok iface_name_ok tun_mtu_ok rule_base_ok require_dur_ok
      health_ok congestion_ok [OF assms] dedup_ok check_dns_ok metrics_addr_ok min_paths_def
      max_paths_def not_less not_le linorder_not_less)

lemma client_defaults_idem:
  "apply_client_defaults (apply_client_defaults c) = apply_client_defaults c"
  by (simp add: apply_client_defaults_def apply_health_defaults_def apply_congestion_defaults_def
      or_default_def)

lemma decode_one: "decode_strict docs = Inr c \<longleftrightarrow> docs = [Inr c]"
  by (auto simp: decode_strict_def split: list.splits sum.splits if_splits)

text \<open>A configuration with one uplink, for the witnesses.\<close>

definition sample_client :: client where
  "sample_client = \<lparr>
     c_server = \<lparr>ap_addr = V4 0xC0000201, ap_port = 4500\<rparr>,
     c_identity = \<lparr>private_key_file = ''k'', server_public_key_file = ''s'', psk_file = ''p''\<rparr>,
     c_interfaces = [\<lparr>if_name = ''eth0'', if_mark = 17, if_table = 101, if_gateway = ''auto'',
       if_max_rate_mbps = 50\<rparr>],
     c_tun_name = ''red0'', c_tun_mtu = 1180, c_manage_routing = True, c_full_tunnel = True,
     c_tunnel_table = 200, c_rule_base = 10000, c_allow_lan = True, c_kill_switch = True,
     c_ipv6_policy = ''block'', c_manage_dns = False, c_dns_servers = [V4 0x01010101],
     c_dns_strict = False, c_mode = ''adaptive-redundant'', c_max_paths = 4,
     c_latency_max_bytes = 768, c_latency_budget_mbps = 5, c_standard_budget_mbps = 10,
     c_replica_queue_budget = 5000000, c_primary_deadline = 50000000,
     c_health = \<lparr>probe_interval = 250000000, dead_after_missed = 3\<rparr>,
     c_congestion = \<lparr>initial_rate_mbps = 2, min_rate_kbps = 128, max_rate_mbps = 100,
       queue_delay_target = 15000000\<rparr>,
     c_rekey_after = 3600000000000, c_rekey_packets = 4294967296, c_dedup_window = 65536,
     c_metrics_addr = no_addr_port, c_metrics_public = False, c_log_level = ''info''\<rparr>"

lemma sample_client_ok: "client_ok sample_client"
proof -
  have "(65536 :: int) = 2 ^ 16" by simp
  then have "\<exists>k. (65536 :: int) = 2 ^ k" by blast
  then show ?thesis
    by (simp add: client_ok_def sample_client_def unicast_endpoint_def uplinks_ok_def uplink_ok_def
        iface_name_ok_def reserved_def rt_unspec_def rt_default_def rt_main_def rt_local_def rt_max_def
        health_ok_def congestion_ok_def addr_valid_def no_addr_port_def)
qed

text \<open>
  C15. Loading a client configuration succeeds exactly when the input is one document and, after
  defaulting, every bound that Validate checks holds: one to four uplinks with well-formed, distinct
  names, distinct non-zero marks and distinct unreserved tables, a unicast IPv4 server, an MTU
  from 1112 to 1400, a power-of-two dedup window, rates in order, positive durations and a
  metrics listener that is loopback or explicitly public (for the rule priority base the check
  also lets the last thousand 32-bit values through). What is loaded needs no more defaulting.
\<close>

theorem load_client_iff:
  assumes "exact_rates (c_congestion c)"
  shows "load_client yaml data = Inr c \<longleftrightarrow>
    client_ok c \<and> apply_client_defaults c = c
    \<and> (\<exists>c0. yaml data = [Inr c0] \<and> c = apply_client_defaults c0)"
proof -
  have "load_client yaml data = Inr c \<longleftrightarrow>
      (\<exists>c0. yaml data = [Inr c0] \<and> c = apply_client_defaults c0 \<and> validate_client c = [])"
    by (auto simp: load_client_def Let_def err_of_def decode_one [symmetric] split: sum.split)
  then show ?thesis using client_valid [OF assms] client_defaults_idem by auto
qed

theorem load_client_iff_witness:
  "load_client (\<lambda>d. [Inr d]) sample_client = Inr sample_client"
proof -
  have "exact_rates (c_congestion sample_client)" by (simp add: sample_client_def exact_rates_def)
  moreover have dflt: "apply_client_defaults sample_client = sample_client"
    by (simp add: apply_client_defaults_def sample_client_def or_default_def
        apply_health_defaults_def apply_congestion_defaults_def)
  ultimately show ?thesis
    using load_client_iff [of sample_client "\<lambda>d. [Inr d]" sample_client] sample_client_ok by auto
qed

text \<open>
  A rule priority base at the top of the 32-bit range is accepted although the ceiling is
  32765: adding 1000 to it wraps around to a small number.
\<close>

theorem rule_base_wraps:
  "validate_client (sample_client\<lparr>c_rule_base := 0xFFFFFFFF\<rparr>) = []
   \<and> rule_priority_ceiling < c_rule_base (sample_client\<lparr>c_rule_base := 0xFFFFFFFF\<rparr>)"
proof -
  let ?c = "sample_client\<lparr>c_rule_base := 0xFFFFFFFF\<rparr>"
  have "exact_rates (c_congestion ?c)" by (simp add: sample_client_def exact_rates_def)
  moreover have "client_ok ?c" using sample_client_ok by (simp add: client_ok_def)
  ultimately show ?thesis by (simp add: client_valid rule_priority_ceiling_def)
qed


text \<open>
  Some operator input is never checked: the two replica budgets, the scheduler mode and the
  log level have no influence on validation, so a negative budget or any mode is accepted.
\<close>

theorem client_fields_unchecked:
  "validate_client (c\<lparr>c_latency_budget_mbps := b1, c_standard_budget_mbps := b2, c_mode := m,
     c_log_level := l\<rparr>) = validate_client c"
  by (simp add: validate_client_def)

end
