(* ===== verification/ConfigServer.thy ===== *)
theory ConfigServer
  imports ConfigClient
begin

text \<open>
  The server configuration, \<open>internal/config/server.go\<close>: the record, its defaults and its
  validation, with the peers and the addresses of the tunnel.
\<close>

record peer =
  p_name :: string
  p_public_key_file :: string
  p_psk_file :: string
  p_tunnel_ip :: addr
  p_max_sessions :: int

record server =
  s_listen :: addr_port
  s_private_key_file :: string
  s_peers :: "peer list"
  s_tun_name :: string
  s_tun_address :: prefix
  s_tun_subnet :: prefix
  s_tun_mtu :: int
  s_manage_nat :: bool
  s_wan_interface :: string
  s_max_paths :: int
  s_max_sessions :: int
  s_max_pending :: int
  s_max_pending_source :: int
  s_idle_timeout :: int
  s_retry_mode :: string
  s_health :: health_config
  s_congestion :: congestion_config
  s_metrics_addr :: addr_port
  s_metrics_public :: bool
  s_log_level :: string

definition apply_server_defaults :: "server \<Rightarrow> server" where
  "apply_server_defaults s = s\<lparr>
     s_tun_name := or_default [] ''red0'' (s_tun_name s),
     s_tun_mtu := or_default 0 1180 (s_tun_mtu s),
     s_max_paths := or_default 0 4 (s_max_paths s),
     s_max_sessions := or_default 0 64 (s_max_sessions s),
     s_max_pending := or_default 0 256 (s_max_pending s),
     s_max_pending_source := or_default 0 8 (s_max_pending_source s),
     s_idle_timeout := or_default 0 120000000000 (s_idle_timeout s),
     s_retry_mode := or_default [] ''always'' (s_retry_mode s),
     s_health := apply_health_defaults (s_health s),
     s_congestion := apply_congestion_defaults (s_congestion s),
     s_log_level := or_default [] ''info'' (s_log_level s)\<rparr>"

section \<open>Validation\<close>

text \<open>The loop over the peers, with the names and tunnel addresses seen so far.\<close>

fun validate_peer_list :: "prefix \<Rightarrow> nat \<Rightarrow> string list \<Rightarrow> addr list \<Rightarrow> peer list \<Rightarrow> problem list" where
  "validate_peer_list subnet i ns ips [] = []"
| "validate_peer_list subnet i ns ips (p # ps) =
     (if p_name p = [] then [PeerUnnamed i]
      else add_if (p_name p \<in> set ns) (DuplicateName (p_name p)))
     @ add_if (p_public_key_file p = []) (Required ''public_key_file'')
     @ add_if (p_psk_file p = []) (Required ''psk_file'')
     @ (if \<not> addr_valid (p_tunnel_ip p) \<or> \<not> is4 (p_tunnel_ip p) then [PeerNotIPv4 (p_name p)]
        else add_if (prefix_valid subnet \<and> \<not> prefix_contains subnet (p_tunnel_ip p))
               (PeerOutside (p_name p) (p_tunnel_ip p) subnet)
             @ add_if (p_tunnel_ip p \<in> set ips) (DuplicateIP (p_tunnel_ip p)))
     @ add_if (p_max_sessions p < 1) (AtLeastOne (p_name p))
     @ validate_peer_list subnet (i + 1) (p_name p # ns)
         (if \<not> addr_valid (p_tunnel_ip p) \<or> \<not> is4 (p_tunnel_ip p) then ips
          else p_tunnel_ip p # ips) ps"

definition validate_peers :: "peer list \<Rightarrow> prefix \<Rightarrow> problem list" where
  "validate_peers ps subnet =
     (if ps = [] then [NoPeer] else validate_peer_list subnet 0 [] [] ps)"

definition validate_server :: "server \<Rightarrow> problem list" where
  "validate_server s =
     check_listen_addr ''listen'' (s_listen s)
     @ add_if (s_private_key_file s = []) (Required ''identity.private_key_file'')
     @ check_iface_name (s_tun_name s)
     @ check_tun_mtu ''tun.mtu'' (s_tun_mtu s)
     @ add_if (\<not> prefix_valid (s_tun_subnet s) \<or> \<not> is4 (prefix_addr (s_tun_subnet s)))
         (BadPrefix ''tun.subnet'')
     @ add_if (\<not> prefix_valid (s_tun_address s) \<or> \<not> is4 (prefix_addr (s_tun_address s)))
         (BadPrefix ''tun.address'')
     @ (if prefix_valid (s_tun_subnet s) \<and> prefix_valid (s_tun_address s) then
          add_if (\<not> prefix_contains (s_tun_subnet s) (prefix_addr (s_tun_address s)))
            (AddressOutside (s_tun_address s) (s_tun_subnet s))
          @ add_if (prefix_bits (s_tun_address s) \<noteq> prefix_bits (s_tun_subnet s))
            (BitsDiffer (prefix_bits (s_tun_address s)) (prefix_bits (s_tun_subnet s)))
        else [])
     @ add_if (s_max_paths s < min_paths \<or> s_max_paths s > max_paths)
         (PathsRange ''limits.max_paths_per_session'' (s_max_paths s))
     @ add_if (s_max_sessions s < 1) (AtLeastOne ''limits.max_sessions'')
     @ add_if (s_max_pending s < 1) (AtLeastOne ''limits.max_pending_handshakes'')
     @ add_if (s_max_pending_source s < 1) (AtLeastOne ''limits.max_pending_per_source'')
     @ add_if (s_max_pending_source s > s_max_pending s)
         (SourceAboveHandshakes (s_max_pending_source s) (s_max_pending s))
     @ require_dur ''limits.session_idle_timeout'' (s_idle_timeout s)
     @ add_if (s_retry_mode s \<notin> {''always'', ''auto'', ''never''})
         (BadChoice ''limits.retry_mode'' (s_retry_mode s))
     @ add_if (s_manage_nat s \<and> s_wan_interface s = []) (Required ''network.wan_interface'')
     @ (if s_wan_interface s \<noteq> [] then check_iface_name (s_wan_interface s) else [])
     @ validate_peers (s_peers s) (s_tun_subnet s)
     @ validate_health (s_health s)
     @ validate_congestion (s_congestion s)
     @ check_metrics_addr ''metrics_addr'' (s_metrics_addr s) (s_metrics_public s)"

definition load_server :: "('b \<Rightarrow> (string + server) list) \<Rightarrow> 'b \<Rightarrow> load_problem + server" where
  "load_server yaml data =
     (case decode_strict (yaml data) of
        Inl e \<Rightarrow> Inl e
      | Inr s0 \<Rightarrow>
          (let s = apply_server_defaults s0 in
           case err_of (validate_server s) of Some ps \<Rightarrow> Inl (Invalid ps) | None \<Rightarrow> Inr s))"

section \<open>What a valid server configuration is\<close>

text \<open>An IPv4 address inside a prefix: they agree on the leading bits.\<close>

fun inside_v4 :: "u32 \<Rightarrow> nat \<Rightarrow> addr \<Rightarrow> bool" where
  "inside_v4 net n (V4 w) \<longleftrightarrow> drop_bit (32 - n) w = drop_bit (32 - n) net"
| "inside_v4 net n a \<longleftrightarrow> False"

definition peer_ok :: "u32 \<Rightarrow> nat \<Rightarrow> peer \<Rightarrow> bool" where
  "peer_ok net n p \<longleftrightarrow> p_name p \<noteq> [] \<and> p_public_key_file p \<noteq> [] \<and> p_psk_file p \<noteq> []
     \<and> inside_v4 net n (p_tunnel_ip p) \<and> 1 \<le> p_max_sessions p"

definition server_ok :: "server \<Rightarrow> bool" where
  "server_ok s \<longleftrightarrow> is4 (ap_addr (s_listen s)) \<and> ap_port (s_listen s) \<noteq> 0
     \<and> s_private_key_file s \<noteq> [] \<and> iface_name_ok (s_tun_name s)
     \<and> 1112 \<le> s_tun_mtu s \<and> s_tun_mtu s \<le> 1400
     \<and> (\<exists>net n w. s_tun_subnet s = Prefix (V4 net) n \<and> s_tun_address s = Prefix (V4 w) n
          \<and> inside_v4 net n (V4 w) \<and> s_peers s \<noteq> [] \<and> list_all (peer_ok net n) (s_peers s))
     \<and> distinct (map p_name (s_peers s)) \<and> distinct (map p_tunnel_ip (s_peers s))
     \<and> 1 \<le> s_max_paths s \<and> s_max_paths s \<le> 4 \<and> 1 \<le> s_max_sessions s
     \<and> 1 \<le> s_max_pending_source s \<and> s_max_pending_source s \<le> s_max_pending s
     \<and> 0 < s_idle_timeout s \<and> s_retry_mode s \<in> {''always'', ''auto'', ''never''}
     \<and> (s_manage_nat s \<longrightarrow> s_wan_interface s \<noteq> [])
     \<and> (s_wan_interface s = [] \<or> iface_name_ok (s_wan_interface s))
     \<and> health_ok (s_health s) \<and> congestion_ok (s_congestion s)
     \<and> (ap_addr (s_metrics_addr s) = NoAddr \<or> is_loopback (ap_addr (s_metrics_addr s))
        \<or> s_metrics_public s)"

lemma contains_inside: "prefix_contains (Prefix (V4 net) n) a \<longleftrightarrow> inside_v4 net n a"
  by (cases a) (simp_all add: contains_v4 del: prefix_contains.simps(1))

lemma validate_peer_list_ok:
  "validate_peer_list (Prefix (V4 net) n) i ns ips ps = [] \<longleftrightarrow> list_all (peer_ok net n) ps
     \<and> distinct (map p_name ps) \<and> set (map p_name ps) \<inter> set ns = {}
     \<and> distinct (map p_tunnel_ip ps) \<and> set (map p_tunnel_ip ps) \<inter> set ips = {}"
proof (induction ps arbitrary: i ns ips)
  case (Cons p ps)
  show ?case
    by (cases "p_tunnel_ip p")
      (auto simp: Cons peer_ok_def contains_inside addr_valid_def simp del: inside_v4.simps(1))
qed simp

lemma subnet_ok:
  "(prefix_valid x \<and> is4 (prefix_addr x)) \<longleftrightarrow> (\<exists>w n. x = Prefix (V4 w) n)"
  by (cases x; cases "prefix_addr x") auto

lemma server_valid:
  assumes "exact_rates (s_congestion s)"
  shows "validate_server s = [] \<longleftrightarrow> server_ok s"
proof (cases "(\<exists>w n. s_tun_subnet s = Prefix (V4 w) n) \<and> (\<exists>w n. s_tun_address s = Prefix (V4 w) n)")
  case True
  then obtain net n w m where p: "s_tun_subnet s = Prefix (V4 net) n" "s_tun_address s = Prefix (V4 w) m"
    by blast
  show ?thesis
    unfolding validate_server_def server_ok_def
    by (auto simp: p listen_addr_ok iface_name_ok tun_mtu_ok require_dur_ok health_ok
        congestion_ok [OF assms] metrics_addr_ok min_paths_def max_paths_def not_less not_le
        validate_peers_def validate_peer_list_ok contains_inside
        simp del: prefix_contains.simps inside_v4.simps)
next
  case False
  then have "\<not> (prefix_valid (s_tun_subnet s) \<and> is4 (prefix_addr (s_tun_subnet s)))
      \<or> \<not> (prefix_valid (s_tun_address s) \<and> is4 (prefix_addr (s_tun_address s)))"
    using subnet_ok by blast
  then have "validate_server s \<noteq> []" by (auto simp: validate_server_def)
  moreover have "\<not> server_ok s" using False by (auto simp: server_ok_def)
  ultimately show ?thesis by blast
qed


lemma server_defaults_idem:
  "apply_server_defaults (apply_server_defaults s) = apply_server_defaults s"
  by (simp add: apply_server_defaults_def apply_health_defaults_def apply_congestion_defaults_def
      or_default_def)

text \<open>A server with one peer, for the witnesses.\<close>

definition sample_server :: server where
  "sample_server = \<lparr>
     s_listen = \<lparr>ap_addr = V4 0, ap_port = 4500\<rparr>, s_private_key_file = ''k'',
     s_peers = [\<lparr>p_name = ''laptop'', p_public_key_file = ''pub'', p_psk_file = ''psk'',
       p_tunnel_ip = V4 0x0A080002, p_max_sessions = 2\<rparr>],
     s_tun_name = ''red0'', s_tun_address = Prefix (V4 0x0A080001) 24,
     s_tun_subnet = Prefix (V4 0x0A080000) 24, s_tun_mtu = 1180,
     s_manage_nat = False, s_wan_interface = [],
     s_max_paths = 4, s_max_sessions = 64, s_max_pending = 256, s_max_pending_source = 8,
     s_idle_timeout = 120000000000, s_retry_mode = ''always'',
     s_health = \<lparr>probe_interval = 250000000, dead_after_missed = 3\<rparr>,
     s_congestion = \<lparr>initial_rate_mbps = 2, min_rate_kbps = 128, max_rate_mbps = 100,
       queue_delay_target = 15000000\<rparr>,
     s_metrics_addr = no_addr_port, s_metrics_public = False, s_log_level = ''info''\<rparr>"

lemma sample_server_ok: "server_ok sample_server"
  by (simp add: server_ok_def sample_server_def peer_ok_def iface_name_ok_def health_ok_def
      congestion_ok_def no_addr_port_def)

text \<open>
  C16. Loading a server configuration succeeds exactly when the input is one document and, after
  defaulting, everything that Validate checks holds: an IPv4 listener, a tunnel address inside an
  IPv4 subnet of the same length, at least one peer, peers with distinct names and distinct
  addresses inside the subnet, ordered limits, a known retry mode, a WAN interface when NAT is
  managed, rates in order and a metrics listener that is loopback or explicitly public.
\<close>

theorem load_server_iff:
  assumes "exact_rates (s_congestion s)"
  shows "load_server yaml data = Inr s \<longleftrightarrow>
    server_ok s \<and> apply_server_defaults s = s
    \<and> (\<exists>s0. yaml data = [Inr s0] \<and> s = apply_server_defaults s0)"
proof -
  have "load_server yaml data = Inr s \<longleftrightarrow>
      (\<exists>s0. yaml data = [Inr s0] \<and> s = apply_server_defaults s0 \<and> validate_server s = [])"
    by (auto simp: load_server_def Let_def err_of_def decode_one [symmetric] split: sum.split)
  then show ?thesis using server_valid [OF assms] server_defaults_idem by auto
qed

theorem load_server_iff_witness:
  "load_server (\<lambda>d. [Inr d]) sample_server = Inr sample_server"
proof -
  have "exact_rates (s_congestion sample_server)" by (simp add: sample_server_def exact_rates_def)
  moreover have dflt: "apply_server_defaults sample_server = sample_server"
    by (simp add: apply_server_defaults_def sample_server_def or_default_def
        apply_health_defaults_def apply_congestion_defaults_def)
  ultimately show ?thesis
    using load_server_iff [of sample_server "\<lambda>d. [Inr d]" sample_server] sample_server_ok by auto
qed

text \<open>
  Nothing keeps a peer from being given the server's own tunnel address: such a
  configuration validates.
\<close>

theorem peer_may_take_server_address:
  "let s = sample_server\<lparr>s_peers := [(hd (s_peers sample_server))\<lparr>p_tunnel_ip := V4 0x0A080001\<rparr>]\<rparr>
   in validate_server s = [] \<and> p_tunnel_ip (hd (s_peers s)) = prefix_addr (s_tun_address s)"
proof -
  define s where "s = sample_server\<lparr>s_peers := [(hd (s_peers sample_server))
    \<lparr>p_tunnel_ip := V4 0x0A080001\<rparr>]\<rparr>"
  have "exact_rates (s_congestion s)" by (simp add: s_def sample_server_def exact_rates_def)
  moreover have "server_ok s"
    by (simp add: s_def server_ok_def sample_server_def peer_ok_def iface_name_ok_def health_ok_def
        congestion_ok_def no_addr_port_def)
  ultimately have "validate_server s = []" by (simp add: server_valid)
  then show ?thesis unfolding s_def by (simp add: sample_server_def)
qed

end
