(* ===== verification/Binary64.thy ===== *)
theory Binary64
  imports Prelude "HOL-Library.Log_Nat"
begin

text \<open>
  Go's \<open>float64\<close> for the code that computes rates and queues: the finite values are the rationals
  representable in binary64, every operation is the exact result rounded to nearest, ties to
  even, with gradual underflow and overflow to infinity. The sign of a zero is not kept: a
  division by zero is a division by the positive zero. \<open>Float64\<close> holds the smaller fragment the
  configuration checks need.
\<close>

datatype f64 = Fin rat | PosInf | NegInf | NaN

section \<open>Rounding\<close>

text \<open>The integer nearest to a rational, ties to even.\<close>

definition round_even :: "rat \<Rightarrow> int" where
  "round_even x = (let f = \<lfloor>x\<rfloor>; r = x - of_int f in
     if r < 1 / 2 \<or> (r = 1 / 2 \<and> even f) then f else f + 1)"

text \<open>The binade of a positive rational, and the unit in the last place of its 53 bits.\<close>

definition binade :: "rat \<Rightarrow> int" where
  "binade x = (let (n, d) = quotient_of x; k = bitlen n - bitlen d in
     if 2 powi k \<le> x then k else k - 1)"

definition ulp_exp :: "rat \<Rightarrow> int" where
  "ulp_exp x = max (binade x - 52) (- 1074)"

definition grid :: "rat \<Rightarrow> rat" where
  "grid x = (if x = 0 then 0 else of_int (round_even (x / 2 powi ulp_exp x)) * 2 powi ulp_exp x)"

definition round64 :: "rat \<Rightarrow> f64" where
  "round64 x = (let y = grid \<bar>x\<bar> in
     if 2 ^ 1024 \<le> y then (if 0 < x then PosInf else NegInf)
     else Fin (if x < 0 then - y else y))"

section \<open>Operations\<close>

fun f_add :: "f64 \<Rightarrow> f64 \<Rightarrow> f64" where
  "f_add (Fin a) (Fin b) = round64 (a + b)"
| "f_add NaN _ = NaN"
| "f_add _ NaN = NaN"
| "f_add PosInf NegInf = NaN"
| "f_add NegInf PosInf = NaN"
| "f_add PosInf _ = PosInf"
| "f_add _ PosInf = PosInf"
| "f_add NegInf _ = NegInf"
| "f_add _ NegInf = NegInf"

fun f_neg :: "f64 \<Rightarrow> f64" where
  "f_neg (Fin a) = Fin (- a)"
| "f_neg PosInf = NegInf"
| "f_neg NegInf = PosInf"
| "f_neg NaN = NaN"

definition f_sub :: "f64 \<Rightarrow> f64 \<Rightarrow> f64" where
  "f_sub a b = f_add a (f_neg b)"

text \<open>An infinity with the sign of a rational, no number at zero.\<close>

definition inf_sign :: "rat \<Rightarrow> f64" where
  "inf_sign a = (if 0 < a then PosInf else if a < 0 then NegInf else NaN)"

fun f_mul :: "f64 \<Rightarrow> f64 \<Rightarrow> f64" where
  "f_mul (Fin a) (Fin b) = round64 (a * b)"
| "f_mul NaN _ = NaN"
| "f_mul _ NaN = NaN"
| "f_mul (Fin a) PosInf = inf_sign a"
| "f_mul PosInf (Fin a) = inf_sign a"
| "f_mul (Fin a) NegInf = inf_sign (- a)"
| "f_mul NegInf (Fin a) = inf_sign (- a)"
| "f_mul PosInf PosInf = PosInf"
| "f_mul NegInf NegInf = PosInf"
| "f_mul _ _ = NegInf"

fun f_div :: "f64 \<Rightarrow> f64 \<Rightarrow> f64" where
  "f_div (Fin a) (Fin b) = (if b = 0 then inf_sign a else round64 (a / b))"
| "f_div NaN _ = NaN"
| "f_div _ NaN = NaN"
| "f_div (Fin a) _ = Fin 0"
| "f_div PosInf (Fin b) = (if b < 0 then NegInf else PosInf)"
| "f_div NegInf (Fin b) = (if b < 0 then PosInf else NegInf)"
| "f_div _ _ = NaN"

fun f_less :: "f64 \<Rightarrow> f64 \<Rightarrow> bool" where
  "f_less (Fin a) (Fin b) \<longleftrightarrow> a < b"
| "f_less (Fin a) PosInf \<longleftrightarrow> True"
| "f_less NegInf (Fin b) \<longleftrightarrow> True"
| "f_less NegInf PosInf \<longleftrightarrow> True"
| "f_less _ _ \<longleftrightarrow> False"

text \<open>\<open>float64(n)\<close> and \<open>int64(x)\<close>; out of range the latter is the value amd64 gives.\<close>

definition f_int :: "int \<Rightarrow> f64" where
  "f_int n = round64 (of_int n)"

definition f_trunc :: "f64 \<Rightarrow> int" where
  "f_trunc v =
     (case v of
        Fin x \<Rightarrow> (let t = (if x < 0 then - \<lfloor>- x\<rfloor> else \<lfloor>x\<rfloor>) in if int64 t then t else - (2 ^ 63))
      | _ \<Rightarrow> - (2 ^ 63))"

text \<open>The comparison orders the values; a NaN is below nothing and above nothing.\<close>

instantiation f64 :: order
begin

definition less_f64 :: "f64 \<Rightarrow> f64 \<Rightarrow> bool" where
  "less_f64 a b = f_less a b"

definition less_eq_f64 :: "f64 \<Rightarrow> f64 \<Rightarrow> bool" where
  "less_eq_f64 a b \<longleftrightarrow> a = b \<or> f_less a b"

instance
proof
  fix a b c :: f64
  show "a < b \<longleftrightarrow> a \<le> b \<and> \<not> b \<le> a" by (cases a; cases b) (auto simp: less_f64_def less_eq_f64_def)
  show "a \<le> a" by (simp add: less_eq_f64_def)
  show "a \<le> b \<Longrightarrow> b \<le> c \<Longrightarrow> a \<le> c" by (cases a; cases b; cases c) (auto simp: less_eq_f64_def)
  show "a \<le> b \<Longrightarrow> b \<le> a \<Longrightarrow> a = b" by (cases a; cases b) (auto simp: less_eq_f64_def)
qed

end

lemma f_less_irrefl [simp]: "\<not> f_less a a"
  using less_irrefl [of a] by (simp only: less_f64_def not_False_eq_True)

section \<open>Rounding is monotone and keeps what is representable\<close>

lemma round_even_of_int [simp]: "round_even (of_int n) = n"
  by (simp add: round_even_def)

lemma round_even_bounds: "\<lfloor>x\<rfloor> \<le> round_even x" "round_even x \<le> \<lfloor>x\<rfloor> + 1"
  by (simp_all add: round_even_def Let_def)

lemma round_even_mono:
  assumes "x \<le> y"
  shows "round_even x \<le> round_even y"
proof (cases "\<lfloor>x\<rfloor> = \<lfloor>y\<rfloor>")
  case True
  then show ?thesis using assms by (auto simp: round_even_def Let_def)
next
  case False
  then have "\<lfloor>x\<rfloor> + 1 \<le> \<lfloor>y\<rfloor>" using floor_mono [OF assms] by simp
  then show ?thesis using round_even_bounds [of x] round_even_bounds [of y] by linarith
qed

lemma round_even_le: "x \<le> of_int n \<Longrightarrow> round_even x \<le> n"
  using round_even_mono [of x "of_int n"] by simp

lemma round_even_ge: "of_int n \<le> x \<Longrightarrow> n \<le> round_even x"
  using round_even_mono [of "of_int n" x] by simp

lemma bitlen_rat:
  assumes "0 < n"
  shows "of_int n < (2 :: rat) powi bitlen n" "(2 :: rat) powi (bitlen n - 1) \<le> of_int n"
proof -
  have b: "2 ^ nat (bitlen n - 1) \<le> n" "n < 2 ^ nat (bitlen n)" using bitlen_bounds [OF assms] by simp_all
  have p: "0 < bitlen n" using b(2) assms by (cases "0 < bitlen n") simp_all
  have pw: "(2 :: rat) powi k = of_int (2 ^ nat k)" if "0 \<le> k" for k :: int
    using that by (simp add: power_int_def)
  have "(of_int n :: rat) < of_int (2 ^ nat (bitlen n))" "(of_int (2 ^ nat (bitlen n - 1)) :: rat) \<le> of_int n"
    using b by (simp_all only: of_int_less_iff of_int_le_iff)
  then show "of_int n < (2 :: rat) powi bitlen n" "(2 :: rat) powi (bitlen n - 1) \<le> of_int n"
    using p by (simp_all only: pw)
qed

lemma binade_bounds:
  assumes "0 < x"
  shows "2 powi binade x \<le> x" "x < 2 powi (binade x + 1)"
proof -
  obtain n d where q: "quotient_of x = (n, d)" by (cases "quotient_of x")
  have d: "0 < d" by (rule quotient_of_denom_pos [OF q])
  have x: "x = of_int n / of_int d" by (rule quotient_of_div [OF q])
  have n: "0 < n" using assms d by (simp add: x zero_less_divide_iff)
  define bn bd where "bn = bitlen n" and "bd = bitlen d"
  note nb = bitlen_rat [OF n, folded bn_def]
  note db = bitlen_rat [OF d, folded bd_def]
  define k where "k = bn - bd"
  have up: "x < 2 powi (k + 1)"
  proof -
    have "of_int n < (2 :: rat) powi (k + 1) * 2 powi (bd - 1)"
      using nb(1) by (simp add: k_def flip: power_int_add)
    also have "\<dots> \<le> 2 powi (k + 1) * of_int d" using db(2) by (intro mult_left_mono) simp_all
    finally show ?thesis using d by (simp add: x pos_divide_less_eq)
  qed
  have low: "2 powi (k - 1) \<le> x"
  proof -
    have "2 powi (k - 1) * of_int d \<le> (2 :: rat) powi (k - 1) * 2 powi bd" using db(1) by (intro mult_left_mono) simp_all
    also have "\<dots> \<le> of_int n" using nb(2) by (simp add: k_def flip: power_int_add)
    finally show ?thesis using d by (simp add: x pos_le_divide_eq)
  qed
  show "2 powi binade x \<le> x" "x < 2 powi (binade x + 1)"
    using up low by (auto simp: binade_def q Let_def k_def bn_def bd_def)
qed

lemma powi_le_iff: "(2 :: rat) powi a \<le> 2 powi b \<longleftrightarrow> a \<le> b"
proof (cases "a \<le> b")
  case True
  then show ?thesis by (simp add: power_int_increasing)
next
  case False
  then have "(2 :: rat) powi b < 2 powi a" by (simp add: power_int_strict_increasing)
  with False show ?thesis by simp
qed

lemma powi_less_iff: "(2 :: rat) powi a < 2 powi b \<longleftrightarrow> a < b"
  using powi_le_iff [of b a] by (simp add: not_le [symmetric])

lemma powi_split: "u \<le> m \<Longrightarrow> (2 :: rat) powi m = of_int (2 ^ nat (m - u)) * 2 powi u"
proof -
  assume "u \<le> m"
  then have "(2 :: rat) powi (m - u) = of_int (2 ^ nat (m - u))" by (simp add: power_int_def)
  moreover have "(2 :: rat) powi m = 2 powi (m - u) * 2 powi u" by (simp flip: power_int_add)
  ultimately show ?thesis by simp
qed

lemma grid_zero [simp]: "grid 0 = 0"
  by (simp add: grid_def)

lemma grid_le:
  assumes "0 < x" and "x \<le> of_int k * 2 powi ulp_exp x"
  shows "grid x \<le> of_int k * 2 powi ulp_exp x"
proof -
  have "round_even (x / 2 powi ulp_exp x) \<le> k" using assms(2) by (intro round_even_le) (simp add: pos_divide_le_eq)
  then show ?thesis using assms(1) by (simp add: grid_def)
qed

lemma grid_ge:
  assumes "0 < x" and "of_int k * 2 powi ulp_exp x \<le> x"
  shows "of_int k * 2 powi ulp_exp x \<le> grid x"
proof -
  have "k \<le> round_even (x / 2 powi ulp_exp x)" using assms(2) by (intro round_even_ge) (simp add: pos_le_divide_eq)
  then show ?thesis using assms(1) by (simp add: grid_def)
qed

lemma grid_nonneg: "0 \<le> x \<Longrightarrow> 0 \<le> grid x"
  using grid_ge [of x 0] by (cases "x = 0") simp_all

lemma grid_powi_le: "0 < x \<Longrightarrow> x \<le> 2 powi m \<Longrightarrow> ulp_exp x \<le> m \<Longrightarrow> grid x \<le> 2 powi m"
  using grid_le [of x "2 ^ nat (m - ulp_exp x)"] powi_split [of "ulp_exp x" m] by simp

lemma grid_powi_ge: "2 powi m \<le> x \<Longrightarrow> ulp_exp x \<le> m \<Longrightarrow> 2 powi m \<le> grid x"
proof -
  assume x: "2 powi m \<le> x" and u: "ulp_exp x \<le> m"
  have "0 < x" using x zero_less_power_int [of "2 :: rat" m] by linarith
  then show "2 powi m \<le> grid x"
    using grid_ge [of x "2 ^ nat (m - ulp_exp x)"] powi_split [OF u] x by simp
qed

lemma binade_mono: "0 < x \<Longrightarrow> x \<le> y \<Longrightarrow> binade x \<le> binade y"
proof -
  assume "0 < x" "x \<le> y"
  then have "(2 :: rat) powi binade x < 2 powi (binade y + 1)"
    using binade_bounds(1) [of x] binade_bounds(2) [of y] by linarith
  then show ?thesis by (simp add: powi_less_iff)
qed

lemma grid_mono:
  assumes "0 \<le> x" and "x \<le> y"
  shows "grid x \<le> grid y"
proof (cases "x = 0")
  case True
  then show ?thesis using assms grid_nonneg by simp
next
  case False
  then have x: "0 < x" and y: "0 < y" using assms by simp_all
  have b: "binade x \<le> binade y" by (rule binade_mono [OF x assms(2)])
  show ?thesis
  proof (cases "ulp_exp x = ulp_exp y")
    case True
    then show ?thesis using x y assms(2)
      by (simp add: grid_def round_even_mono divide_right_mono)
  next
    case ne: False
    then have m: "binade x < binade y" "ulp_exp x \<le> binade y" "ulp_exp y \<le> binade y"
      using b by (auto simp: ulp_exp_def max_def split: if_splits)
    have "x \<le> 2 powi binade y"
      using binade_bounds(2) [OF x] m(1) powi_le_iff [of "binade x + 1" "binade y"] by linarith
    then show ?thesis
      using grid_powi_le [OF x _ m(2)] grid_powi_ge [OF binade_bounds(1) [OF y] m(3)] by linarith
  qed
qed

text \<open>A number with 53 significant bits and an exponent in range is kept.\<close>

lemma grid_representable:
  assumes "0 \<le> k" and "k < 2 ^ 53" and "- 1074 \<le> u"
  shows "grid (of_int k * 2 powi u) = of_int k * 2 powi u"
proof (cases "k = 0")
  case False
  let ?x = "(of_int k :: rat) * 2 powi u"
  have x: "0 < ?x" using False assms(1) by simp
  have "(of_int k :: rat) < of_int (2 ^ 53)" using assms(2) by (simp only: of_int_less_iff)
  then have "?x < 2 powi 53 * 2 powi u" by (intro mult_strict_right_mono) simp_all
  also have "(2 :: rat) powi 53 * 2 powi u = 2 powi (53 + u)" by (rule power_int_add [symmetric]) simp
  finally have "(2 :: rat) powi binade ?x < 2 powi (53 + u)"
    using binade_bounds(1) [OF x] by (rule order_le_less_trans [rotated])
  then have u: "ulp_exp ?x \<le> u" using assms(3) by (simp add: powi_less_iff ulp_exp_def)
  have "?x = of_int (k * 2 ^ nat (u - ulp_exp ?x)) * 2 powi ulp_exp ?x"
    using powi_split [OF u] by simp
  then have "?x / 2 powi ulp_exp ?x = of_int (k * 2 ^ nat (u - ulp_exp ?x))"
    by (metis nonzero_mult_div_cancel_right power_int_not_zero zero_neq_numeral)
  then have "round_even (?x / 2 powi ulp_exp ?x) = k * 2 ^ nat (u - ulp_exp ?x)"
    by (simp only: round_even_of_int)
  then have "grid ?x = of_int (k * 2 ^ nat (u - ulp_exp ?x)) * 2 powi ulp_exp ?x"
    using x by (simp add: grid_def)
  then show ?thesis using powi_split [OF u] by simp
qed simp

lemma grid_int: "0 \<le> n \<Longrightarrow> n < 2 ^ 53 \<Longrightarrow> grid (of_int n) = of_int n"
  using grid_representable [of n 0] by simp

lemma grid_powi: "- 1074 \<le> u \<Longrightarrow> grid (2 powi u) = 2 powi u"
  using grid_representable [of 1 u] by simp

lemma grid_pos: "2 powi (- 1074) \<le> x \<Longrightarrow> 0 < grid x"
  using grid_mono [of "2 powi (- 1074)" x] grid_powi [of "- 1074"] zero_less_power_int [of "2 :: rat" "- 1074"]
  by simp

section \<open>Numbers that are not negative\<close>

definition nonneg :: "f64 \<Rightarrow> bool" where
  "nonneg v = (case v of Fin x \<Rightarrow> 0 \<le> x | PosInf \<Rightarrow> True | _ \<Rightarrow> False)"

definition fin_nonneg :: "f64 \<Rightarrow> bool" where
  "fin_nonneg v = (case v of Fin x \<Rightarrow> 0 \<le> x | _ \<Rightarrow> False)"

lemma nonneg_simps [simp]:
  "nonneg (Fin x) \<longleftrightarrow> 0 \<le> x" "nonneg PosInf" "\<not> nonneg NegInf" "\<not> nonneg NaN"
  "fin_nonneg (Fin x) \<longleftrightarrow> 0 \<le> x" "\<not> fin_nonneg PosInf" "\<not> fin_nonneg NegInf" "\<not> fin_nonneg NaN"
  by (simp_all add: nonneg_def fin_nonneg_def)

lemma nonneg_cases:
  assumes "nonneg v"
  obtains x where "v = Fin x" "0 \<le> x" | "v = PosInf"
  using assms by (cases v) auto

lemma fin_nonneg_cases:
  assumes "fin_nonneg v"
  obtains x where "v = Fin x" "0 \<le> x"
  using assms by (cases v) auto

lemma fin_nonneg_nonneg: "fin_nonneg v \<Longrightarrow> nonneg v"
  by (cases v) auto

lemma round64_nonneg: "0 \<le> x \<Longrightarrow> nonneg (round64 x)"
  by (cases "x = 0") (auto simp: round64_def Let_def grid_nonneg)

text \<open>Below \<open>2 ^ 1023\<close> nothing overflows.\<close>

lemma round64_fin:
  assumes "0 \<le> x" and "x \<le> 2 ^ 1023"
  shows "round64 x = Fin (grid x)"
proof -
  have "grid x \<le> grid (2 powi 1023)" using assms by (intro grid_mono) (simp_all add: power_int_def)
  also have "\<dots> = 2 powi 1023" by (rule grid_powi) simp
  also have "\<dots> < (2 :: rat) powi 1024" by (simp only: powi_less_iff)
  also have "(2 :: rat) powi 1024 = 2 ^ 1024" by (simp only: power_int_numeral)
  finally show ?thesis using assms(1) by (simp add: round64_def Let_def not_le)
qed

lemma round64_int: "0 \<le> n \<Longrightarrow> n < 2 ^ 53 \<Longrightarrow> round64 (of_int n) = Fin (of_int n)"
proof -
  assume n: "0 \<le> n" "n < 2 ^ 53"
  have "(of_int n :: rat) \<le> of_int (2 ^ 1023)" using n by (simp only: of_int_le_iff) simp
  then show ?thesis using round64_fin [of "of_int n"] grid_int [OF n] n by simp
qed

lemma f_add_nonneg: "nonneg a \<Longrightarrow> nonneg b \<Longrightarrow> nonneg (f_add a b)"
  by (cases a; cases b) (auto intro: round64_nonneg)

lemma f_mul_nonneg: "fin_nonneg a \<Longrightarrow> fin_nonneg b \<Longrightarrow> nonneg (f_mul a b)"
  by (cases a; cases b) (auto intro: round64_nonneg)

lemma f_div_nonneg: "nonneg a \<Longrightarrow> 0 < b \<Longrightarrow> nonneg (f_div a (Fin b))"
  by (cases a) (auto intro: round64_nonneg)

lemma f_int_fin:
  assumes "0 \<le> n" and "int64 n"
  shows "f_int n = Fin (grid (of_int n))"
proof -
  have "(of_int n :: rat) \<le> of_int (2 ^ 1023)" using assms by (simp only: of_int_le_iff) (simp add: int64_def)
  then show ?thesis using round64_fin [of "of_int n"] assms by (simp add: f_int_def)
qed

lemma f_trunc_nonneg: "fin_nonneg v \<Longrightarrow> f_less v (Fin (2 ^ 63)) \<Longrightarrow> 0 \<le> f_trunc v"
  by (cases v) (auto simp: f_trunc_def Let_def int64_def floor_less_iff)

text \<open>Rounded quotients and products of bounded numbers, and their monotony.\<close>

lemma grid_le_powi: "0 \<le> x \<Longrightarrow> x \<le> 2 powi m \<Longrightarrow> - 1074 \<le> m \<Longrightarrow> grid x \<le> 2 powi m"
  using grid_mono [of x "2 powi m"] grid_powi [of m] by simp

lemma round64_fin_le:
  assumes "0 \<le> x" and "x \<le> 2 powi m" and "m \<le> 1023" and "- 1074 \<le> m"
  obtains y where "round64 x = Fin y" "0 \<le> y" "y \<le> 2 powi m" "y = grid x"
proof -
  have "(2 :: rat) powi m \<le> 2 powi 1023" using assms(3) by (simp only: powi_le_iff)
  also have "(2 :: rat) powi 1023 = 2 ^ 1023" by (simp only: power_int_numeral)
  finally have "x \<le> 2 ^ 1023" using assms(2) by linarith
  with assms show ?thesis using that [of "grid x"] round64_fin grid_nonneg grid_le_powi by simp
qed

lemma round64_le_fin: "0 \<le> x \<Longrightarrow> x \<le> y \<Longrightarrow> round64 y = Fin v \<Longrightarrow> \<exists>u. round64 x = Fin u \<and> 0 \<le> u \<and> u \<le> v"
  using grid_mono [of x y] grid_nonneg [of x] grid_nonneg [of y]
  by (auto simp: round64_def Let_def split: if_splits)

lemma f_trunc_mono: "0 \<le> u \<Longrightarrow> u \<le> v \<Longrightarrow> v < 2 ^ 63 \<Longrightarrow> 0 \<le> f_trunc (Fin u) \<and> f_trunc (Fin u) \<le> f_trunc (Fin v)"
  by (auto simp: f_trunc_def Let_def int64_def floor_less_iff le_floor_iff
      intro: floor_mono order_trans [OF of_int_floor_le])

end
