(* ===== verification/ConfigTypes.thy ===== *)
theory ConfigTypes
  imports ConfigChecks Binary64
begin

text \<open>
  The texts of configuration values, \<open>internal/config/types.go\<close>: durations with their units and
  firewall marks. \<open>UnmarshalYAML\<close> leaves the work to \<open>time.ParseDuration\<close>, which is written out
  here with its 64-bit checks; the other configuration theories keep a duration as its number of
  nanoseconds.
\<close>

section \<open>Durations\<close>

datatype dur_err = InvalidDuration | MissingUnit | UnknownUnit string | NotAString string

definition unit_table :: "(string \<times> nat) list" where
  "unit_table = [(''ns'', 1), (''us'', 1000), ([CHR 0xC2, CHR 0xB5, CHR ''s''], 1000),
     ([CHR 0xCE, CHR 0xBC, CHR ''s''], 1000), (''ms'', 1000000), (''s'', 1000000000),
     (''m'', 60000000000), (''h'', 3600000000000)]"

fun leading_int :: "nat \<Rightarrow> string \<Rightarrow> (nat \<times> string) option" where
  "leading_int x [] = Some (x, [])"
| "leading_int x (c # s) =
     (case digit_val c of
        None \<Rightarrow> Some (x, c # s)
      | Some d \<Rightarrow>
          if x > 2 ^ 63 div 10 then None
          else if x * 10 + d > 2 ^ 63 then None
          else leading_int (x * 10 + d) s)"

text \<open>Digits after the point; those that no longer fit are read and ignored.\<close>

fun leading_fraction :: "nat \<Rightarrow> f64 \<Rightarrow> bool \<Rightarrow> string \<Rightarrow> nat \<times> f64 \<times> string" where
  "leading_fraction x sc over [] = (x, sc, [])"
| "leading_fraction x sc over (c # s) =
     (case digit_val c of
        None \<Rightarrow> (x, sc, c # s)
      | Some d \<Rightarrow>
          if over \<or> x > (2 ^ 63 - 1) div 10 \<or> x * 10 + d > 2 ^ 63 then leading_fraction x sc True s
          else leading_fraction (x * 10 + d) (f_mul sc (Fin 10)) False s)"

definition unit_char :: "char \<Rightarrow> bool" where
  "unit_char c \<longleftrightarrow> c \<noteq> CHR ''.'' \<and> digit_val c = None"

text \<open>One number with its unit: the nanoseconds and the rest of the text.\<close>

definition component :: "string \<Rightarrow> dur_err + nat \<times> string" where
  "component s =
     (if s = [] \<or> unit_char (hd s) then Inl InvalidDuration
      else (case leading_int 0 s of None \<Rightarrow> Inl InvalidDuration | Some (v, s1) \<Rightarrow>
        (let pre = (length s1 \<noteq> length s);
             point = (s1 \<noteq> [] \<and> hd s1 = CHR ''.'');
             (f, sc, s2) = (if point then leading_fraction 0 (Fin 1) False (tl s1) else (0, Fin 1, s1));
             post = (point \<and> length s2 \<noteq> length (tl s1))
         in if \<not> pre \<and> \<not> post then Inl InvalidDuration
            else (let u = takeWhile unit_char s2; s3 = dropWhile unit_char s2 in
              if u = [] then Inl MissingUnit
              else (case map_of unit_table u of None \<Rightarrow> Inl (UnknownUnit u) | Some m \<Rightarrow>
                if v > 2 ^ 63 div m then Inl InvalidDuration
                else (let w = (if f > 0 then v * m + nat (f_trunc (f_mul (f_int (int f)) (f_div (f_int (int m)) sc)))
                               else v * m)
                      in if f > 0 \<and> w > 2 ^ 63 then Inl InvalidDuration else Inr (w, s3)))))))"

lemma leading_int_shorter: "leading_int x s = Some (v, s') \<Longrightarrow> length s' \<le> length s"
  by (induction x s rule: leading_int.induct) (auto split: option.splits if_splits)

lemma leading_fraction_shorter: "leading_fraction x sc over s = (f, sc', s') \<Longrightarrow> length s' \<le> length s"
  by (induction x sc over s rule: leading_fraction.induct) (auto split: option.splits if_splits)

lemma dropWhile_shorter: "takeWhile P xs \<noteq> [] \<Longrightarrow> length (dropWhile P xs) < length xs"
  by (cases xs) (auto simp: le_imp_less_Suc length_dropWhile_le split: if_splits)

lemma component_shorter: "component s = Inr (v, s') \<Longrightarrow> length s' < length s"
proof -
  assume c: "component s = Inr (v, s')"
  then obtain n s1 where 1: "leading_int 0 s = Some (n, s1)"
    by (auto simp: component_def split: if_splits option.splits)
  obtain f sc s2 where 2: "(if s1 \<noteq> [] \<and> hd s1 = CHR ''.'' then leading_fraction 0 (Fin 1) False (tl s1) else (0, Fin 1, s1)) = (f, sc, s2)"
    using prod_cases3 by blast
  have "length s2 \<le> length s1"
    using 2 leading_fraction_shorter [of 0 "Fin 1" False "tl s1" f sc s2] by (auto split: if_splits)
  moreover have "takeWhile unit_char s2 \<noteq> []" "s' = dropWhile unit_char s2"
    using c by (auto simp: component_def 1 2 Let_def split: if_splits option.splits)
  ultimately show ?thesis
    using leading_int_shorter [OF 1] dropWhile_shorter [of unit_char s2] by simp
qed

text \<open>The sum is kept in 64 bits; it wraps before it is compared.\<close>

function components :: "nat \<Rightarrow> string \<Rightarrow> dur_err + nat" where
  "components d s =
     (if s = [] then Inr d
      else (case component s of
              Inl e \<Rightarrow> Inl e
            | Inr (v, s') \<Rightarrow>
                (let d' = (d + v) mod 2 ^ 64 in
                 if d' > 2 ^ 63 then Inl InvalidDuration else components d' s')))"
  by pat_completeness auto
termination
  by (relation "measure (\<lambda>(d, s). length s)") (auto dest: component_shorter)

declare components.simps [simp del]

definition parse_duration :: "string \<Rightarrow> dur_err + int" where
  "parse_duration s =
     (let signed = (s \<noteq> [] \<and> (hd s = CHR ''-'' \<or> hd s = CHR ''+''));
          neg = (s \<noteq> [] \<and> hd s = CHR ''-'');
          t = (if signed then tl s else s)
      in if t = ''0'' then Inr 0
         else if t = [] then Inl InvalidDuration
         else (case components 0 t of
                 Inl e \<Rightarrow> Inl e
               | Inr d \<Rightarrow>
                   if neg then Inr (- int d)
                   else if d > 2 ^ 63 - 1 then Inl InvalidDuration
                   else Inr (int d)))"

text \<open>\<open>UnmarshalYAML\<close>: the node as a string, or the decoder's error.\<close>

definition unmarshal_duration :: "string + string \<Rightarrow> dur_err + int" where
  "unmarshal_duration node = (case node of Inl e \<Rightarrow> Inl (NotAString e) | Inr s \<Rightarrow> parse_duration s)"

section \<open>Marks\<close>

definition fwmark_string :: "fwmark \<Rightarrow> string" where
  "fwmark_string m = (let h = hex (unat m) in ''0x'' @ replicate (8 - length h) (CHR ''0'') @ h)"

section \<open>What a duration text is\<close>

lemma leading_int_itoa: "n \<le> 2 ^ 63 \<Longrightarrow> leading_int 0 (itoa n @ r) = leading_int n r"
proof (induction n arbitrary: r rule: itoa.induct)
  case (1 n)
  show ?case
  proof (cases "n < 10")
    case True
    then show ?thesis by (simp add: itoa.simps [of n] digit_val_char)
  next
    case False
    have "leading_int 0 (itoa (n div 10) @ digit_char (n mod 10) # r) = leading_int (n div 10) (digit_char (n mod 10) # r)"
      using "1.IH" [OF False] "1.prems" by simp
    moreover have "n div 10 \<le> 2 ^ 63 div 10" using "1.prems" by (rule div_le_mono)
    ultimately show ?thesis
      using False "1.prems" by (simp add: itoa.simps [of n] digit_val_char not_less)
  qed
qed

lemma unit_text:
  assumes "(u, m) \<in> set unit_table"
  shows "u \<noteq> []" "list_all unit_char u" "map_of unit_table u = Some m" "0 < m"
  using assms by (auto simp: unit_table_def unit_char_def digit_val_def)

lemma itoa_hd: "\<exists>d < 10. hd (itoa n @ r) = digit_char d"
  using itoa_digits [of n] hd_in_set [of "itoa n"] by (fastforce simp: hd_append)

lemma component_text:
  assumes "(u, m) \<in> set unit_table" and "n * m < 2 ^ 63"
  shows "component (itoa n @ u) = Inr (n * m, [])"
proof -
  note u = unit_text [OF assms(1)]
  obtain d where d: "d < 10" "hd (itoa n @ u) = digit_char d" using itoa_hd by blast
  have "n \<le> n * m" using u(4) by simp
  then have n: "n \<le> 2 ^ 63" using assms(2) by linarith
  obtain c w where cw: "u = c # w" using u(1) by (cases u) auto
  have "leading_int 0 (itoa n @ u) = Some (n, u)"
    using leading_int_itoa [OF n, of u] u(2) by (simp add: cw unit_char_def)
  moreover have "c \<noteq> CHR ''.''" using u(2) by (simp add: cw unit_char_def)
  moreover have "takeWhile unit_char u = u" "dropWhile unit_char u = []"
    using u(2) by (simp_all add: list_all_iff)
  moreover have "\<not> n > 2 ^ 63 div m"
    using assms(2) u(4) by (simp add: not_less less_eq_div_iff_mult_less_eq)
  moreover have "hd u = c" by (simp add: cw)
  moreover have "\<not> unit_char (hd (itoa n @ u))" using d by (simp add: unit_char_def digit_val_char)
  ultimately show ?thesis using u(1,3)
    by (simp add: component_def Let_def takeWhile_eq_all_conv [THEN iffD2] dropWhile_eq_Nil_conv [THEN iffD2])
qed

text \<open>
  A duration written as a whole number and a unit is read back exactly, for every unit and
  every number whose value fits 63 bits.
\<close>

theorem duration_roundtrip:
  assumes "(u, m) \<in> set unit_table" and "n * m < 2 ^ 63"
  shows "unmarshal_duration (Inr (itoa n @ u)) = Inr (int (n * m))"
proof -
  note u = unit_text [OF assms(1)]
  obtain d where d: "d < 10" "hd (itoa n @ u) = digit_char d" using itoa_hd by blast
  have sgn: "hd (itoa n @ u) \<noteq> CHR ''-''" "hd (itoa n @ u) \<noteq> CHR ''+''"
    using digit_val_char [OF d(1)] d(2) by (auto simp: digit_val_def)
  have "itoa n @ u \<noteq> ''0''" using u(1) by (cases "itoa n"; cases u) simp_all
  moreover have "components 0 (itoa n @ u) = Inr (n * m)"
    using component_text [OF assms] assms(2) by (subst components.simps) (simp add: components.simps)
  ultimately show ?thesis
    using sgn assms(2) by (simp add: unmarshal_duration_def parse_duration_def Let_def)
qed

text \<open>
  A number without a unit is refused, as documented, with one exception: zero, which \<open>Validate\<close>
  then takes for an unset field.
\<close>

lemma bare_zero_accepted: "unmarshal_duration (Inr ''0'') = Inr 0"
  by (simp add: unmarshal_duration_def parse_duration_def)

lemma bare_number_refused:
  assumes "0 < n" and "n \<le> 2 ^ 63"
  shows "unmarshal_duration (Inr (itoa n)) = Inl MissingUnit"
proof -
  obtain d where d: "d < 10" "hd (itoa n) = digit_char d" using itoa_hd [of n "[]"] by auto
  have sgn: "hd (itoa n) \<noteq> CHR ''-''" "hd (itoa n) \<noteq> CHR ''+''"
    using digit_val_char [OF d(1)] d(2) by (auto simp: digit_val_def)
  have "itoa n \<noteq> ''0''"
    using assms(1) itoa_inj [of n 0] by (auto simp: itoa.simps [of 0] digit_char_zero)
  moreover have "component (itoa n) = Inl MissingUnit"
    using leading_int_itoa [OF assms(2), of "[]"] d
    by (simp add: component_def Let_def unit_char_def digit_val_char)
  then have "components 0 (itoa n) = Inl MissingUnit" by (subst components.simps) simp
  ultimately show ?thesis using sgn by (simp add: unmarshal_duration_def parse_duration_def Let_def)
qed

theorem duration_roundtrip_witness:
  "unmarshal_duration (Inr (itoa 250 @ ''ms'')) = Inr 250000000"
  using duration_roundtrip [of "''ms''" 1000000 250] by (simp add: unit_table_def)

end
