(* ===== verification/DurationText.thy ===== *)
theory DurationText
  imports ConfigTypes Rfc3339
begin

text \<open>
  \<open>Duration.String\<close> of \<open>internal/config/types.go\<close>. It is \<open>time.Duration.String\<close>, which is written out
  here, and is shown to be read back by \<open>UnmarshalYAML\<close>, fractions and both ends of the range included.
\<close>

section \<open>Printing\<close>

text \<open>
  The loop of \<open>fmtFrac\<close>: from the last digit to the first, zeros are left out until another digit was
  printed. The buffer is filled from its end.
\<close>

fun frac_loop :: "nat \<Rightarrow> nat \<Rightarrow> bool \<Rightarrow> string \<Rightarrow> nat \<times> bool \<times> string" where
  "frac_loop 0 v printed buf = (v, printed, buf)"
| "frac_loop (Suc i) v printed buf =
     (let p = (printed \<or> v mod 10 \<noteq> 0) in
      frac_loop i (v div 10) p (if p then digit_char (v mod 10) # buf else buf))"

definition fmt_frac :: "string \<Rightarrow> nat \<Rightarrow> nat \<Rightarrow> string \<times> nat" where
  "fmt_frac buf v prec =
     (let (v', printed, buf') = frac_loop prec v False buf in (if printed then CHR ''.'' # buf' else buf', v'))"

definition fmt_int :: "string \<Rightarrow> nat \<Rightarrow> string" where
  "fmt_int buf v = itoa v @ buf"

text \<open>Below a second one number in a smaller unit, else hours, minutes and seconds.\<close>

definition small_text :: "nat \<Rightarrow> string" where
  "small_text u =
     (if u = 0 then ''0s''
      else let (uname, prec) =
             (if u < 1000 then (''ns'', 0) else if u < 1000000 then ([CHR 0xC2, CHR 0xB5, CHR ''s''], 3) else (''ms'', 6));
             (buf, v) = fmt_frac uname u prec
           in fmt_int buf v)"

definition large_text :: "nat \<Rightarrow> string" where
  "large_text u =
     (let (buf, secs) = fmt_frac ''s'' u 9; buf = fmt_int buf (secs mod 60); mins = secs div 60 in
      if mins = 0 then buf
      else let buf = fmt_int (CHR ''m'' # buf) (mins mod 60); hours = mins div 60 in
        if hours = 0 then buf else fmt_int (CHR ''h'' # buf) hours)"

definition duration_string :: "int \<Rightarrow> string" where
  "duration_string d =
     (let u = nat \<bar>d\<bar>; buf = (if u < 1000000000 then small_text u else large_text u) in
      if d < 0 then CHR ''-'' # buf else buf)"

section \<open>What is printed\<close>

abbreviation no_zeros :: "string \<Rightarrow> string" where
  "no_zeros s \<equiv> rev (dropWhile ((=) (CHR ''0'')) (rev s))"

definition frac_part :: "nat \<Rightarrow> nat \<Rightarrow> string" where
  "frac_part k v = (if v mod 10 ^ k = 0 then [] else CHR ''.'' # no_zeros (padn k v))"

lemma digit_char_eq_zero: "d < 10 \<Longrightarrow> CHR ''0'' = digit_char d \<longleftrightarrow> d = 0"
  using digit_val_char [of d] digit_val_char [of 0] by (auto simp: digit_char_zero)

lemma frac_loop_printed: "frac_loop k v True buf = (v div 10 ^ k, True, padn k v @ buf)"
  by (induction k arbitrary: v buf) (auto simp: Let_def div_mult2_eq)

lemma mod_ten_Suc: "v mod 10 ^ Suc k = 0 \<longleftrightarrow> v mod 10 = 0 \<and> v div 10 mod 10 ^ k = 0" for v :: nat
  by (auto simp: mod_mult2_eq)

lemma div_ten_Suc: "v div 10 ^ Suc k = v div 10 div 10 ^ k" for v :: nat
  by (simp add: div_mult2_eq)

lemma frac_loop_result:
  "frac_loop k v False buf = (v div 10 ^ k, v mod 10 ^ k \<noteq> 0, (if v mod 10 ^ k = 0 then [] else no_zeros (padn k v)) @ buf)"
proof (induction k arbitrary: v)
  case (Suc k)
  show ?case
  proof (cases "v mod 10 = 0")
    case True
    then show ?thesis using Suc [of "v div 10"]
      by (simp add: Let_def mod_ten_Suc div_ten_Suc digit_char_zero del: power_Suc)
  next
    case False
    then show ?thesis
      by (simp add: Let_def mod_ten_Suc frac_loop_printed digit_char_eq_zero div_ten_Suc del: power_Suc)
  qed
qed simp

lemma fmt_frac_result: "fmt_frac buf v k = (frac_part k v @ buf, v div 10 ^ k)"
  by (simp add: fmt_frac_def frac_loop_result frac_part_def)

lemma dec_val_padn_mod: "dec_val (padn k v) = v mod 10 ^ k"
  by (induction k arbitrary: v) (simp_all add: digit_val_char mod_mult2_eq)

lemma frac_part_cases:
  obtains "v mod 10 ^ k = 0" "frac_part k v = []"
  | t j where "0 < v mod 10 ^ k" "frac_part k v = CHR ''.'' # t" "t \<noteq> []" "list_all is_num t"
      "dec_val t * 10 ^ j = v mod 10 ^ k" "length t + j = k"
proof (cases "v mod 10 ^ k = 0")
  case False
  define t where "t = no_zeros (padn k v)"
  obtain j where j: "padn k v = t @ replicate j (CHR ''0'')" using trimmed t_def by metis
  have len: "length t + j = k" by (metis j length_append length_replicate padn_length)
  have val: "dec_val t * 10 ^ j = v mod 10 ^ k" using dec_val_zeros [of t j] j dec_val_padn_mod [of k v] by simp
  have "list_all is_num t" using padn_digits [of k v] j by simp
  moreover have "t \<noteq> []" using val False by auto
  ultimately show ?thesis using that(2) [of t j] False len val by (simp add: frac_part_def t_def)
qed (simp add: that(1) frac_part_def)

section \<open>Reading it back\<close>

lemma leading_fraction_digits:
  assumes "list_all is_num t" and "r \<noteq> []" "\<not> is_num (hd r)" and "x < 10 ^ i" and "i + length t \<le> 9"
  shows "leading_fraction x (Fin (10 ^ i)) False (t @ r)
    = (foldl (\<lambda>a c. a * 10 + the (digit_val c)) x t, Fin (10 ^ (i + length t)), r)"
  using assms(1,4,5)
proof (induction t arbitrary: x i)
  case Nil
  then show ?case using assms(2,3) by (cases r) auto
next
  case (Cons c t)
  obtain d where d: "digit_val c = Some d" "d < 10" using Cons.prems(1) by (auto simp: digit_val_def Let_def split: if_splits)
  have "x < 10 ^ 9" using Cons.prems(2,3) power_increasing [of i 9 "10 :: nat"] by simp
  then have small: "\<not> x > (2 ^ 63 - 1) div 10" "\<not> x * 10 + d > 2 ^ 63" using d(2) by simp_all
  have "x * 10 + d < 10 ^ Suc i" using Cons.prems(2) d(2) by simp
  moreover have "f_mul (Fin (10 ^ i)) (Fin 10) = Fin (10 ^ Suc i)"
  proof -
    have "(10 :: int) ^ Suc i \<le> 10 ^ 9" using Cons.prems(3) by (intro power_increasing) auto
    then have "round64 (of_int (10 ^ Suc i)) = Fin (of_int (10 ^ Suc i))" by (intro round64_int) simp_all
    then show ?thesis by (simp add: mult.commute)
  qed
  ultimately show ?case using Cons.IH [of "x * 10 + d" "Suc i"] Cons.prems small d by simp
qed

text \<open>The fraction is scaled in floating point; with at most nine digits nothing is rounded.\<close>

lemma f_trunc_int: "0 \<le> n \<Longrightarrow> n < 2 ^ 63 \<Longrightarrow> f_trunc (Fin (of_int n)) = n"
  by (simp add: f_trunc_def Let_def int64_def)

lemma fraction_scaled:
  assumes "0 < f" and "f * 10 ^ j < 10 ^ 9" and "l + j \<le> 9"
  shows "f_trunc (f_mul (f_int (int f)) (f_div (f_int (int (10 ^ (l + j)))) (Fin (10 ^ l)))) = int (f * 10 ^ j)"
proof -
  have pow: "(10 :: int) ^ i \<le> 10 ^ 9" if "i \<le> 9" for i using that by (intro power_increasing) auto
  have int_exact: "f_int n = Fin (of_int n)" if "0 \<le> n" "n \<le> 10 ^ 9" for n
    unfolding f_int_def using that by (intro round64_int) simp_all
  have "f_int (int (10 ^ (l + j))) = Fin (of_int (int (10 ^ (l + j))))" using pow [OF assms(3)] by (intro int_exact) simp_all
  then have "f_div (f_int (int (10 ^ (l + j)))) (Fin (10 ^ l)) = round64 (of_int (10 ^ j))" by (simp add: power_add)
  also have "\<dots> = Fin (10 ^ j)" using int_exact [of "10 ^ j"] pow [of j] assms(3) by (simp add: f_int_def)
  finally have scale: "f_div (f_int (int (10 ^ (l + j)))) (Fin (10 ^ l)) = Fin (10 ^ j)" .
  have "int (f * 10 ^ j) \<le> int (10 ^ 9)" using assms(2) by (simp only: of_nat_le_iff less_imp_le)
  moreover have "int (10 ^ 9) = 10 ^ 9" by simp
  ultimately have small: "0 \<le> int (f * 10 ^ j)" "int (f * 10 ^ j) \<le> 10 ^ 9" by (simp_all only: of_nat_0_le_iff)
  have "f \<le> f * 10 ^ j" by simp
  then have "f \<le> 10 ^ 9" using assms(2) by linarith
  then have "f_int (int f) = Fin (of_nat f)" using int_exact [of "int f"] by simp
  moreover have "(of_nat f * 10 ^ j :: rat) = of_int (int (f * 10 ^ j))" by simp
  ultimately have "f_mul (f_int (int f)) (Fin (10 ^ j)) = f_int (int (f * 10 ^ j))" by (simp only: f_mul.simps f_int_def)
  also have "\<dots> = Fin (of_int (int (f * 10 ^ j)))" using small by (rule int_exact)
  also have "f_trunc \<dots> = int (f * 10 ^ j)" 
  proof (rule f_trunc_int)
    have "(10 :: int) ^ 9 < 2 ^ 63" by simp
    then show "int (f * 10 ^ j) < 2 ^ 63" using small(2) by linarith
  qed (rule small(1))
  finally show ?thesis unfolding scale .
qed

lemma units_then_rest:
  assumes "(u, m) \<in> set unit_table" and "r = [] \<or> is_num (hd r)"
  shows "takeWhile unit_char (u @ r) = u" "dropWhile unit_char (u @ r) = r" "\<not> is_num (hd (u @ r))" "hd (u @ r) \<noteq> CHR ''.''"
proof -
  note u = unit_text [OF assms(1)]
  have "r = [] \<or> \<not> unit_char (hd r)" using assms(2) by (auto simp: unit_char_def)
  then show "takeWhile unit_char (u @ r) = u" "dropWhile unit_char (u @ r) = r"
    using u(2) by (cases r; simp add: takeWhile_append dropWhile_append list_all_iff)+
  show "\<not> is_num (hd (u @ r))" "hd (u @ r) \<noteq> CHR ''.''" using u(1,2) by (cases u; auto simp: unit_char_def)+
qed

lemma component_whole:
  assumes "(u, m) \<in> set unit_table" and "r = [] \<or> is_num (hd r)" and "n * m \<le> 2 ^ 63"
  shows "component (itoa n @ u @ r) = Inr (n * m, r)"
proof -
  note u = unit_text [OF assms(1)] and rest = units_then_rest [OF assms(1,2)]
  obtain d where d: "d < 10" "hd (itoa n @ u @ r) = digit_char d" using itoa_hd by blast
  have "n \<le> n * m" using u(4) by simp
  then have n: "n \<le> 2 ^ 63" using assms(3) by linarith
  have "leading_int 0 (itoa n @ u @ r) = Some (n, u @ r)"
    using leading_int_itoa [OF n, of "u @ r"] rest(3) u(1) by (cases u) auto
  moreover have "\<not> n > 2 ^ 63 div m" using assms(3) u(4) by (simp add: not_less less_eq_div_iff_mult_less_eq)
  moreover have "\<not> unit_char (hd (itoa n @ u @ r))" using d by (simp add: unit_char_def digit_val_char)
  ultimately show ?thesis using u(1,3) rest by (simp add: component_def Let_def)
qed

lemma component_fraction:
  assumes "(u, 10 ^ k) \<in> set unit_table" and "k \<le> 9" and "r = [] \<or> is_num (hd r)" and "n * 10 ^ k + v mod 10 ^ k \<le> 2 ^ 63"
  shows "component (itoa n @ frac_part k v @ u @ r) = Inr (n * 10 ^ k + v mod 10 ^ k, r)"
proof (cases rule: frac_part_cases [of v k])
  case 1
  then show ?thesis using component_whole [OF assms(1,3), of n] assms(4) by simp
next
  case (2 t j)
  note u = unit_text [OF assms(1)] and rest = units_then_rest [OF assms(1,3)]
  let ?s = "itoa n @ CHR ''.'' # t @ u @ r"
  obtain d where d: "d < 10" "hd ?s = digit_char d" using itoa_hd by blast
  have "n \<le> n * 10 ^ k" by simp
  then have n: "n \<le> 2 ^ 63" using assms(4) by linarith
  have "leading_int 0 ?s = Some (n, CHR ''.'' # t @ u @ r)" using leading_int_itoa [OF n] by (simp add: digit_val_def)
  moreover have "leading_fraction 0 (Fin 1) False (t @ u @ r) = (dec_val t, Fin (10 ^ length t), u @ r)"
    using leading_fraction_digits [OF 2(4), of "u @ r" 0 0] rest(3) u(1) 2(6) assms(2) by (simp add: dec_val_def)
  moreover have "\<not> n > 2 ^ 63 div 10 ^ k" using assms(4) by (simp add: not_less less_eq_div_iff_mult_less_eq)
  moreover have "\<not> unit_char (hd ?s)" using d by (simp add: unit_char_def digit_val_char)
  moreover have f: "0 < dec_val t" using 2(1,5) by (cases "dec_val t = 0") auto
  moreover have "f_trunc (f_mul (f_int (int (dec_val t))) (f_div (f_int (int (10 ^ k))) (Fin (10 ^ length t)))) = int (v mod 10 ^ k)"
  proof -
    have "v mod 10 ^ k < 10 ^ k" by simp
    also have "\<dots> \<le> (10 :: nat) ^ 9" using assms(2) by (intro power_increasing) auto
    finally show ?thesis using fraction_scaled [OF f, of j "length t"] 2(5,6) assms(2) by simp
  qed
  ultimately show ?thesis using u(1,3) rest 2(2) assms(4) by (simp add: component_def Let_def)
qed


lemma components_step:
  "\<lbrakk>component s = Inr (v, s'); d + v \<le> 2 ^ 63; s \<noteq> []\<rbrakk> \<Longrightarrow> components d s = components (d + v) s'"
  by (subst components.simps) (simp add: Let_def)

lemma components_end: "\<lbrakk>component s = Inr (v, []); d + v \<le> 2 ^ 63; s \<noteq> []\<rbrakk> \<Longrightarrow> components d s = Inr (d + v)"
  by (simp add: components_step components.simps [of _ "[]"])

lemma itoa_num: "\<exists>d. digit_val (hd (itoa n)) = Some d"
  using itoa_hd [of n "[]"] by (auto simp: digit_val_char)

lemma small_read: "u < 10 ^ 9 \<Longrightarrow> components 0 (small_text u) = Inr u"
proof (cases "u = 0")
  case True
  have "component (itoa 0 @ ''s'' @ []) = Inr (0 * 1000000000, [])" by (rule component_whole) (simp_all add: unit_table_def)
  then show ?thesis using True components_end [of "''0s''" 0 0]
    by (simp add: small_text_def itoa.simps [of 0] digit_char_zero)
next
  case False
  assume u: "u < 10 ^ 9"
  have step: "components 0 (itoa (u div 10 ^ k) @ frac_part k u @ w @ []) = Inr u"
    if "(w, 10 ^ k) \<in> set unit_table" "k \<le> 9" for w k
    using components_end [OF component_fraction [OF that, of "[]" "u div 10 ^ k" u], where d = 0] u by (simp add: div_mult_mod_eq)
  show ?thesis
    using False step [of "''ns''" 0] step [of "[CHR 0xC2, CHR 0xB5, CHR ''s'']" 3] step [of "''ms''" 6]
    by (simp add: small_text_def fmt_int_def fmt_frac_result unit_table_def)
qed

lemma time_split:
  "\<lbrakk>u = s * 10 ^ 9 + f; s = a * 60 + b; a = h * 60 + m\<rbrakk>
    \<Longrightarrow> u = h * 3600000000000 + (m * 60000000000 + (b * 10 ^ 9 + f))" for u s f a b h m :: nat
  by simp

lemma large_read:
  assumes "u \<le> 2 ^ 63"
  shows "components 0 (large_text u) = Inr u"
proof -
  define s where "s = u div 10 ^ 9"
  define low where "low = s mod 60 * 10 ^ 9 + u mod 10 ^ 9"
  define st where "st = itoa (s mod 60) @ frac_part 9 u @ ''s'' @ []"
  define mt where "mt = itoa (s div 60 mod 60) @ ''m'' @ st"
  have u: "u = s * 10 ^ 9 + u mod 10 ^ 9" by (simp add: s_def)
  have s: "s = s div 60 * 60 + s mod 60" "s div 60 = s div 60 div 60 * 60 + s div 60 mod 60" by simp_all
  have all: "u = s div 60 div 60 * 3600000000000 + (s div 60 mod 60 * 60000000000 + low)"
    unfolding low_def by (rule time_split [OF u s])
  have sc: "components d st = Inr (d + low)" if "d + low \<le> 2 ^ 63" for d
    unfolding st_def low_def using that
    by (intro components_end component_fraction) (simp_all add: unit_table_def low_def)
  have mc: "components d mt = Inr (d + (s div 60 mod 60 * 60000000000 + low))"
    if "d + (s div 60 mod 60 * 60000000000 + low) \<le> 2 ^ 63" for d
  proof -
    have "component mt = Inr (s div 60 mod 60 * 60000000000, st)" unfolding mt_def using that
      by (intro component_whole) (simp_all add: unit_table_def st_def itoa_num)
    then show ?thesis using components_step [of mt _ st d] sc that by (simp add: mt_def add.assoc)
  qed
  have hc: "components 0 (itoa (s div 60 div 60) @ ''h'' @ mt) = Inr u"
  proof -
    have "component (itoa (s div 60 div 60) @ ''h'' @ mt) = Inr (s div 60 div 60 * 3600000000000, mt)"
      using assms all by (intro component_whole) (simp_all add: unit_table_def mt_def itoa_num)
    then show ?thesis using components_step [of _ _ mt 0] mc assms all by simp
  qed
  have shape: "large_text u = (if s div 60 = 0 then st else if s div 60 div 60 = 0 then mt else itoa (s div 60 div 60) @ ''h'' @ mt)"
    by (simp add: large_text_def fmt_frac_result fmt_int_def Let_def s_def st_def mt_def)
  show ?thesis unfolding shape using sc [of 0] mc [of 0] hc all assms by simp
qed

lemma text_shape:
  obtains n r where "(if u < 1000000000 then small_text u else large_text u) = itoa n @ r" "r \<noteq> []"
proof (cases "u = 0")
  case True
  then show ?thesis using that [of 0 "''s''"] by (simp add: small_text_def itoa.simps [of 0] digit_char_zero)
next
  case False
  have "\<exists>n r. small_text u = itoa n @ r \<and> r \<noteq> []"
    unfolding small_text_def fmt_frac_result fmt_int_def Let_def
    using False by (cases "u < 1000"; cases "u < 1000000") auto
  moreover have "\<exists>n r. large_text u = itoa n @ r \<and> r \<noteq> []"
    unfolding large_text_def fmt_frac_result fmt_int_def Let_def by (auto split: if_splits)
  ultimately show ?thesis using that by (cases "u < 1000000000") (auto simp del: append_assoc)
qed

text \<open>
  C19. Every duration that is printed is read back: the text that \<open>String\<close> gives for any 64-bit number of
  nanoseconds, negative ones, fractions of a second and both ends of the range included, is parsed by
  \<open>UnmarshalYAML\<close> to the same number, although the fraction goes through floating point.
\<close>

theorem duration_string_parses:
  assumes "int64 d"
  shows "unmarshal_duration (Inr (duration_string d)) = Inr d"
proof -
  let ?u = "nat \<bar>d\<bar>"
  define t where "t = (if ?u < 1000000000 then small_text ?u else large_text ?u)"
  have u: "?u \<le> 2 ^ 63" using assms by (simp add: int64_def nat_le_iff abs_le_iff)
  have read: "components 0 t = Inr ?u" using small_read [of ?u] large_read [OF u] by (simp add: t_def)
  obtain n r where t: "t = itoa n @ r" "r \<noteq> []" unfolding t_def by (rule text_shape)
  then have "is_num (hd t)" using itoa_num [of n] by simp
  then have sgn: "hd t \<noteq> CHR ''-''" "hd t \<noteq> CHR ''+''" by (auto simp: digit_val_def)
  have "t \<noteq> []" "t \<noteq> ''0''" using t by (cases "itoa n"; cases r; simp)+
  note hd = this sgn
  have shape: "duration_string d = (if d < 0 then CHR ''-'' # t else t)" by (simp add: duration_string_def Let_def t_def)
  show ?thesis
  proof (cases "d < 0")
    case True
    then show ?thesis using read hd by (simp add: shape unmarshal_duration_def parse_duration_def)
  next
    case False
    then show ?thesis using read hd assms by (simp add: shape unmarshal_duration_def parse_duration_def int64_def)
  qed
qed

theorem duration_string_parses_witness:
  "unmarshal_duration (Inr (duration_string (- 9223372036854775808))) = Inr (- 9223372036854775808)"
  by (rule duration_string_parses) (simp add: int64_def)

text \<open>The texts for a few durations.\<close>

lemma frac_loop_numeral:
  "frac_loop (numeral i) v p buf =
     (let q = (p \<or> v mod 10 \<noteq> 0) in frac_loop (pred_numeral i) (v div 10) q (if q then digit_char (v mod 10) # buf else buf))"
  by (simp only: numeral_eq_Suc [of i] frac_loop.simps)

lemma one_and_five: "char_of (49 :: nat) = CHR ''1''" "char_of (53 :: nat) = CHR ''5''"
  by code_simp+

lemma duration_string_examples:
  "duration_string 0 = ''0s''" "duration_string 1500000 = ''1.5ms''" "duration_string 3661000000000 = ''1h1m1s''"
  "duration_string (- 1100) = CHR ''-'' # ''1.1'' @ [CHR 0xC2, CHR 0xB5, CHR ''s'']"
  by (simp_all add: duration_string_def small_text_def large_text_def fmt_frac_def fmt_int_def frac_loop_numeral
      Let_def itoa.simps digit_char_def one_and_five)

end
