(* ===== verification/PlainPacket.thy ===== *)
theory PlainPacket
  imports Prelude
begin

text \<open>
  The packets of the integration tests, \<open>test/integration/tun_plaintext_linux.go\<close>: the UDP packet that is
  written to the TUN device, its header checksum, and the check of what is read from it. A packet is a
  list of bytes.
\<close>

type_synonym u16 = "16 word"

section \<open>The checksum\<close>

definition be16 :: "byte \<Rightarrow> byte \<Rightarrow> u16" where
  "be16 a b = push_bit 8 (ucast a) OR ucast b"

definition high_byte :: "u16 \<Rightarrow> byte" where "high_byte v = ucast (drop_bit 8 v)"
definition low_byte :: "u16 \<Rightarrow> byte" where "low_byte v = ucast v"

fun sum_words :: "byte list \<Rightarrow> u32 \<Rightarrow> u32" where
  "sum_words (a # b # bs) s = sum_words bs (s + ucast (be16 a b))"
| "sum_words _ s = s"

function fold_carry :: "u32 \<Rightarrow> u32" where
  "fold_carry s = (if drop_bit 16 s \<noteq> 0 then fold_carry ((s AND 0xFFFF) + drop_bit 16 s) else s)"
  by pat_completeness auto

lemma unat_high: "unat (drop_bit 16 s) = unat s div 65536" for s :: u32
  by (simp add: unat_drop_bit_eq drop_bit_eq_div [where 'a = nat])

lemma unat_low: "unat (s AND 0xFFFF) = unat s mod 65536" for s :: u32
proof -
  have "s AND 0xFFFF = take_bit 16 s" by (simp add: take_bit_eq_mask mask_eq_exp_minus_1)
  then show ?thesis by (simp add: unsigned_take_bit_eq take_bit_eq_mod [where 'a = nat])
qed

lemma high_zero: "drop_bit 16 s = 0 \<longleftrightarrow> unat s < 65536" for s :: u32
proof -
  have "drop_bit 16 s = 0 \<longleftrightarrow> unat (drop_bit 16 s) = 0" by (simp only: unat_eq_0)
  also have "\<dots> \<longleftrightarrow> unat s < 65536" unfolding unat_high by (simp only: div_eq_0_iff) simp
  finally show ?thesis .
qed

lemma carry_unat: "unat ((s AND 0xFFFF) + drop_bit 16 s) = unat s mod 65536 + unat s div 65536" for s :: u32
proof -
  have "unat s < 4294967296" using unsigned_less [of s] by simp
  then have "unat s mod 65536 + unat s div 65536 < 4294967296" by linarith
  then show ?thesis by (simp add: unat_word_ariths unat_low unat_high)
qed

lemma carry_smaller: "drop_bit 16 s \<noteq> 0 \<Longrightarrow> unat s mod 65536 + unat s div 65536 < unat s" for s :: u32
  unfolding high_zero using div_mult_mod_eq [of "unat s" 65536] by linarith

termination fold_carry
  by (relation "measure unat") (simp_all only: in_measure carry_unat carry_smaller wf_measure simp_thms)

declare fold_carry.simps [simp del]

definition ip_checksum :: "byte list \<Rightarrow> u16" where
  "ip_checksum hdr = NOT (ucast (fold_carry (sum_words hdr 0)))"

section \<open>Building and checking\<close>

text \<open>
  \<open>copy(p[i:j], xs)\<close> copies what fits; \<open>PutUint16\<close> stores two bytes. An address is the bytes
  of its \<open>AsSlice\<close>.
\<close>

definition copy_at :: "nat \<Rightarrow> nat \<Rightarrow> byte list \<Rightarrow> byte list \<Rightarrow> byte list" where
  "copy_at i j xs p = (let ys = take (j - i) xs in take i p @ ys @ drop (i + length ys) p)"

definition put16 :: "nat \<Rightarrow> u16 \<Rightarrow> byte list \<Rightarrow> byte list" where
  "put16 i v p = p[i := high_byte v, i + 1 := low_byte v]"

definition ipv4_header :: "byte list \<Rightarrow> byte list \<Rightarrow> nat \<Rightarrow> byte list \<Rightarrow> byte list" where
  "ipv4_header src dst len p =
     (let p1 = (put16 2 (of_nat len) (p[0 := 0x45]))[8 := 64, 9 := 17];
          p2 = copy_at 16 20 dst (copy_at 12 16 src p1)
      in put16 10 (ip_checksum (take 20 p2)) p2)"

definition build_ipv4_udp :: "byte list \<Rightarrow> byte list \<Rightarrow> u16 \<Rightarrow> u16 \<Rightarrow> byte list \<Rightarrow> byte list" where
  "build_ipv4_udp src dst sport dport payload =
     (let udp_len = 8 + length payload; len = 20 + udp_len;
          p1 = ipv4_header src dst len (replicate len 0);
          p2 = put16 24 (of_nat udp_len) (put16 22 dport (put16 20 sport p1))
      in copy_at 28 len payload p2)"

datatype packet_err =
    ShortPacket nat | NotIPv4 byte | BadIHL nat | WrongTotal nat nat | NotUDP byte
  | WrongDst "byte list" "byte list" | WrongPort u16 u16

text \<open>
  The packet is a slice: its bytes and the bytes of the backing array after it, up to its capacity. The
  last slice expression may reach into those.
\<close>

definition check_ipv4_udp :: "byte list \<Rightarrow> byte list \<Rightarrow> byte list \<Rightarrow> u16 \<Rightarrow> packet_err option may_panic" where
  "check_ipv4_udp pkt spare want_dst want_port =
     (if length pkt < 28 then Inr (Some (ShortPacket (length pkt)))
      else if drop_bit 4 (pkt ! 0) \<noteq> 4 then Inr (Some (NotIPv4 (drop_bit 4 (pkt ! 0))))
      else let ihl = unat (pkt ! 0 AND 0x0F) * 4 in
        if ihl < 20 \<or> length pkt < ihl then Inr (Some (BadIHL ihl))
        else let len = unat (be16 (pkt ! 2) (pkt ! 3)) in
          if len \<noteq> length pkt then Inr (Some (WrongTotal len (length pkt)))
          else if pkt ! 9 \<noteq> 17 then Inr (Some (NotUDP (pkt ! 9)))
          else let dst = take 4 (drop 16 pkt) in
            if dst \<noteq> want_dst then Inr (Some (WrongDst dst want_dst))
            else if length (pkt @ spare) < ihl + 4 then Inl (Panic ''slice bounds out of range'')
            else let port = be16 ((pkt @ spare) ! (ihl + 2)) ((pkt @ spare) ! (ihl + 3)) in
              if port \<noteq> want_port then Inr (Some (WrongPort port want_port)) else Inr None)"

section \<open>Checksum of a header\<close>

lemma be16_bytes [simp]: "be16 (high_byte v) (low_byte v) = v"
  by (rule bit_word_eqI) (auto simp: be16_def high_byte_def low_byte_def bit_simps not_less)

lemma mod_65535_carry: "(n mod 65536 + n div 65536) mod 65535 = n mod 65535" for n :: nat
proof -
  have "n = n mod 65536 + n div 65536 + 65535 * (n div 65536)"
    using div_mult_mod_eq [of n 65536] by linarith
  then show ?thesis by (metis mod_mult_self2)
qed

lemma fold_carry_unat:
  "unat (fold_carry s) < 65536 \<and> unat (fold_carry s) mod 65535 = unat s mod 65535 \<and> (s \<noteq> 0 \<longrightarrow> fold_carry s \<noteq> 0)"
proof (induction s rule: fold_carry.induct)
  case (1 s)
  let ?t = "(s AND 0xFFFF) + drop_bit 16 s"
  show ?case
  proof (cases "drop_bit 16 s = 0")
    case True
    then show ?thesis using high_zero [of s] by (simp add: fold_carry.simps [of s])
  next
    case False
    have "unat ?t \<noteq> 0" using False unfolding carry_unat high_zero by linarith
    then have "?t \<noteq> 0" by (metis unat_0)
    with "1.IH" [OF False] False show ?thesis
      by (simp add: fold_carry.simps [of s] carry_unat mod_65535_carry)
  qed
qed


section \<open>The built packet\<close>

lemma length_put16 [simp]: "length (put16 i v p) = length p"
  by (simp add: put16_def)

lemma length_copy_at: "\<lbrakk>i \<le> j; j \<le> length p\<rbrakk> \<Longrightarrow> length (copy_at i j xs p) = length p"
  by (simp add: copy_at_def Let_def)

lemma twenty: "replicate (20 + n) x = x # x # x # x # x # x # x # x # x # x # x # x # x # x # x # x # x # x # x # x # replicate n x"
  by (simp add: numeral_eq_Suc)

lemma eight: "replicate (8 + n) x = x # x # x # x # x # x # x # x # replicate n x"
  by (simp add: numeral_eq_Suc)

definition header_bytes :: "byte list \<Rightarrow> byte list \<Rightarrow> nat \<Rightarrow> u16 \<Rightarrow> byte list" where
  "header_bytes src dst len c =
     [0x45, 0, high_byte (of_nat len), low_byte (of_nat len), 0, 0, 0, 0, 64, 17, high_byte c, low_byte c] @ src @ dst"

lemma four: "length xs = 4 \<Longrightarrow> \<exists>a b c d. xs = [a, b, c, d]"
  by (auto simp: numeral_eq_Suc length_Suc_conv)

lemma ipv4_header_bytes:
  assumes "length src = 4" "length dst = 4"
  shows "ipv4_header src dst len (replicate (20 + n) 0)
         = header_bytes src dst len (ip_checksum (header_bytes src dst len 0)) @ replicate n 0"
proof -
  obtain a b c d where src: "src = [a, b, c, d]" using four [OF assms(1)] by blast
  obtain e f g h where dst: "dst = [e, f, g, h]" using four [OF assms(2)] by blast
  show ?thesis unfolding src dst
    by (simp add: twenty ipv4_header_def header_bytes_def put16_def copy_at_def Let_def high_byte_def low_byte_def)
qed


lemma build_bytes:
  assumes "length src = 4" "length dst = 4"
  shows "build_ipv4_udp src dst sport dport payload =
    header_bytes src dst (28 + length payload) (ip_checksum (header_bytes src dst (28 + length payload) 0))
    @ [high_byte sport, low_byte sport, high_byte dport, low_byte dport,
       high_byte (of_nat (8 + length payload)), low_byte (of_nat (8 + length payload)), 0, 0] @ payload"
proof -
  obtain a b c d where src: "src = [a, b, c, d]" using four [OF assms(1)] by blast
  obtain e f g h where dst: "dst = [e, f, g, h]" using four [OF assms(2)] by blast
  have len: "20 + (8 + length payload) = 28 + length payload" by simp
  show ?thesis unfolding build_ipv4_udp_def Let_def ipv4_header_bytes [OF assms] len eight
    by (simp add: src dst header_bytes_def put16_def copy_at_def Let_def)
qed

theorem built_packet_checked:
  assumes "length src = 4" "length dst = 4"
  shows "check_ipv4_udp (build_ipv4_udp src dst sport dport payload) spare dst dport =
    Inr (let len = 28 + length payload in
         if len < 65536 then None else Some (WrongTotal (len mod 65536) len))"
proof -
  obtain a b c d where src: "src = [a, b, c, d]" using four [OF assms(1)] by blast
  obtain e f g h where dst: "dst = [e, f, g, h]" using four [OF assms(2)] by blast
  have u: "unat (28 + word_of_nat (length payload) :: u16) = (28 + length payload) mod 65536"
    using unat_of_nat [of "28 + length payload", where 'a = 16] by simp
  have short: "(28 + length payload) mod 65536 < 28 + length payload" if "\<not> length payload < 65508"
    using that mod_less_divisor [of 65536 "28 + length payload"] by linarith
  show ?thesis
  proof (cases "length payload < 65508")
    case True
    then show ?thesis unfolding build_bytes [OF assms] by (simp add: src dst header_bytes_def check_ipv4_udp_def Let_def u)
  next
    case False
    with short have "(28 + length payload) mod 65536 < 28 + length payload" by blast
    with False show ?thesis unfolding build_bytes [OF assms] by (simp add: src dst header_bytes_def check_ipv4_udp_def Let_def u)
  qed
qed

section \<open>The checksum of a built header\<close>

fun words_sum :: "byte list \<Rightarrow> nat" where
  "words_sum (a # b # bs) = unat (be16 a b) + words_sum bs"
| "words_sum _ = 0"

lemma words_sum_le: "2 * words_sum bs \<le> 65535 * length bs"
proof (induction bs rule: words_sum.induct)
  case (1 a b bs)
  have "unat (be16 a b) < 65536" using unsigned_less [of "be16 a b"] by simp
  with 1 show ?case by simp
qed auto

lemma unat_ucast_16: "unat (ucast w :: u32) = unat w" for w :: u16
  using unsigned_less [of w, where 'a = nat] by (simp add: unsigned_ucast_eq take_bit_nat_eq_self)

lemma unat_not_16: "unat (NOT w) = 65535 - unat w" for w :: u16
proof -
  have "NOT w = - 1 - w" by (simp add: not_eq_complement)
  then show ?thesis by (simp add: unat_sub unsigned_minus_1_eq_mask mask_eq_exp_minus_1)
qed

lemma sum_words_unat:
  "unat s + words_sum bs < 4294967296 \<Longrightarrow> unat (sum_words bs s) = unat s + words_sum bs"
proof (induction bs arbitrary: s rule: words_sum.induct)
  case (1 a b bs)
  have u: "unat (ucast (be16 a b) :: u32) = unat (be16 a b)" 
    by (rule unat_ucast_16)
  then have "unat (s + ucast (be16 a b)) = unat s + unat (be16 a b)"
    using "1.prems" by (simp add: unat_word_ariths)
  with 1 show ?case by simp
qed auto

lemma unat_ip_checksum: "unat (ip_checksum hdr) = 65535 - unat (fold_carry (sum_words hdr 0))"
proof -
  let ?f = "fold_carry (sum_words hdr 0)"
  have "unat (ucast ?f :: u16) = unat ?f"
    using fold_carry_unat [of "sum_words hdr 0"] by (simp add: unsigned_ucast_eq take_bit_nat_eq_self)
  then show ?thesis by (simp add: ip_checksum_def unat_not_16)
qed

lemma folds_to_ones:
  assumes "unat s mod 65535 = 0" "s \<noteq> 0" shows "fold_carry s = 0xFFFF"
proof -
  from fold_carry_unat [of s] assms have *: "unat (fold_carry s) < 65536" "unat (fold_carry s) mod 65535 = 0" "unat (fold_carry s) \<noteq> 0"
    by (simp_all add: unat_eq_0)
  then have "unat (fold_carry s) = 65535" by (cases "unat (fold_carry s) < 65535") auto
  then show ?thesis by (simp add: word_unat_eq_iff)
qed

lemma words_sum_header:
  assumes "length src = 4" "length dst = 4"
  shows "words_sum (header_bytes src dst len c) = words_sum (header_bytes src dst len 0) + unat c"
proof -
  obtain a b c' d where src: "src = [a, b, c', d]" using four [OF assms(1)] by blast
  obtain e f g h where dst: "dst = [e, f, g, h]" using four [OF assms(2)] by blast
  show ?thesis unfolding src dst header_bytes_def by simp
qed

theorem built_header_sums_to_ones:
  assumes "length src = 4" "length dst = 4"
  shows "fold_carry (sum_words (take 20 (build_ipv4_udp src dst sport dport payload)) 0) = 0xFFFF"
proof -
  let ?len = "28 + length payload"
  let ?h = "header_bytes src dst ?len"
  let ?s = "sum_words (?h 0) 0"
  have l: "length (?h c) = 20" for c by (simp add: header_bytes_def assms)
  have small: "unat (sum_words (?h c) 0) = words_sum (?h c)" for c
    using words_sum_le [of "?h c"] l [of c] by (simp add: sum_words_unat)
  have built: "take 20 (build_ipv4_udp src dst sport dport payload) = ?h (ip_checksum (?h 0))"
    unfolding build_bytes [OF assms] using l by simp
  define f where "f = unat (fold_carry ?s)"
  have f: "f < 65536" "f mod 65535 = words_sum (?h 0) mod 65535"
    using fold_carry_unat [of ?s] by (simp_all add: f_def small)
  have "words_sum (?h (ip_checksum (?h 0))) = words_sum (?h 0) + (65535 - f)"
    unfolding words_sum_header [OF assms, of _ "ip_checksum _"] unat_ip_checksum f_def ..
  moreover have "(words_sum (?h 0) + (65535 - f)) mod 65535 = 0"
  proof -
    have "(words_sum (?h 0) + (65535 - f)) mod 65535 = (f + (65535 - f)) mod 65535"
      using f(2) by (metis mod_add_left_eq)
    then show ?thesis using f(1) by simp
  qed
  moreover have "words_sum (?h c) \<noteq> 0" for c
    by (simp add: header_bytes_def be16_def)
  ultimately show ?thesis
    unfolding built by (intro folds_to_ones) (metis small, metis small unat_0)
qed

section \<open>When the check panics\<close>

lemma check_panics_only_on_long_header:
  assumes "check_ipv4_udp pkt spare dst port = Inl e"
  shows "28 \<le> length pkt \<and> unat (pkt ! 0 AND 0x0F) * 4 \<le> length pkt
    \<and> length pkt + length spare < unat (pkt ! 0 AND 0x0F) * 4 + 4"
  using assms by (auto simp: check_ipv4_udp_def Let_def split: if_splits)

text \<open>A packet that is all header: 28 bytes, seven words of them header.\<close>

lemma check_panics_on_bare_header:
  "check_ipv4_udp [0x47, 0, 0, 28, 0, 0, 0, 0, 64, 17, 0, 0, 10, 80, 0, 1, 10, 80, 0, 9, 0, 0, 0, 0, 0, 0, 0, 0]
     [] [10, 80, 0, 9] 7 = Inl (Panic ''slice bounds out of range'')"
  by (simp add: check_ipv4_udp_def Let_def be16_def)

end
