(* ===== verification/Tun.thy ===== *)
theory Tun
  imports PacketBuf Netip
begin

text \<open>
  The TUN device, \<open>internal/tun\<close>: configuration checks (\<open>tun.go\<close>), opening, packet input and
  output, live MTU changes and closing (\<open>tun_linux.go\<close>), and the pooled helpers (\<open>pooled.go\<close>).
  System calls and netlink requests are inputs: what each of them answers is an argument, and
  the theorems quantify over the answers. The atomic fields of the device are plain fields, an
  operation is one step.
\<close>

definition min_mtu :: int where "min_mtu = 1112"
definition max_mtu :: int where "max_mtu = 1400"
definition default_mtu :: int where "default_mtu = 1180"
definition tun_name_max :: nat where "tun_name_max = 15"

datatype tun_err =
    ErrUnsupported
  | ErrClosed
  | ErrPacketTooLarge int int
  | ErrShortWrite int int
  | ErrMTURange int
  | ErrMTUIncrease int int
  | ErrBufferTooSmall int int
  | NameEmpty | NameTooLong string | NameBadChar string
  | BadAddress prefix | NegativeMaxPacket
  | EmptyPacket
  | CtxErr string
  | IoErr string
  | SetMtuErr int string
  | OpenStepErr string string

record tun_config =
  cfg_name :: string
  cfg_address :: prefix
  cfg_mtu :: int
  cfg_max_packet :: int

definition config_max_packet :: "tun_config \<Rightarrow> int" where
  "config_max_packet c = (if cfg_max_packet c > 0 then cfg_max_packet c else cfg_mtu c)"

definition validate_name :: "string \<Rightarrow> tun_err option" where
  "validate_name name =
     (if name = [] then Some NameEmpty
      else if length name > tun_name_max then Some (NameTooLong name)
      else if contains_any name [CHR ''/'', CHR '' '', CHR 0x09, CHR 0x0A, CHR 0x0D, CHR 0x00]
          \<or> name = ''.'' \<or> name = ''..'' then Some (NameBadChar name)
      else None)"

definition validate_config :: "tun_config \<Rightarrow> tun_err option" where
  "validate_config c =
     or_err (if cfg_name c \<noteq> [] then validate_name (cfg_name c) else None)
    (or_err (err_if (cfg_mtu c < min_mtu \<or> cfg_mtu c > max_mtu) (ErrMTURange (cfg_mtu c)))
    (or_err (err_if (\<not> prefix_valid (cfg_address c) \<or> \<not> is4 (prefix_addr (cfg_address c)))
               (BadAddress (cfg_address c)))
            (err_if (cfg_max_packet c < 0) NegativeMaxPacket)))"

definition guard_mtu :: "int \<Rightarrow> int \<Rightarrow> bool \<Rightarrow> tun_err + int" where
  "guard_mtu current target authenticated =
     (if target < min_mtu \<or> target > max_mtu then Inl (ErrMTURange target)
      else if target > current \<and> \<not> authenticated then Inl (ErrMTUIncrease current target)
      else Inr target)"

record stats =
  rx_packets :: u64
  rx_bytes :: u64
  rx_errors :: u64
  rx_oversize :: u64
  tx_packets :: u64
  tx_bytes :: u64
  tx_errors :: u64
  tx_short :: u64

definition no_stats :: stats where
  "no_stats = \<lparr>rx_packets = 0, rx_bytes = 0, rx_errors = 0, rx_oversize = 0,
     tx_packets = 0, tx_bytes = 0, tx_errors = 0, tx_short = 0\<rparr>"

text \<open>The device; \<open>fd_closes\<close> counts the closings of its descriptor.\<close>

record device =
  dev_name :: string
  dev_index :: int
  dev_addr :: prefix
  dev_mtu :: int
  dev_max_packet :: int
  dev_closed :: bool
  close_once :: bool
  close_err :: "string list"
  fd_closes :: nat
  dev_stats :: stats

section \<open>Packets\<close>

text \<open>What the descriptor answers: closed under the caller, some other failure, or a packet.\<close>

datatype io_fail = FdClosed | FdFailed string

datatype raw_read = Packet "byte list" | ReadFails io_fail

text \<open>
  \<open>ReadPacket\<close>: the context before and after the read, the answer of the descriptor, and the
  buffer. A packet longer than the buffer is cut by the kernel. The result is the count or an
  error, the buffer and the device.
\<close>

definition read_packet ::
  "string option \<Rightarrow> string option \<Rightarrow> raw_read \<Rightarrow> byte list \<Rightarrow> device
    \<Rightarrow> (tun_err + int) \<times> byte list \<times> device" where
  "read_packet ctx ctx_after raw buf d =
     (if dev_closed d then (Inl ErrClosed, buf, d)
      else if int (length buf) \<le> dev_max_packet d then
        (Inl (ErrBufferTooSmall (int (length buf)) (dev_max_packet d)), buf, d)
      else (case ctx of
        Some e \<Rightarrow> (Inl (CtxErr e), buf, d)
      | None \<Rightarrow>
        (case raw of
           ReadFails f \<Rightarrow>
             (case ctx_after of
                Some e \<Rightarrow> (Inl (CtxErr e), buf, d)
              | None \<Rightarrow>
                  (case f of
                     FdClosed \<Rightarrow> (Inl ErrClosed, buf, d)
                   | FdFailed e \<Rightarrow> (Inl (IoErr e), buf,
                       d\<lparr>dev_stats := (dev_stats d)\<lparr>rx_errors := rx_errors (dev_stats d) + 1\<rparr>\<rparr>)))
         | Packet p \<Rightarrow>
             (let data = take (length buf) p; n = int (length data);
                  buf' = data @ drop (length data) buf
              in if n > dev_max_packet d then
                   (Inl (ErrPacketTooLarge n (dev_max_packet d)), buf',
                    d\<lparr>dev_stats := (dev_stats d)\<lparr>rx_oversize := rx_oversize (dev_stats d) + 1\<rparr>\<rparr>)
                 else
                   (Inr n, buf',
                    d\<lparr>dev_stats := (dev_stats d)\<lparr>rx_packets := rx_packets (dev_stats d) + 1,
                        rx_bytes := rx_bytes (dev_stats d) + of_int n\<rparr>\<rparr>)))))"

text \<open>\<open>WritePacket\<close>: the answer is a byte count and possibly a failure.\<close>

definition write_packet ::
  "int \<times> io_fail option \<Rightarrow> byte list \<Rightarrow> device \<Rightarrow> int \<times> tun_err option \<times> device" where
  "write_packet answer buf d =
     (if dev_closed d then (0, Some ErrClosed, d)
      else if buf = [] then (0, Some EmptyPacket, d)
      else (case answer of
        (n, Some f) \<Rightarrow>
          (let d' = d\<lparr>dev_stats := (dev_stats d)\<lparr>tx_errors := tx_errors (dev_stats d) + 1\<rparr>\<rparr>
           in (case f of FdClosed \<Rightarrow> (0, Some ErrClosed, d') | FdFailed e \<Rightarrow> (n, Some (IoErr e), d')))
      | (n, None) \<Rightarrow>
          if n \<noteq> int (length buf) then
            (n, Some (ErrShortWrite n (int (length buf))),
             d\<lparr>dev_stats := (dev_stats d)\<lparr>tx_short := tx_short (dev_stats d) + 1\<rparr>\<rparr>)
          else
            (n, None, d\<lparr>dev_stats := (dev_stats d)\<lparr>tx_packets := tx_packets (dev_stats d) + 1,
                          tx_bytes := tx_bytes (dev_stats d) + of_int n\<rparr>\<rparr>)))"

definition set_mtu :: "string option \<Rightarrow> int \<Rightarrow> bool \<Rightarrow> device \<Rightarrow> tun_err option \<times> device" where
  "set_mtu answer mtu authenticated d =
     (if dev_closed d then (Some ErrClosed, d)
      else (case guard_mtu (dev_mtu d) mtu authenticated of
        Inl e \<Rightarrow> (Some e, d)
      | Inr applied \<Rightarrow>
          if applied = dev_mtu d then (None, d)
          else (case answer of
                  Some e \<Rightarrow> (Some (SetMtuErr applied e), d)
                | None \<Rightarrow> (None, d\<lparr>dev_mtu := applied\<rparr>))))"

definition close_device :: "string list \<Rightarrow> string list \<Rightarrow> device \<Rightarrow> string list \<times> device" where
  "close_device err_file err_nl d =
     (if close_once d then (close_err d, d)
      else (let d' = d\<lparr>close_once := True, dev_closed := True, fd_closes := fd_closes d + 1,
                       close_err := err_file @ err_nl\<rparr>
            in (close_err d', d')))"

section \<open>Opening\<close>

text \<open>
  What the system answers while a device is opened. A link or address read back from netlink
  may lack its attributes.
\<close>

record link_message =
  link_mtu :: "int option"
  link_up :: bool

record address_message =
  am_index :: int
  am_address :: "byte list option"
  am_bits :: int

record open_env =
  env_fd :: "string option"
  env_ifreq :: "string option"
  env_tunsetiff :: "string + string"
  env_index :: "string + int"
  env_dial :: "string option"
  env_link_set :: "string option"
  env_addr_new :: "string option"
  env_link_get :: "string + link_message"
  env_addr_list :: "string + address_message list"

datatype open_event =
    OpenFd | CloseFd | DialNl | CloseNl | CreateIface string
  | SetLink int int | AddAddress int prefix

definition be_word :: "byte list \<Rightarrow> 'a::len word" where
  "be_word bs = foldl (\<lambda>w b. push_bit 8 w OR ucast b) 0 bs"

definition addr_from_slice :: "byte list \<Rightarrow> addr" where
  "addr_from_slice bs =
     (if length bs = 4 then V4 (be_word bs) else if length bs = 16 then V6 (be_word bs) [] else NoAddr)"

definition verify_link :: "string + link_message \<Rightarrow> int \<Rightarrow> string option" where
  "verify_link got want_mtu =
     (case got of
        Inl e \<Rightarrow> Some e
      | Inr lm \<Rightarrow>
          if link_mtu lm \<noteq> Some want_mtu then Some ''mtu readback''
          else if \<not> link_up lm then Some ''interface is not up after set''
          else None)"

definition address_matches :: "int \<Rightarrow> prefix \<Rightarrow> address_message \<Rightarrow> bool" where
  "address_matches index want a \<longleftrightarrow> am_index a = index \<and>
     (case am_address a of
        None \<Rightarrow> False
      | Some bs \<Rightarrow> addr_valid (addr_from_slice bs) \<and> unmap (addr_from_slice bs) = prefix_addr want
          \<and> am_bits a = prefix_bits want)"

definition verify_address :: "string + address_message list \<Rightarrow> int \<Rightarrow> prefix \<Rightarrow> string option" where
  "verify_address got index want =
     (case got of
        Inl e \<Rightarrow> Some e
      | Inr as \<Rightarrow> if list_ex (address_matches index want) as then None else Some ''address not present'')"

definition open_device :: "tun_config \<Rightarrow> open_env \<Rightarrow> (tun_err + device) \<times> open_event list" where
  "open_device c env =
     (case validate_config c of Some e \<Rightarrow> (Inl e, []) | None \<Rightarrow>
     (case env_fd env of Some e \<Rightarrow> (Inl (OpenStepErr ''open'' e), []) | None \<Rightarrow>
     (let fail = (\<lambda>step e evs. (Inl (OpenStepErr step e), OpenFd # evs @ [CloseFd])) in
     (case env_ifreq env of Some e \<Rightarrow> fail ''build ifreq'' e [] | None \<Rightarrow>
     (case env_tunsetiff env of Inl e \<Rightarrow> fail ''TUNSETIFF'' e [] | Inr name \<Rightarrow>
     (case env_index env of Inl e \<Rightarrow> fail ''look up'' e [CreateIface name] | Inr index \<Rightarrow>
     (case env_dial env of Some e \<Rightarrow> fail ''dial rtnetlink'' e [CreateIface name] | None \<Rightarrow>
     (let failNL = (\<lambda>step e evs. (Inl (OpenStepErr step e),
            [OpenFd, CreateIface name, DialNl] @ evs @ [CloseNl, CloseFd])) in
     (case env_link_set env of
        Some e \<Rightarrow> failNL ''set link mtu/up'' e [SetLink index (cfg_mtu c)]
      | None \<Rightarrow>
     (case env_addr_new env of
        Some e \<Rightarrow> failNL ''add address'' e [SetLink index (cfg_mtu c), AddAddress index (cfg_address c)]
      | None \<Rightarrow>
     (case verify_link (env_link_get env) (cfg_mtu c) of
        Some e \<Rightarrow> failNL ''verify link'' e [SetLink index (cfg_mtu c), AddAddress index (cfg_address c)]
      | None \<Rightarrow>
     (case verify_address (env_addr_list env) index (cfg_address c) of
        Some e \<Rightarrow> failNL ''verify address'' e [SetLink index (cfg_mtu c), AddAddress index (cfg_address c)]
      | None \<Rightarrow>
          (Inr \<lparr>dev_name = name, dev_index = index, dev_addr = cfg_address c, dev_mtu = cfg_mtu c,
             dev_max_packet = config_max_packet c, dev_closed = False, close_once = False,
             close_err = [], fd_closes = 0, dev_stats = no_stats\<rparr>,
           [OpenFd, CreateIface name, DialNl, SetLink index (cfg_mtu c),
            AddAddress index (cfg_address c)])))))))))))))"

text \<open>Other platforms.\<close>

definition open_other :: "tun_config \<Rightarrow> tun_err + device" where
  "open_other c = Inl ErrUnsupported"


section \<open>Opening leaks nothing\<close>

definition occurs :: "open_event \<Rightarrow> open_event list \<Rightarrow> nat" where
  "occurs e es = length (filter ((=) e) es)"

lemma occurs_simps [simp]:
  "occurs e [] = 0" "occurs e (x # xs) = (if e = x then 1 else 0) + occurs e xs"
  "occurs e (xs @ ys) = occurs e xs + occurs e ys"
  by (simp_all add: occurs_def)

lemmas validate_config_defs = validate_config_def validate_name_def

definition config_ok :: "tun_config \<Rightarrow> bool" where
  "config_ok c \<longleftrightarrow> (cfg_name c = [] \<or> validate_name (cfg_name c) = None)
     \<and> min_mtu \<le> cfg_mtu c \<and> cfg_mtu c \<le> max_mtu \<and> (\<exists>w n. cfg_address c = Prefix (V4 w) n)
     \<and> 0 \<le> cfg_max_packet c"

lemma validate_config_ok: "validate_config c = None \<longleftrightarrow> config_ok c"
proof -
  have "(prefix_valid x \<and> is4 (prefix_addr x)) \<longleftrightarrow> (\<exists>w n. x = Prefix (V4 w) n)" for x
    by (cases x; cases "prefix_addr x") auto
  then show ?thesis by (auto simp: validate_config_def config_ok_def not_less)
qed

text \<open>
  C26. Opening the device never leaks: when it fails, at any step, the descriptor and the
  netlink connection are closed as often as they were opened and an invalid configuration
  touches nothing; when it succeeds both are open once, the configuration is valid, the link
  was read back up with the configured MTU and the address was read back on the interface.
\<close>

theorem open_device_releases:
  assumes "open_device c env = (r, evs)"
  shows "(case r of
      Inl e \<Rightarrow> occurs OpenFd evs = occurs CloseFd evs \<and> occurs DialNl evs = occurs CloseNl evs
    | Inr d \<Rightarrow> config_ok c \<and> occurs OpenFd evs = 1 \<and> occurs CloseFd evs = 0
        \<and> occurs DialNl evs = 1 \<and> occurs CloseNl evs = 0
        \<and> env_tunsetiff env = Inr (dev_name d) \<and> dev_mtu d = cfg_mtu c \<and> dev_addr d = cfg_address c
        \<and> \<not> dev_closed d \<and> fd_closes d = 0
        \<and> (\<exists>lm as a. env_link_get env = Inr lm \<and> link_mtu lm = Some (cfg_mtu c) \<and> link_up lm
             \<and> env_addr_list env = Inr as \<and> a \<in> set as
             \<and> address_matches (dev_index d) (cfg_address c) a))
    \<and> (config_ok c \<or> evs = [])"
proof (cases "validate_config c")
  case (Some e)
  with assms show ?thesis by (auto simp: open_device_def)
next
  case None
  then have ok: "config_ok c" by (simp add: validate_config_ok)
  show ?thesis
  proof (cases r)
    case (Inl e)
    with assms None ok show ?thesis
      by (auto simp: open_device_def Let_def split: option.splits sum.splits)
  next
    case (Inr d)
    then have "verify_link (env_link_get env) (cfg_mtu c) = None"
      "verify_address (env_addr_list env) (dev_index d) (cfg_address c) = None"
      and rest: "occurs OpenFd evs = 1 \<and> occurs CloseFd evs = 0
        \<and> occurs DialNl evs = 1 \<and> occurs CloseNl evs = 0
        \<and> env_tunsetiff env = Inr (dev_name d) \<and> dev_mtu d = cfg_mtu c \<and> dev_addr d = cfg_address c
        \<and> \<not> dev_closed d \<and> fd_closes d = 0"
      using assms None by (auto simp: open_device_def Let_def split: option.splits sum.splits)
    then show ?thesis using ok Inr
      by (auto simp: verify_link_def verify_address_def list_ex_iff split: sum.splits if_splits)
  qed
qed

section \<open>Packet sizes\<close>

text \<open>
  C29. A packet is delivered whole or not at all: with an open device and a buffer that
  ReadPacket accepts, a packet of any size is copied completely into the buffer and counted, if
  it is within the configured maximum, and otherwise dropped with ErrPacketTooLarge and counted
  as oversize, even when the kernel cut it to the buffer.
\<close>

theorem read_packet_whole_or_dropped:
  assumes "\<not> dev_closed d" and "dev_max_packet d < int (length buf)"
    and "read_packet None after (Packet p) buf d = (r, buf', d')"
  shows "if int (length p) \<le> dev_max_packet d then
      r = Inr (int (length p)) \<and> take (length p) buf' = p \<and> length buf' = length buf
      \<and> d' = d\<lparr>dev_stats := (dev_stats d)\<lparr>rx_packets := rx_packets (dev_stats d) + 1,
                  rx_bytes := rx_bytes (dev_stats d) + of_nat (length p)\<rparr>\<rparr>
    else (\<exists>n. r = Inl (ErrPacketTooLarge n (dev_max_packet d)))
      \<and> d' = d\<lparr>dev_stats := (dev_stats d)\<lparr>rx_oversize := rx_oversize (dev_stats d) + 1\<rparr>\<rparr>"
proof (cases "int (length p) \<le> dev_max_packet d")
  case True
  then have "take (length buf) p = p" using assms(2) by simp
  with True assms show ?thesis by (auto simp: read_packet_def Let_def)
next
  case False
  then have "dev_max_packet d < int (length (take (length buf) p))" using assms(2) by simp
  with False assms show ?thesis by (simp add: read_packet_def Let_def) auto
qed

section \<open>Histories of a device\<close>

datatype dev_op =
    ReadOp "string option" "string option" raw_read "byte list"
  | WriteOp "int \<times> io_fail option" "byte list"
  | SetMtuOp "string option" int bool
  | CloseOp "string list" "string list"

datatype dev_res =
    ReadRes "tun_err + int" | WriteRes int "tun_err option" | MtuRes "tun_err option"
  | CloseRes "string list"

fun dev_step :: "device \<Rightarrow> dev_op \<Rightarrow> dev_res \<times> device" where
  "dev_step d (ReadOp ctx after raw buf) =
     (case read_packet ctx after raw buf d of (r, _, d') \<Rightarrow> (ReadRes r, d'))"
| "dev_step d (WriteOp ans buf) = (case write_packet ans buf d of (n, e, d') \<Rightarrow> (WriteRes n e, d'))"
| "dev_step d (SetMtuOp ans m auth) = (case set_mtu ans m auth d of (e, d') \<Rightarrow> (MtuRes e, d'))"
| "dev_step d (CloseOp ef en) = (case close_device ef en d of (e, d') \<Rightarrow> (CloseRes e, d'))"

text \<open>What a closed device answers to anything.\<close>

fun refused :: "string list \<Rightarrow> dev_res \<Rightarrow> bool" where
  "refused ce (ReadRes r) \<longleftrightarrow> r = Inl ErrClosed"
| "refused ce (WriteRes n e) \<longleftrightarrow> n = 0 \<and> e = Some ErrClosed"
| "refused ce (MtuRes e) \<longleftrightarrow> e = Some ErrClosed"
| "refused ce (CloseRes e) \<longleftrightarrow> e = ce"

definition dev_inv :: "device \<Rightarrow> bool" where
  "dev_inv d \<longleftrightarrow> dev_closed d = close_once d \<and> fd_closes d = (if close_once d then 1 else 0)
     \<and> min_mtu \<le> dev_mtu d \<and> dev_mtu d \<le> max_mtu"

lemma closed_step:
  "dev_inv d \<Longrightarrow> dev_closed d \<Longrightarrow> snd (dev_step d e) = d \<and> refused (close_err d) (fst (dev_step d e))"
  by (cases e) (auto simp: dev_inv_def read_packet_def write_packet_def set_mtu_def close_device_def)

lemma closed_run:
  "dev_inv d \<Longrightarrow> dev_closed d \<Longrightarrow>
     snd (run_ops dev_step d es) = d \<and> list_all (refused (close_err d)) (fst (run_ops dev_step d es))"
proof (induction es)
  case (Cons e es)
  obtain r where "dev_step d e = (r, d)" "refused (close_err d) r"
    using closed_step [OF Cons.prems, of e] by (metis prod.collapse)
  with Cons show ?case by (simp add: split_beta)
qed simp

lemma guard_range: "guard_mtu cur t a = Inr m \<Longrightarrow> m = t \<and> min_mtu \<le> m \<and> m \<le> max_mtu \<and> (a \<or> m \<le> cur)"
  by (auto simp: guard_mtu_def split: if_splits)

lemma dev_step_inv: "dev_inv d \<Longrightarrow> dev_inv (snd (dev_step d e))"
  by (cases e) (auto simp: dev_inv_def read_packet_def write_packet_def set_mtu_def close_device_def
      Let_def dest: guard_range split: option.splits raw_read.splits io_fail.splits prod.splits sum.splits)

lemma run_dev_inv: "dev_inv d \<Longrightarrow> dev_inv (snd (run_ops dev_step d es))"
proof (induction es arbitrary: d)
  case (Cons e es)
  have "dev_inv (snd (dev_step d e))" using Cons.prems by (rule dev_step_inv)
  from Cons.IH [OF this] show ?case by (simp add: split_beta Let_def)
qed simp

text \<open>
  Closing happens once and is final: whatever was done before and is tried afterwards, and
  however often Close is called, the descriptor is closed exactly once, every later read, write
  or MTU change is refused with ErrClosed, every later Close repeats the first one's error, and
  nothing changes any more.
\<close>

theorem close_once_and_final:
  assumes "dev_inv d" and "run_ops dev_step d xs = (rs, d1)"
    and "close_device ef en d1 = (ce, d2)" and "run_ops dev_step d2 ys = (rs', d3)"
  shows "fd_closes d3 = 1 \<and> d3 = d2 \<and> list_all (refused ce) rs'"
proof -
  have "dev_inv d1" using run_dev_inv [OF assms(1), of xs] assms(2) by simp
  with assms(3) have "dev_inv d2" "dev_closed d2" "close_err d2 = ce" "fd_closes d2 = 1"
    by (auto simp: dev_inv_def close_device_def Let_def split: if_splits)
  with closed_run [of d2 ys] assms(4) show ?thesis by simp
qed

text \<open>An operation that may raise the MTU.\<close>

fun raises :: "dev_op \<Rightarrow> bool" where
  "raises (SetMtuOp ans m auth) = auth"
| "raises e = False"

lemma step_mtu: "\<not> raises e \<Longrightarrow> dev_mtu (snd (dev_step d e)) \<le> dev_mtu d"
  by (cases e) (auto simp: read_packet_def write_packet_def set_mtu_def close_device_def
      Let_def dest: guard_range split: option.splits raw_read.splits io_fail.splits prod.splits sum.splits)

text \<open>
  C30. The MTU of a device stays between 1112 and 1400 over any history, and never rises above
  its first value unless a change was authenticated.
\<close>

theorem mtu_bounded_history:
  assumes "dev_inv d"
  shows "1112 \<le> dev_mtu (snd (run_ops dev_step d es)) \<and> dev_mtu (snd (run_ops dev_step d es)) \<le> 1400
    \<and> (dev_mtu (snd (run_ops dev_step d es)) \<le> dev_mtu d \<or> list_ex raises es)"
proof -
  have "dev_mtu (snd (run_ops dev_step d es)) \<le> dev_mtu d \<or> list_ex raises es"
  proof (induction es arbitrary: d)
    case (Cons e es)
    from Cons.IH [of "snd (dev_step d e)"] step_mtu [of e d] show ?case
      by (cases "raises e") (auto simp: split_beta Let_def)
  qed simp
  with run_dev_inv [OF assms, of es] show ?thesis by (simp add: dev_inv_def min_mtu_def max_mtu_def)
qed

text \<open>
  Raising the MTU makes the device drop what the kernel now delivers: the read limit is
  fixed when the device is opened, so after an authenticated increase on a device whose limit
  is its MTU (MaxPacket left zero), every packet above the old MTU is refused as too large.
\<close>

theorem raised_mtu_packets_dropped:
  assumes "\<not> dev_closed d" and "dev_max_packet d = dev_mtu d"
    and "set_mtu None m True d = (None, d')" and "dev_mtu d < int (length p)"
    and "int (length p) \<le> m" and "m < int (length buf)"
  shows "dev_mtu d' = m \<and> (\<exists>n. fst (read_packet None None (Packet p) buf d') =
    Inl (ErrPacketTooLarge n (dev_mtu d)))"
proof -
  have "m \<noteq> dev_mtu d" using assms(4,5) by simp
  then have d': "d' = d\<lparr>dev_mtu := m\<rparr>"
    using assms(1,3) by (auto simp: set_mtu_def split: sum.splits if_splits dest: guard_range)
  show ?thesis using assms by (auto simp: d' read_packet_def Let_def)
qed


section \<open>Pooled buffers\<close>

text \<open>
  \<open>ReadInto\<close> and \<open>WriteFrom\<close> over any device: its read takes the buffer and gives the result,
  the new contents and the new device. The deferred Release of \<open>WriteFrom\<close> runs after the write.
\<close>

definition read_into ::
  "bool \<Rightarrow> (byte list \<Rightarrow> ('e + int) \<times> byte list \<times> 'd) \<Rightarrow> nat \<Rightarrow> pool \<Rightarrow> (('e + int) \<times> 'd \<times> pool) may_panic" where
  "read_into debug rd b p =
     (case buf_resize debug b (buf_cap b p) p of
        Inl x \<Rightarrow> Inl x
      | Inr p1 \<Rightarrow>
     (case buf_bytes debug b p1 of
        Inl x \<Rightarrow> Inl x
      | Inr bytes \<Rightarrow>
     (case rd bytes of
        (r, bytes', d') \<Rightarrow>
          (let p2 = buf_write b bytes' p1 in
           case r of
             Inl e \<Rightarrow> (case buf_release debug b p2 of Inl x \<Rightarrow> Inl x | Inr p3 \<Rightarrow> Inr (Inl e, d', p3))
           | Inr n \<Rightarrow> (case buf_resize debug b n p2 of Inl x \<Rightarrow> Inl x | Inr p3 \<Rightarrow> Inr (Inr n, d', p3))))))"

definition write_from :: "bool \<Rightarrow> (byte list \<Rightarrow> 'r) \<Rightarrow> nat \<Rightarrow> pool \<Rightarrow> ('r \<times> pool) may_panic" where
  "write_from debug wr b p =
     (case buf_bytes debug b p of
        Inl x \<Rightarrow> Inl x
      | Inr bytes \<Rightarrow> (case buf_release debug b p of Inl x \<Rightarrow> Inl x | Inr p' \<Rightarrow> Inr (wr bytes, p')))"

lemma read_packet_length:
  "read_packet ctx after raw buf d = (r, buf', d') \<Longrightarrow> length buf' = length buf
    \<and> (\<forall>n. r = Inr n \<longrightarrow> (\<exists>q. raw = Packet q \<and> n = int (length q) \<and> length q \<le> length buf
         \<and> take (length q) buf' = q))"
  by (auto simp: read_packet_def Let_def min_def split: if_splits option.splits raw_read.splits io_fail.splits)

lemma owned_ops:
  assumes "reachable_pool debug cs (p, W)" and "b \<in> W"
  shows "released (bufs p ! b) = False" "length (store (bufs p ! b)) = nat (bclass (bufs p ! b))"
    "blen (bufs p ! b) \<le> nat (bclass (bufs p ! b))" "b < length (bufs p)"
    "0 \<le> bclass (bufs p ! b)"
  using inv_owned [OF reachable_inv [OF assms(1)] assms(2)] by (auto simp: buffer_ok_def)

lemma write_from_releases:
  assumes "reachable_pool debug cs (p, W)" and "b \<in> W"
  shows "\<exists>r p'. write_from debug wr b p = Inr (r, p') \<and> reachable_pool debug cs (p', W - {b})"
proof -
  note o = owned_ops [OF assms]
  obtain p' where p': "buf_release debug b p = Inr p'" using o(1) by (simp add: buf_release_def Let_def)
  have "reachable_pool debug cs (p', W - {b})" by (rule step [OF assms(1) release [OF assms(2) p']])
  then show ?thesis using p' o(1) by (simp add: write_from_def buf_bytes_def check_live_def)
qed

text \<open>Widening a buffer to its class, and what the read then fills in.\<close>

lemma widened:
  assumes "reachable_pool debug cs (p, W)" and "b \<in> W"
    and "p1 = upd_buf b (\<lambda>x. x\<lparr>blen := nat (bclass x)\<rparr>) p"
  shows "buf_resize debug b (buf_cap b p) p = Inr p1" and "reachable_pool debug cs (p1, W)"
    and "buf_bytes debug b p1 = Inr (store (bufs p ! b))"
    and "length buf' = length (store (bufs p ! b)) \<Longrightarrow> store (bufs (buf_write b buf' p1) ! b) = buf'"
    and "bclass (bufs (buf_write b buf' p1) ! b) = bclass (bufs p ! b)"
proof -
  note o = owned_ops [OF assms(1,2)]
  show r1: "buf_resize debug b (buf_cap b p) p = Inr p1"
    using o(1,5) by (simp add: buf_resize_def check_live_def buf_cap_def assms(3) upd_buf_def)
  show q1: "reachable_pool debug cs (p1, W)"
    using step [OF assms(1) resize [OF assms(2) r1]] .
  note o1 = owned_ops [OF q1 assms(2)]
  have b1: "bufs p1 ! b = (bufs p ! b)\<lparr>blen := nat (bclass (bufs p ! b))\<rparr>"
    using o(4) by (simp add: assms(3))
  show "buf_bytes debug b p1 = Inr (store (bufs p ! b))"
    using o o1 by (simp add: buf_bytes_def check_live_def b1)
  show "length buf' = length (store (bufs p ! b)) \<Longrightarrow> store (bufs (buf_write b buf' p1) ! b) = buf'"
    and "bclass (bufs (buf_write b buf' p1) ! b) = bclass (bufs p ! b)"
    using o o1(4) by (simp_all add: buf_write_def b1)
qed

text \<open>
  C31. Reading into and writing from a pooled buffer neither panics nor leaks, in production and
  in debug builds: a failed read has released the buffer, a successful one leaves it with its
  owner holding exactly the packet, and a write has released it whatever the device answered.
\<close>

theorem pooled_io_never_leaks:
  assumes "reachable_pool debug cs (p, W)" and "b \<in> W"
  shows "(\<exists>r d' p'. read_into debug (\<lambda>buf. read_packet ctx after raw buf d) b p = Inr (r, d', p') \<and>
      (case r of
         Inl e \<Rightarrow> reachable_pool debug cs (p', W - {b})
       | Inr n \<Rightarrow> reachable_pool debug cs (p', W)
           \<and> (\<exists>q. raw = Packet q \<and> n = int (length q) \<and> buf_bytes debug b p' = Inr q)))
    \<and> (\<exists>r p'. write_from debug wr b p = Inr (r, p') \<and> reachable_pool debug cs (p', W - {b}))"
proof
  define p1 where "p1 = upd_buf b (\<lambda>x. x\<lparr>blen := nat (bclass x)\<rparr>) p"
  note w = widened [OF assms p1_def]
  obtain r buf' d' where rd: "read_packet ctx after raw (store (bufs p ! b)) d = (r, buf', d')"
    using prod_cases3 by blast
  note len = read_packet_length [OF rd]
  define p2 where "p2 = buf_write b buf' p1"
  have q2: "reachable_pool debug cs (p2, W)" unfolding p2_def by (rule step [OF w(2) fill [OF assms(2)]])
  note o = owned_ops [OF assms] and o2 = owned_ops [OF q2 assms(2)]
  have b2: "store (bufs p2 ! b) = buf'" "bclass (bufs p2 ! b) = bclass (bufs p ! b)"
    using len w(4,5) by (simp_all add: p2_def)
  show "\<exists>r d' p'. read_into debug (\<lambda>buf. read_packet ctx after raw buf d) b p = Inr (r, d', p') \<and>
      (case r of
         Inl e \<Rightarrow> reachable_pool debug cs (p', W - {b})
       | Inr n \<Rightarrow> reachable_pool debug cs (p', W)
           \<and> (\<exists>q. raw = Packet q \<and> n = int (length q) \<and> buf_bytes debug b p' = Inr q))"
  proof (cases r)
    case (Inl e)
    obtain p3 where p3: "buf_release debug b p2 = Inr p3" using o2(1) by (simp add: buf_release_def Let_def)
    have "reachable_pool debug cs (p3, W - {b})"
      by (rule step [OF q2 release [OF assms(2) p3]])
    then show ?thesis using Inl p3 by (auto simp: read_into_def w(1,3) rd p2_def [symmetric] Let_def)
  next
    case (Inr n)
    with len obtain q where q: "raw = Packet q" "n = int (length q)" "length q \<le> length (store (bufs p ! b))"
      "take (length q) buf' = q" by blast
    define p3 where "p3 = upd_buf b (\<lambda>x. x\<lparr>blen := nat n\<rparr>) p2"
    have n: "0 \<le> n" "n \<le> bclass (bufs p2 ! b)" using q o(2,5) b2 by simp_all
    have r3: "buf_resize debug b n p2 = Inr p3"
      using n o2(1) by (simp add: buf_resize_def check_live_def p3_def)
    have q3: "reachable_pool debug cs (p3, W)" by (rule step [OF q2 resize [OF assms(2) r3]])
    have "buf_bytes debug b p3 = Inr q"
      using o2(1,4) q b2 by (simp add: buf_bytes_def check_live_def p3_def)
    moreover have "read_into debug (\<lambda>buf. read_packet ctx after raw buf d) b p = Inr (Inr n, d', p3)"
      by (simp add: read_into_def w(1,3) rd p2_def [symmetric] Let_def Inr r3)
    ultimately show ?thesis using q3 q(1,2) by (intro exI conjI) (assumption, auto)
  qed
qed (rule write_from_releases [OF assms])


section \<open>Witnesses\<close>

definition sample_config :: tun_config where
  "sample_config = \<lparr>cfg_name = ''red0'', cfg_address = Prefix (V4 0x0A080001) 24, cfg_mtu = 1180,
     cfg_max_packet = 0\<rparr>"

definition good_env :: open_env where
  "good_env = \<lparr>env_fd = None, env_ifreq = None, env_tunsetiff = Inr ''red0'', env_index = Inr 7,
     env_dial = None, env_link_set = None, env_addr_new = None,
     env_link_get = Inr \<lparr>link_mtu = Some 1180, link_up = True\<rparr>,
     env_addr_list = Inr [\<lparr>am_index = 7, am_address = Some [10, 8, 0, 1], am_bits = 24\<rparr>]\<rparr>"

definition sample_device :: device where
  "sample_device = \<lparr>dev_name = ''red0'', dev_index = 7, dev_addr = Prefix (V4 0x0A080001) 24,
     dev_mtu = 1180, dev_max_packet = 1180, dev_closed = False, close_once = False, close_err = [],
     fd_closes = 0, dev_stats = no_stats\<rparr>"

lemma sample_open: "fst (open_device sample_config good_env) = Inr sample_device"
proof -
  have "be_word [10, 8, 0, 1] = (0x0A080001 :: u32)" by (simp add: be_word_def)
  moreover have "config_ok sample_config"
    by (simp add: config_ok_def sample_config_def validate_name_def tun_name_max_def contains_any_def
        min_mtu_def max_mtu_def)
  then have "validate_config sample_config = None" by (simp add: validate_config_ok)
  ultimately show ?thesis
    by (simp add: open_device_def good_env_def verify_link_def verify_address_def address_matches_def
        addr_from_slice_def addr_valid_def)
      (simp add: sample_config_def sample_device_def config_max_packet_def)
qed

lemma sample_device_inv: "dev_inv sample_device"
  by (simp add: dev_inv_def sample_device_def min_mtu_def max_mtu_def)

theorem open_device_releases_witness:
  "\<exists>evs. open_device sample_config good_env = (Inr sample_device, evs) \<and> occurs CloseFd evs = 0
     \<and> config_ok sample_config"
proof -
  obtain evs where e: "open_device sample_config good_env = (Inr sample_device, evs)"
    using sample_open by (metis prod.collapse)
  from open_device_releases [OF e] e show ?thesis by auto
qed

theorem read_packet_whole_or_dropped_witness:
  "fst (read_packet None None (Packet [1, 2, 3]) (replicate 1500 0) sample_device) = Inr 3"
proof -
  obtain r buf' d' where
    r: "read_packet None None (Packet [1, 2, 3]) (replicate 1500 0) sample_device = (r, buf', d')"
    using prod_cases3 by blast
  have "\<not> dev_closed sample_device" "dev_max_packet sample_device < int (length (replicate 1500 (0 :: byte)))"
    by (simp_all add: sample_device_def)
  from read_packet_whole_or_dropped [OF this r] r show ?thesis by (simp add: sample_device_def)
qed

theorem close_once_and_final_witness:
  "fd_closes (snd (run_ops dev_step (snd (close_device [] [] sample_device))
     [CloseOp [] [], WriteOp (0, None) [1]])) = 1"
proof -
  obtain ce d2 where c: "close_device [] [] sample_device = (ce, d2)" by fastforce
  obtain rs d3 where r: "run_ops dev_step d2 [CloseOp [] [], WriteOp (0, None) [1]] = (rs, d3)" by fastforce
  have "run_ops dev_step sample_device [] = ([], sample_device)" by simp
  from close_once_and_final [OF sample_device_inv this c r] have "fd_closes d3 = 1" by (rule conjunct1)
  then show ?thesis unfolding c snd_conv r .
qed

theorem mtu_bounded_history_witness:
  "dev_mtu (snd (run_ops dev_step sample_device [SetMtuOp None 1400 False])) \<le> 1180"
  using mtu_bounded_history [OF sample_device_inv, of "[SetMtuOp None 1400 False]"]
  by (auto simp: sample_device_def)

theorem raised_mtu_packets_dropped_witness:
  "\<exists>d'. set_mtu None 1400 True sample_device = (None, d')
     \<and> (\<exists>n. fst (read_packet None None (Packet (replicate 1300 0)) (replicate 1560 0) d')
          = Inl (ErrPacketTooLarge n 1180))"
proof -
  have s: "set_mtu None 1400 True sample_device = (None, sample_device\<lparr>dev_mtu := 1400\<rparr>)"
    by (simp add: set_mtu_def guard_mtu_def sample_device_def min_mtu_def max_mtu_def)
  have "\<not> dev_closed sample_device" "dev_max_packet sample_device = dev_mtu sample_device"
    "dev_mtu sample_device < int (length (replicate 1300 (0 :: byte)))"
    "int (length (replicate 1300 (0 :: byte))) \<le> 1400"
    "(1400 :: int) < int (length (replicate 1560 (0 :: byte)))"
    by (simp_all add: sample_device_def)
  from raised_mtu_packets_dropped [OF this(1,2) s this(3-5)] s show ?thesis
    by (auto simp: sample_device_def)
qed

theorem pooled_io_never_leaks_witness:
  "\<exists>r p'. write_from True length 0 one_taken = Inr (r, p') \<and> reachable_pool True size_classes (p', {})"
proof -
  have "(0 :: nat) \<in> {0}" by simp
  from pooled_io_never_leaks [OF one_taken_reachable [of True] this, where wr = length]
  show ?thesis by auto
qed

end
