(* ===== verification/TunCancel.thy ===== *)
theory TunCancel
  imports Tun
begin

text \<open>
  How a read of the TUN device is cancelled, \<open>ReadPacket\<close> of \<open>internal/tun/tun_linux.go\<close> with what it
  shares with other goroutines: the context, the callback of \<open>context.AfterFunc\<close> that moves the read
  deadline of the file into the past, \<open>stop\<close>, which does not wait for a callback that was started, and
  the deferred reset of the deadline. \<open>Tun.read_packet\<close> is the same code as one step. One reader calls
  \<open>ReadPacket\<close> again and again; other goroutines cancel its contexts, write, change the MTU and close.
  A file is pollable when \<open>os.NewFile\<close> got a descriptor in non-blocking mode; deadlines and the waking
  of a read by Close exist only then, as package \<open>os\<close> documents.
\<close>

section \<open>The machine\<close>

text \<open>Where the reader is; \<open>Leaving\<close> and \<open>Clearing\<close> are the deferred function with the result at hand.\<close>

datatype read_pc =
    Outside | Entered | Registered | Parked
  | Answered raw_read | Leaving "tun_err + int" | Clearing "tun_err + int"

text \<open>The callback of the current call: registered, running on its own, or run.\<close>

datatype cb_state = NoCallback | Waiting | Started | Finished

text \<open>\<open>rlate\<close> counts the callbacks of earlier calls that were started and have not run yet.\<close>

record reader =
  rdev :: device
  rpc :: read_pc
  rctx :: "string option"
  rcb :: cb_state
  rlate :: nat
  rpast :: bool
  rbuf :: "byte list"
  rresult :: "(tun_err + int) option"

definition reader_of :: "device \<Rightarrow> reader" where
  "reader_of d = \<lparr>rdev = d, rpc = Outside, rctx = None, rcb = NoCallback, rlate = 0, rpast = False,
     rbuf = [], rresult = None\<rparr>"

datatype read_event =
    Call "string option" "byte list" | Cancel string | Device dev_op | Arrive "byte list" | Fail string
  | Register | RunCallback | RunLate | StartRead | Wake | WakeClosed | Deliver | StopCallback | ClearDeadline

definition timeout_text :: string where "timeout_text = ''i/o timeout''"

text \<open>\<open>SetReadDeadline\<close> fails, and the code ignores that, on a closed file and on one that is not pollable.\<close>

definition set_deadline :: "bool \<Rightarrow> bool \<Rightarrow> reader \<Rightarrow> reader" where
  "set_deadline pollable past s = (if pollable \<and> \<not> dev_closed (rdev s) then s\<lparr>rpast := past\<rparr> else s)"

text \<open>What \<open>ReadPacket\<close> does before it reads, and after.\<close>

definition refuse_read :: "string option \<Rightarrow> byte list \<Rightarrow> device \<Rightarrow> tun_err option" where
  "refuse_read ctx buf d =
     (if dev_closed d then Some ErrClosed
      else if int (length buf) \<le> dev_max_packet d then
        Some (ErrBufferTooSmall (int (length buf)) (dev_max_packet d))
      else map_option CtxErr ctx)"

definition after_read ::
  "string option \<Rightarrow> raw_read \<Rightarrow> byte list \<Rightarrow> device \<Rightarrow> (tun_err + int) \<times> byte list \<times> device" where
  "after_read ctx raw buf d =
     (case raw of
        ReadFails f \<Rightarrow>
          (case ctx of
             Some e \<Rightarrow> (Inl (CtxErr e), buf, d)
           | None \<Rightarrow>
               (case f of
                  FdClosed \<Rightarrow> (Inl ErrClosed, buf, d)
                | FdFailed e \<Rightarrow> (Inl (IoErr e), buf,
                    d\<lparr>dev_stats := (dev_stats d)\<lparr>rx_errors := rx_errors (dev_stats d) + 1\<rparr>\<rparr>)))
      | Packet p \<Rightarrow>
          (let data = take (length buf) p; n = int (length data);
               buf' = data @ drop (length data) buf
           in if n > dev_max_packet d then
                (Inl (ErrPacketTooLarge n (dev_max_packet d)), buf',
                 d\<lparr>dev_stats := (dev_stats d)\<lparr>rx_oversize := rx_oversize (dev_stats d) + 1\<rparr>\<rparr>)
              else
                (Inr n, buf',
                 d\<lparr>dev_stats := (dev_stats d)\<lparr>rx_packets := rx_packets (dev_stats d) + 1,
                     rx_bytes := rx_bytes (dev_stats d) + of_int n\<rparr>\<rparr>)))"

text \<open>Nothing else happens in the code: the two parts make up \<open>Tun.read_packet\<close>.\<close>

lemma read_packet_parts:
  "read_packet ctx ctx_after raw buf d =
     (case refuse_read ctx buf d of Some e \<Rightarrow> (Inl e, buf, d) | None \<Rightarrow> after_read ctx_after raw buf d)"
  by (auto simp: read_packet_def refuse_read_def after_read_def Let_def split: option.splits raw_read.splits io_fail.splits)

fun is_read :: "dev_op \<Rightarrow> bool" where
  "is_read (ReadOp _ _ _ _) = True"
| "is_read _ = False"

fun read_next :: "bool \<Rightarrow> read_event \<Rightarrow> reader \<Rightarrow> reader option" where
  "read_next pollable (Call ctx buf) s =
     (if rpc s \<noteq> Outside then None
      else (case refuse_read ctx buf (rdev s) of
              Some e \<Rightarrow> Some (s\<lparr>rresult := Some (Inl e)\<rparr>)
            | None \<Rightarrow> Some (s\<lparr>rpc := Entered, rctx := None, rbuf := buf, rresult := None\<rparr>)))"
| "read_next pollable (Cancel e) s =
     (if rpc s = Outside \<or> rctx s \<noteq> None then None
      else Some (s\<lparr>rctx := Some e, rcb := (if rcb s = Waiting then Started else rcb s)\<rparr>))"
| "read_next pollable (Device op) s =
     (if is_read op then None else Some (s\<lparr>rdev := snd (dev_step (rdev s) op)\<rparr>))"
| "read_next pollable (Arrive p) s = (if rpc s = Parked then Some (s\<lparr>rpc := Answered (Packet p)\<rparr>) else None)"
| "read_next pollable (Fail e) s =
     (if rpc s = Parked \<and> e \<noteq> timeout_text then Some (s\<lparr>rpc := Answered (ReadFails (FdFailed e))\<rparr>) else None)"
| "read_next pollable Register s =
     (if rpc s = Entered
      then Some (s\<lparr>rpc := Registered, rcb := (if rctx s = None then Waiting else Started)\<rparr>) else None)"
| "read_next pollable RunCallback s =
     (if rcb s = Started then Some (set_deadline pollable True (s\<lparr>rcb := Finished\<rparr>)) else None)"
| "read_next pollable RunLate s =
     (if 0 < rlate s then Some (set_deadline pollable True (s\<lparr>rlate := rlate s - 1\<rparr>)) else None)"
| "read_next pollable StartRead s =
     (if rpc s = Registered
      then Some (s\<lparr>rpc := (if dev_closed (rdev s) then Answered (ReadFails FdClosed)
                        else if rpast s then Answered (ReadFails (FdFailed timeout_text)) else Parked)\<rparr>)
      else None)"
| "read_next pollable Wake s =
     (if rpc s = Parked \<and> rpast s then Some (s\<lparr>rpc := Answered (ReadFails (FdFailed timeout_text))\<rparr>) else None)"
| "read_next pollable WakeClosed s =
     (if rpc s = Parked \<and> pollable \<and> dev_closed (rdev s) then Some (s\<lparr>rpc := Answered (ReadFails FdClosed)\<rparr>) else None)"
| "read_next pollable Deliver s =
     (case rpc s of
        Answered raw \<Rightarrow>
          (case after_read (rctx s) raw (rbuf s) (rdev s) of
             (r, buf, d) \<Rightarrow> Some (s\<lparr>rpc := Leaving r, rbuf := buf, rdev := d\<rparr>))
      | _ \<Rightarrow> None)"
| "read_next pollable StopCallback s =
     (case rpc s of
        Leaving r \<Rightarrow> Some (s\<lparr>rpc := Clearing r, rcb := NoCallback,
                             rlate := rlate s + (if rcb s = Started then 1 else 0)\<rparr>)
      | _ \<Rightarrow> None)"
| "read_next pollable ClearDeadline s =
     (case rpc s of
        Clearing r \<Rightarrow> Some (set_deadline pollable False (s\<lparr>rpc := Outside, rresult := Some r\<rparr>))
      | _ \<Rightarrow> None)"

fun read_run :: "bool \<Rightarrow> read_event list \<Rightarrow> reader \<Rightarrow> reader option" where
  "read_run pollable [] s = Some s"
| "read_run pollable (e # es) s = (case read_next pollable e s of None \<Rightarrow> None | Some s' \<Rightarrow> read_run pollable es s')"

text \<open>The states that steps allowed by \<open>ok\<close> lead to.\<close>

inductive read_reach :: "bool \<Rightarrow> (reader \<Rightarrow> read_event \<Rightarrow> bool) \<Rightarrow> device \<Rightarrow> reader \<Rightarrow> bool" for pollable ok d where
  start: "read_reach pollable ok d (reader_of d)"
| step: "\<lbrakk>read_reach pollable ok d s; ok s e; read_next pollable e s = Some s'\<rbrakk> \<Longrightarrow> read_reach pollable ok d s'"

text \<open>What the program and its runtime do by themselves; the other events come from outside.\<close>

fun own :: "read_event \<Rightarrow> bool" where
  "own (Call _ _) = False"
| "own (Cancel _) = False"
| "own (Device _) = False"
| "own (Arrive _) = False"
| "own (Fail _) = False"
| "own _ = True"

section \<open>What always holds\<close>

text \<open>
  The callback is waiting exactly while its context is live; once it ran, the deadline that it moved
  stays until the call is over, unless the file is closed.
\<close>

fun inside :: "read_pc \<Rightarrow> bool" where
  "inside Registered = True"
| "inside Parked = True"
| "inside (Answered _) = True"
| "inside (Leaving _) = True"
| "inside _ = False"

definition read_inv :: "bool \<Rightarrow> reader \<Rightarrow> bool" where
  "read_inv pollable s \<longleftrightarrow>
     (rpast s \<longrightarrow> pollable)
   \<and> (if inside (rpc s) then rcb s \<noteq> NoCallback \<and> (rcb s = Waiting \<longleftrightarrow> rctx s = None) else rcb s = NoCallback)
   \<and> (pollable \<and> inside (rpc s) \<and> rcb s = Finished \<longrightarrow> rpast s \<or> dev_closed (rdev s))"

lemma after_read_closed: "after_read ctx raw buf d = (r, buf', d') \<Longrightarrow> dev_closed d' = dev_closed d"
  by (auto simp: after_read_def Let_def split: raw_read.splits option.splits io_fail.splits if_splits)

lemma dev_step_closed: "dev_closed d \<Longrightarrow> dev_inv d \<Longrightarrow> dev_closed (snd (dev_step d op))"
  by (cases op) (auto simp: read_packet_def write_packet_def set_mtu_def close_device_def dev_inv_def)

lemmas read_next_splits = if_splits option.splits read_pc.splits prod.splits

lemma set_deadline_simps [simp]:
  "rdev (set_deadline p v s) = rdev s" "rpc (set_deadline p v s) = rpc s" "rctx (set_deadline p v s) = rctx s"
  "rcb (set_deadline p v s) = rcb s" "rlate (set_deadline p v s) = rlate s" "rbuf (set_deadline p v s) = rbuf s"
  "rresult (set_deadline p v s) = rresult s"
  "rpast (set_deadline p v s) = (if p \<and> \<not> dev_closed (rdev s) then v else rpast s)"
  by (simp_all add: set_deadline_def)

lemma after_read_inv: "dev_inv d \<Longrightarrow> after_read ctx raw buf d = (r, buf', d') \<Longrightarrow> dev_inv d'"
  by (auto simp: after_read_def Let_def dev_inv_def split: raw_read.splits option.splits io_fail.splits if_splits)

lemma read_next_dev_inv: "dev_inv (rdev s) \<Longrightarrow> read_next p e s = Some s' \<Longrightarrow> dev_inv (rdev s')"
  by (cases e) (auto simp: dev_step_inv after_read_inv split: read_next_splits)

lemma read_next_inv:
  assumes "read_inv p s" and "dev_inv (rdev s)" and "read_next p e s = Some s'"
  shows "read_inv p s'"
proof (cases e)
  case (Device op)
  then show ?thesis using assms dev_step_closed [OF _ assms(2), of op] by (auto simp: read_inv_def split: if_splits)
next
  case Deliver
  then show ?thesis using assms(1,3) by (auto simp: read_inv_def split: read_pc.splits prod.splits dest: after_read_closed)
qed (use assms(1,3) in \<open>auto simp: read_inv_def split: if_splits option.splits read_pc.splits\<close>)

lemma read_reach_inv: "read_reach p ok d s \<Longrightarrow> dev_inv d \<Longrightarrow> read_inv p s \<and> dev_inv (rdev s)"
proof (induction rule: read_reach.induct)
  case start
  then show ?case by (simp add: read_inv_def reader_of_def)
next
  case (step s e s')
  then show ?case using read_next_inv read_next_dev_inv by blast
qed

section \<open>Agreement with the one-step model\<close>

text \<open>A call that was let in has a buffer above the limit, which no operation changes.\<close>

definition room_inv :: "reader \<Rightarrow> bool" where
  "room_inv s \<longleftrightarrow> rpc s = Outside \<or> dev_max_packet (rdev s) < int (length (rbuf s))"

lemma dev_step_limit [simp]: "dev_max_packet (snd (dev_step d op)) = dev_max_packet d"
  by (cases op) (auto simp: read_packet_def write_packet_def set_mtu_def close_device_def Let_def
      split: option.splits sum.splits prod.splits io_fail.splits raw_read.splits)

lemma after_read_room:
  "after_read ctx raw buf d = (r, buf', d') \<Longrightarrow> length buf' = length buf \<and> dev_max_packet d' = dev_max_packet d"
  by (auto simp: after_read_def Let_def split: raw_read.splits option.splits io_fail.splits if_splits)

lemma room_step: "room_inv s \<Longrightarrow> read_next p e s = Some s' \<Longrightarrow> room_inv s'"
  by (cases e) (auto simp: room_inv_def refuse_read_def dest: after_read_room split: if_splits option.splits read_pc.splits prod.splits)

lemma read_reach_room: "read_reach p ok d s \<Longrightarrow> room_inv s"
proof (induction rule: read_reach.induct)
  case start
  then show ?case by (simp add: room_inv_def reader_of_def)
next
  case (step s e s')
  then show ?case using room_step by blast
qed

text \<open>
  The machine does to the device and the buffer what \<open>Tun.read_packet\<close> does in one step, with the answer
  and the state of the context at the moment of delivery: what is proved of the one step holds here.
\<close>

theorem delivery_is_read_packet:
  assumes "read_reach pollable ok d s" and "rpc s = Answered raw" and "\<not> dev_closed (rdev s)"
    and "read_packet None (rctx s) raw (rbuf s) (rdev s) = (r, buf, d')"
  shows "read_next pollable Deliver s = Some (s\<lparr>rpc := Leaving r, rbuf := buf, rdev := d'\<rparr>)"
  using assms read_reach_room [OF assms(1)] by (simp add: read_packet_parts refuse_read_def room_inv_def)

section \<open>A cancelled read ends\<close>

text \<open>What is left to do without the outside: every own step lowers it.\<close>

fun read_rank :: "read_pc \<Rightarrow> nat" where
  "read_rank Outside = 0"
| "read_rank (Clearing _) = 1"
| "read_rank (Leaving _) = 2"
| "read_rank (Answered _) = 3"
| "read_rank Parked = 4"
| "read_rank Registered = 5"
| "read_rank Entered = 6"

definition own_work :: "reader \<Rightarrow> nat" where
  "own_work s = 2 * read_rank (rpc s) + rlate s + (if rcb s = Started then 1 else 0)"

lemma own_step_less: "own e \<Longrightarrow> read_next p e s = Some s' \<Longrightarrow> own_work s' < own_work s"
  by (cases e) (auto simp: own_work_def split: read_next_splits)

lemma own_run_bound: "list_all own es \<Longrightarrow> read_run p es s = Some s' \<Longrightarrow> length es + own_work s' \<le> own_work s"
  by (induction es arbitrary: s) (fastforce dest: own_step_less split: option.splits)+

definition stuck :: "bool \<Rightarrow> reader \<Rightarrow> bool" where
  "stuck pollable s \<longleftrightarrow> (\<forall>e. own e \<longrightarrow> read_next pollable e s = None)"

lemma stuckD: "stuck p s \<Longrightarrow> own e \<Longrightarrow> read_next p e s = None"
  by (simp add: stuck_def)

text \<open>On a pollable file the reader waits only for a packet, and only while nobody cancelled or closed.\<close>

lemma stuck_reader_waits:
  assumes "read_inv True s" and "stuck True s"
  shows "rpc s = Outside \<or> rpc s = Parked \<and> rctx s = None \<and> \<not> dev_closed (rdev s)"
proof (cases "rpc s")
  case Parked
  have "\<not> dev_closed (rdev s)" using stuckD [OF assms(2), of WakeClosed] Parked by (simp split: if_splits)
  moreover have "\<not> rpast s" using stuckD [OF assms(2), of Wake] Parked by (simp split: if_splits)
  moreover have "rcb s \<noteq> Started" using stuckD [OF assms(2), of RunCallback] by (simp split: if_splits)
  ultimately show ?thesis using assms(1) Parked by (cases "rcb s") (auto simp: read_inv_def)
next
  case (Answered raw)
  then show ?thesis using stuckD [OF assms(2), of Deliver] by (simp split: prod.splits)
qed (use stuckD [OF assms(2), of Register] stuckD [OF assms(2), of StartRead]
    stuckD [OF assms(2), of StopCallback] stuckD [OF assms(2), of ClearDeadline] in simp_all)

text \<open>The end of a cancelled read: no packet came, so the context's error is on its way out.\<close>

fun ending_pc :: "tun_err + int \<Rightarrow> (tun_err + int) option \<Rightarrow> read_pc \<Rightarrow> bool" where
  "ending_pc r res Parked = True"
| "ending_pc r res (Answered raw) = (\<exists>f. raw = ReadFails f)"
| "ending_pc r res (Leaving r') = (r' = r)"
| "ending_pc r res (Clearing r') = (r' = r)"
| "ending_pc r res Outside = (res = Some r)"
| "ending_pc r res _ = False"

definition ending :: "string \<Rightarrow> device \<Rightarrow> reader \<Rightarrow> bool" where
  "ending e d s \<longleftrightarrow> rctx s = Some e \<and> rdev s = d \<and> ending_pc (Inl (CtxErr e)) (rresult s) (rpc s)"

lemma own_ending: "own ev \<Longrightarrow> ending e d s \<Longrightarrow> read_next p ev s = Some s' \<Longrightarrow> ending e d s'"
  by (cases ev) (auto simp: ending_def after_read_def split: read_next_splits raw_read.splits)

lemma own_closed: "own ev \<Longrightarrow> read_next p ev s = Some s' \<Longrightarrow> dev_closed (rdev s') = dev_closed (rdev s)"
  by (cases ev) (auto split: read_next_splits dest: after_read_closed)

lemma own_run_rule:
  assumes "\<And>e s s'. \<lbrakk>own e; P s; read_next p e s = Some s'\<rbrakk> \<Longrightarrow> P s'"
    and "list_all own es" and "read_run p es s = Some s'" and "P s"
  shows "P s'"
  using assms(2-) by (induction es arbitrary: s) (auto intro: assms(1) split: option.splits)

lemma own_run_ending:
  "\<lbrakk>list_all own es; read_run p es s = Some s'; ending e d s\<rbrakk> \<Longrightarrow> ending e d s'"
  by (rule own_run_rule [where P = "ending e d"]) (rule own_ending)

text \<open>
  C27. Cancelling unblocks a read: on a pollable file, from any state that can be reached with a read parked
  in the kernel, once its context is cancelled or the device is closed, the program's own steps, however
  they are scheduled, come to an end after at most nine and one for each late callback; the call has then
  returned, and a cancelled one has returned the error of its context and counted nothing.
\<close>

theorem cancel_unblocks_read:
  assumes "read_reach True ok d s" and "dev_inv d" and "rpc s = Parked"
    and "rctx s \<noteq> None \<or> dev_closed (rdev s)"
    and "list_all own es" and "read_run True es s = Some s'"
  shows "length es \<le> 9 + rlate s
    \<and> (stuck True s' \<longrightarrow> rpc s' = Outside \<and> (\<forall>e. rctx s = Some e \<longrightarrow> rresult s' = Some (Inl (CtxErr e)) \<and> rdev s' = rdev s))"
proof (intro conjI impI)
  show "length es \<le> 9 + rlate s"
    using own_run_bound [OF assms(5,6)] assms(3) by (simp add: own_work_def split: if_splits)
  have inv: "read_inv True s \<and> dev_inv (rdev s)" using read_reach_inv [OF assms(1,2)] .
  have "read_inv True s' \<and> dev_inv (rdev s')"
    using inv by (intro own_run_rule [OF _ assms(5,6), of "\<lambda>s. read_inv True s \<and> dev_inv (rdev s)"])
      (blast intro: read_next_inv read_next_dev_inv)
  moreover have "rctx s' \<noteq> None \<or> dev_closed (rdev s')"
  proof (cases "rctx s")
    case None
    have "dev_closed (rdev s')"
      using assms(4) None by (intro own_run_rule [OF _ assms(5,6), of "\<lambda>s. dev_closed (rdev s)"]) (auto simp: own_closed)
    then show ?thesis ..
  next
    case (Some e)
    have "ending e (rdev s) s" using assms(3) Some by (simp add: ending_def)
    then have "ending e (rdev s) s'" by (rule own_run_ending [OF assms(5,6)])
    then show ?thesis by (simp add: ending_def)
  qed
  moreover assume "stuck True s'"
  ultimately show out: "rpc s' = Outside" using stuck_reader_waits [of s'] by auto
  show "\<forall>e. rctx s = Some e \<longrightarrow> rresult s' = Some (Inl (CtxErr e)) \<and> rdev s' = rdev s"
  proof (intro allI impI)
    fix e assume "rctx s = Some e"
    then have "ending e (rdev s) s" using assms(3) by (simp add: ending_def)
    then have "ending e (rdev s) s'" by (rule own_run_ending [OF assms(5,6)])
    then show "rresult s' = Some (Inl (CtxErr e)) \<and> rdev s' = rdev s" using out by (simp add: ending_def)
  qed
qed

section \<open>A file that is not pollable\<close>

text \<open>\<open>Open\<close> makes the file from a descriptor that it opened with these flags.\<close>

datatype open_flag = O_RDWR | O_CLOEXEC | O_NONBLOCK

definition tun_open_flags :: "open_flag list" where
  "tun_open_flags = [O_RDWR, O_CLOEXEC]"

definition newfile_pollable :: "open_flag list \<Rightarrow> bool" where
  "newfile_pollable flags \<longleftrightarrow> O_NONBLOCK \<in> set flags"

fun answer :: "read_event \<Rightarrow> bool" where
  "answer (Arrive _) = True"
| "answer (Fail _) = True"
| "answer _ = False"

lemma blocked_step:
  "\<lbrakk>\<not> answer e; rpc s = Parked; \<not> rpast s; read_next False e s = Some s'\<rbrakk> \<Longrightarrow> rpc s' = Parked \<and> \<not> rpast s'"
  by (cases e) (auto split: if_splits)

lemma blocked_run:
  "\<lbrakk>list_all (\<lambda>e. \<not> answer e) es; rpc s = Parked; \<not> rpast s; read_run False es s = Some s'\<rbrakk> \<Longrightarrow> rpc s' = Parked"
proof (induction es arbitrary: s)
  case (Cons e es)
  then obtain s1 where s1: "read_next False e s = Some s1" "read_run False es s1 = Some s'" by (auto split: option.splits)
  moreover have "rpc s1 = Parked \<and> \<not> rpast s1" using Cons.prems s1(1) by (intro blocked_step) auto
  ultimately show ?case using Cons.IH [of s1] Cons.prems(1) by simp
qed simp

text \<open>
  The device that \<open>Open\<close> returns is not of this kind: its descriptor is in blocking mode, so that a read
  that is parked stays there, whatever is cancelled, closed or run, until the kernel has an answer.
\<close>

theorem production_read_not_cancelled:
  assumes "read_reach (newfile_pollable tun_open_flags) ok d s" and "dev_inv d" and "rpc s = Parked"
    and "list_all (\<lambda>e. \<not> answer e) es" and "read_run (newfile_pollable tun_open_flags) es s = Some s'"
  shows "rpc s' = Parked"
proof -
  have np: "\<not> newfile_pollable tun_open_flags" by (simp add: newfile_pollable_def tun_open_flags_def)
  then have "\<not> rpast s" using read_reach_inv [OF assms(1,2)] by (auto simp: read_inv_def)
  moreover have "read_run False es s = Some s'" using assms(5) np by simp
  ultimately show ?thesis by (rule blocked_run [OF assms(4,3)])
qed

section \<open>A late callback\<close>

text \<open>
  \<open>stop\<close> is in order when it does not leave a callback behind that was started and did not run.
\<close>

definition orderly :: "reader \<Rightarrow> read_event \<Rightarrow> bool" where
  "orderly s e \<longleftrightarrow> \<not> (e = StopCallback \<and> rcb s = Started)"

abbreviation spurious :: "tun_err + int" where
  "spurious \<equiv> Inl (IoErr timeout_text)"

fun fine_pc :: "string option \<Rightarrow> read_pc \<Rightarrow> bool" where
  "fine_pc ctx (Answered raw) = (raw = ReadFails (FdFailed timeout_text) \<longrightarrow> ctx \<noteq> None)"
| "fine_pc ctx (Leaving r) = (r \<noteq> spurious)"
| "fine_pc ctx (Clearing r) = (r \<noteq> spurious)"
| "fine_pc ctx _ = True"

definition orderly_inv :: "reader \<Rightarrow> bool" where
  "orderly_inv s \<longleftrightarrow> rlate s = 0 \<and> rresult s \<noteq> Some spurious
     \<and> (rpast s \<longrightarrow> (if rpc s = Outside then dev_closed (rdev s) else rctx s \<noteq> None))
     \<and> fine_pc (rctx s) (rpc s)"

lemma fine_pc_cancelled: "fine_pc c pc \<Longrightarrow> fine_pc (Some e) pc"
  by (cases pc) auto

lemma after_read_spurious:
  "after_read ctx raw buf d = (spurious, buf', d') \<Longrightarrow> raw = ReadFails (FdFailed timeout_text) \<and> ctx = None"
  by (auto simp: after_read_def Let_def split: raw_read.splits option.splits io_fail.splits if_splits)

lemma refuse_not_spurious: "refuse_read ctx buf d \<noteq> Some (IoErr e)"
  by (auto simp: refuse_read_def)

lemma orderly_step:
  assumes "orderly_inv s" and "read_inv p s" and "dev_inv (rdev s)" and "orderly s e" and "read_next p e s = Some s'"
  shows "orderly_inv s'"
proof (cases e)
  case (Call ctx buf)
  have "rpast s \<Longrightarrow> refuse_read ctx buf (rdev s) \<noteq> None" if "rpc s = Outside"
    using assms(1) that by (simp add: orderly_inv_def refuse_read_def)
  with Call assms(1,5) show ?thesis
    using refuse_not_spurious [of ctx buf "rdev s" timeout_text]
    by (auto simp: orderly_inv_def split: if_splits option.splits)
next
  case (Device op)
  then show ?thesis using assms(1,5) dev_step_closed [OF _ assms(3), of op]
    by (auto simp: orderly_inv_def split: if_splits)
next
  case (Cancel c)
  then show ?thesis using assms(1,5) by (auto simp: orderly_inv_def fine_pc_cancelled split: if_splits)
next
  case RunCallback
  then have "rcb s = Started" using assms(5) by (simp split: if_splits)
  then have "rpc s \<noteq> Outside \<and> rctx s \<noteq> None" using assms(2) by (cases "rpc s") (auto simp: read_inv_def)
  with RunCallback assms(1,5) show ?thesis by (auto simp: orderly_inv_def split: if_splits)
next
  case Deliver
  then show ?thesis using assms(1,5)
    by (auto simp: orderly_inv_def split: read_pc.splits prod.splits dest: after_read_spurious after_read_closed)
next
  case ClearDeadline
  then show ?thesis using assms(1,2,5) by (auto simp: orderly_inv_def read_inv_def split: read_pc.splits if_splits)
qed (use assms(1,4,5) in \<open>auto simp: orderly_inv_def orderly_def split: if_splits read_pc.splits\<close>)

lemma orderly_reach:
  assumes "read_reach p orderly d s" and "dev_inv d"
  shows "orderly_inv s"
  using assms(1)
proof (induction rule: read_reach.induct)
  case start
  then show ?case by (simp add: orderly_inv_def reader_of_def)
next
  case (step s e s')
  then show ?case using orderly_step read_reach_inv [OF step.hyps(1) assms(2)] by blast
qed

text \<open>
  C28. A read that fails for good reasons only: while every \<open>stop\<close> is in order, a deadline that was moved
  for one call never ends another one, whatever is cancelled, written, closed or received, so that a read
  never reports the timeout as a failure of the descriptor; and between calls of an open device the
  deadline is clear.
\<close>

theorem orderly_reads_not_spurious:
  assumes "read_reach pollable orderly d s" and "dev_inv d"
  shows "rresult s \<noteq> Some (Inl (IoErr timeout_text))
    \<and> (rpc s = Outside \<and> \<not> dev_closed (rdev s) \<longrightarrow> \<not> rpast s)"
  using orderly_reach [OF assms] by (auto simp: orderly_inv_def)

text \<open>
  It does happen out of order: the first call gets its packet just as its context is cancelled, its
  callback runs after the deferred function, and the second call, whose context is never cancelled,
  fails with the timeout, which is counted as a failure of the descriptor.
\<close>

definition overtaking :: "byte list \<Rightarrow> byte list \<Rightarrow> read_event list" where
  "overtaking buf p =
     [Call None buf, Register, StartRead, Arrive p, Deliver, Cancel ''context canceled'', StopCallback, ClearDeadline,
      RunLate, Call None buf, Register, StartRead, Deliver, StopCallback, ClearDeadline]"

theorem late_callback_fails_next_read:
  assumes "\<not> dev_closed d" and "int (length p) \<le> dev_max_packet d" and "dev_max_packet d < int (length buf)"
  shows "\<exists>s. read_run True (overtaking buf p) (reader_of d) = Some s
    \<and> rresult s = Some (Inl (IoErr timeout_text)) \<and> rx_errors (dev_stats (rdev s)) = rx_errors (dev_stats d) + 1"
  using assms by (simp add: overtaking_def reader_of_def refuse_read_def after_read_def Let_def set_deadline_def)

section \<open>Witnesses\<close>

definition parked_events :: "read_event list" where
  "parked_events = [Call None (replicate 1300 0), Register, StartRead]"

lemma read_reach_run:
  assumes "read_reach p ok d s" and "read_run p es s = Some s'" and "\<And>s e. e \<in> set es \<Longrightarrow> ok s e"
  shows "read_reach p ok d s'"
  using assms
proof (induction es arbitrary: s)
  case (Cons e es)
  then obtain s1 where s1: "read_next p e s = Some s1" "read_run p es s1 = Some s'" by (auto split: option.splits)
  have "ok s e" using Cons.prems(3) by simp
  then have "read_reach p ok d s1" using read_reach.step [OF Cons.prems(1) _ s1(1)] by blast
  then show ?case using Cons.IH [OF _ s1(2)] Cons.prems(3) by simp
qed simp

definition after_cancel :: "bool \<Rightarrow> reader" where
  "after_cancel pollable = the (read_run pollable (parked_events @ [Cancel ''context canceled'']) (reader_of sample_device))"

lemmas run_defs = reader_of_def refuse_read_def after_read_def set_deadline_def sample_device_def parked_events_def

lemma after_cancel_run:
  "read_run p (parked_events @ [Cancel ''context canceled'']) (reader_of sample_device) = Some (after_cancel p)"
  and after_cancel_state: "rpc (after_cancel p) = Parked" "rctx (after_cancel p) = Some ''context canceled''"
    "rcb (after_cancel p) = Started" "rlate (after_cancel p) = 0" "\<not> rpast (after_cancel p)" "rdev (after_cancel p) = sample_device"
  by (simp_all add: after_cancel_def run_defs)

definition unblocking :: "read_event list" where
  "unblocking = [RunCallback, Wake, Deliver, StopCallback, ClearDeadline]"

lemma unblocking_run:
  obtains s' where "read_run True unblocking (after_cancel True) = Some s'" "stuck True s'"
proof -
  obtain s' where s': "read_run True unblocking (after_cancel True) = Some s'" "rpc s' = Outside" "rcb s' = NoCallback" "rlate s' = 0"
    using after_cancel_state [of True] by (auto simp: unblocking_def after_read_def set_deadline_def sample_device_def)
  have "read_next True e s' = None" if "own e" for e using that s'(2-) by (cases e) auto
  with s'(1) that show ?thesis by (simp add: stuck_def)
qed

theorem cancel_unblocks_read_witness:
  "\<exists>s'. read_run True unblocking (after_cancel True) = Some s' \<and> rpc s' = Outside
     \<and> rresult s' = Some (Inl (CtxErr ''context canceled'')) \<and> rdev s' = sample_device"
proof -
  obtain s' where s': "read_run True unblocking (after_cancel True) = Some s'" "stuck True s'" by (rule unblocking_run)
  have reach: "read_reach True (\<lambda>_ _. True) sample_device (after_cancel True)"
    by (rule read_reach_run [OF read_reach.start after_cancel_run]) simp
  have "list_all own unblocking" by (simp add: unblocking_def)
  from cancel_unblocks_read [OF reach sample_device_inv _ _ this s'(1)] s' show ?thesis
    by (simp add: after_cancel_state)
qed

theorem production_read_not_cancelled_witness:
  "\<exists>s. read_run False [RunCallback, Device (CloseOp [] [])] (after_cancel False) = Some s \<and> rpc s = Parked"
proof -
  have np: "newfile_pollable tun_open_flags = False" by (simp add: newfile_pollable_def tun_open_flags_def)
  have reach: "read_reach (newfile_pollable tun_open_flags) (\<lambda>_ _. True) sample_device (after_cancel False)"
    unfolding np by (rule read_reach_run [OF read_reach.start after_cancel_run]) simp
  obtain s where s: "read_run False [RunCallback, Device (CloseOp [] [])] (after_cancel False) = Some s"
    using after_cancel_state [of False] by (auto simp: set_deadline_def)
  have "read_run (newfile_pollable tun_open_flags) [RunCallback, Device (CloseOp [] [])] (after_cancel False) = Some s"
    unfolding np by (rule s)
  then have "rpc s = Parked"
    by (rule production_read_not_cancelled [OF reach sample_device_inv after_cancel_state(1), rotated]) simp
  with s show ?thesis by blast
qed

theorem orderly_reads_not_spurious_witness:
  "\<exists>s. read_run True (parked_events @ [Cancel ''context canceled''] @ [RunCallback, Wake, Deliver]) (reader_of sample_device) = Some s
     \<and> rpc s = Leaving (Inl (CtxErr ''context canceled'')) \<and> rresult s \<noteq> Some (Inl (IoErr timeout_text))"
proof -
  obtain s where s: "read_run True (parked_events @ [Cancel ''context canceled''] @ [RunCallback, Wake, Deliver]) (reader_of sample_device) = Some s"
    "rpc s = Leaving (Inl (CtxErr ''context canceled''))"
    by (simp add: run_defs)
  have "read_reach True orderly sample_device s"
    by (rule read_reach_run [OF read_reach.start s(1)]) (auto simp: parked_events_def orderly_def)
  from orderly_reads_not_spurious [OF this sample_device_inv] s show ?thesis by blast
qed

theorem late_callback_fails_next_read_witness:
  "\<exists>s. read_run True (overtaking (replicate 1300 0) [0x45]) (reader_of sample_device) = Some s
    \<and> rresult s = Some (Inl (IoErr timeout_text)) \<and> rx_errors (dev_stats (rdev s)) = rx_errors (dev_stats sample_device) + 1"
  by (rule late_callback_fails_next_read) (simp_all add: sample_device_def)

end
