(* ===== verification/Congestion.thy ===== *)
theory Congestion
  imports Prelude
begin

text \<open>
  The per-direction AIMD controller of \<open>internal/congestion/phase0sim/sim.go\<close>. All quantities are
  Go \<open>int64\<close>; every operation that can leave the range wraps and division truncates towards zero.
  The fluid link, the reference flow and the simulation loop compute with binary64 numbers and
  are not part of this theory.
\<close>

definition ns_per_ms :: int where "ns_per_ms = 1000000"
definition ns_per_s :: int where "ns_per_s = 1000 * ns_per_ms"

record sim_clock =
  clock_ns :: int

definition sim_now :: "sim_clock \<Rightarrow> int" where
  "sim_now c = clock_ns c"

definition sim_advance :: "int \<Rightarrow> sim_clock \<Rightarrow> sim_clock" where
  "sim_advance d c = c\<lparr>clock_ns := wrap64 (clock_ns c + d)\<rparr>"

record controller =
  mtu_bytes :: int
  rate_bps :: int
  min_bps :: int
  max_bps :: int
  queue_target_ns :: int
  stale_ns :: int
  srtt_ns :: int
  next_eval :: int
  loss_since :: bool
  high_delay_runs :: int
  last_feedback :: int

definition observe_loss :: "controller \<Rightarrow> controller" where
  "observe_loss c = c\<lparr>loss_since := True\<rparr>"

definition feedback :: "int \<Rightarrow> int \<Rightarrow> controller \<Rightarrow> controller" where
  "feedback t rtt c =
     (let c1 = c\<lparr>last_feedback := t\<rparr> in
      if srtt_ns c1 = 0 then c1\<lparr>srtt_ns := rtt\<rparr>
      else c1\<lparr>srtt_ns := go_quot (wrap64 (wrap64 (7 * srtt_ns c1) + rtt)) 8\<rparr>)"

definition clamp :: "controller \<Rightarrow> controller" where
  "clamp c =
     (let c1 = (if rate_bps c < min_bps c then c\<lparr>rate_bps := min_bps c\<rparr> else c)
      in if rate_bps c1 > max_bps c1 then c1\<lparr>rate_bps := max_bps c1\<rparr> else c1)"

definition eval_period :: "controller \<Rightarrow> int" where
  "eval_period c = (if srtt_ns c > 0 then srtt_ns c else stale_ns c)"

text \<open>The body of \<open>tick\<close> after the early return, without the deferred update of \<open>nextEval\<close>.\<close>

definition evaluate :: "int \<Rightarrow> int \<Rightarrow> controller \<Rightarrow> controller" where
  "evaluate t qdelay c =
     (if wrap64 (t - last_feedback c) > stale_ns c then
        c\<lparr>rate_bps := min_bps c, high_delay_runs := 0, loss_since := False\<rparr>
      else
        (let c1 =
           (if loss_since c then
              c\<lparr>rate_bps := go_quot (rate_bps c) 2, high_delay_runs := 0\<rparr>
            else if qdelay > queue_target_ns c then
              (let runs = wrap64 (high_delay_runs c + 1) in
               if runs \<ge> 2 then c\<lparr>rate_bps := go_quot (rate_bps c) 2, high_delay_runs := 0\<rparr>
               else c\<lparr>high_delay_runs := runs\<rparr>)
            else
              (let c2 = c\<lparr>high_delay_runs := 0\<rparr> in
               if srtt_ns c2 > 0 then
                 c2\<lparr>rate_bps := wrap64 (rate_bps c2
                   + go_quot (wrap64 (mtu_bytes c2 * ns_per_s)) (srtt_ns c2))\<rparr>
               else c2))
         in clamp (c1\<lparr>loss_since := False\<rparr>)))"

definition tick :: "int \<Rightarrow> int \<Rightarrow> controller \<Rightarrow> controller" where
  "tick t qdelay c =
     (if t < next_eval c then c
      else (let c1 = evaluate t qdelay c in c1\<lparr>next_eval := wrap64 (t + eval_period c1)\<rparr>))"

section \<open>The rate\<close>

datatype cc_op = Loss | Feedback int int | Tick int int

fun cc_step :: "controller \<Rightarrow> cc_op \<Rightarrow> unit \<times> controller" where
  "cc_step c Loss = ((), observe_loss c)"
| "cc_step c (Feedback t rtt) = ((), feedback t rtt c)"
| "cc_step c (Tick t q) = ((), tick t q c)"

definition cc_limits :: "controller \<Rightarrow> int \<times> int \<times> int \<times> int \<times> int" where
  "cc_limits c = (min_bps c, max_bps c, mtu_bytes c, queue_target_ns c, stale_ns c)"

definition rate_ok :: "controller \<Rightarrow> bool" where
  "rate_ok c \<longleftrightarrow> min_bps c \<le> max_bps c \<and> min_bps c \<le> rate_bps c \<and> rate_bps c \<le> max_bps c"

lemma clamp_range: "min_bps c \<le> max_bps c \<Longrightarrow> rate_ok (clamp c)"
  by (simp add: clamp_def rate_ok_def Let_def)

lemma clamp_limits [simp]: "cc_limits (clamp c) = cc_limits c"
  by (simp add: clamp_def cc_limits_def Let_def)

lemma evaluate_facts: "rate_ok c \<Longrightarrow> rate_ok (evaluate t q c) \<and> cc_limits (evaluate t q c) = cc_limits c
    \<and> \<not> loss_since (evaluate t q c)"
proof -
  assume c: "rate_ok c"
  have cl: "rate_ok (clamp x) \<and> cc_limits (clamp x) = cc_limits c \<and> \<not> loss_since (clamp x)"
    if "cc_limits x = cc_limits c" "\<not> loss_since x" for x
    using that c clamp_range [of x] by (simp add: cc_limits_def rate_ok_def clamp_def Let_def)
  show ?thesis
  proof (cases "wrap64 (t - last_feedback c) > stale_ns c")
    case True
    with c show ?thesis by (simp add: evaluate_def rate_ok_def cc_limits_def)
  next
    case False
    then show ?thesis unfolding evaluate_def Let_def
      by (simp only: if_False) (rule cl, auto simp: cc_limits_def)
  qed
qed

lemma step_rate: "rate_ok c \<Longrightarrow> rate_ok (snd (cc_step c e)) \<and> cc_limits (snd (cc_step c e)) = cc_limits c"
proof (cases e)
  case (Tick t q)
  assume "rate_ok c"
  with evaluate_facts [of c t q] Tick show ?thesis
    by (auto simp: tick_def Let_def rate_ok_def cc_limits_def)
qed (auto simp: rate_ok_def observe_loss_def feedback_def Let_def cc_limits_def)

text \<open>
  Over any history of losses, reports and ticks the rate stays between the configured
  minimum and maximum, which never change, whatever the arithmetic of a step does.
\<close>

theorem rate_always_within_limits:
  assumes "min_bps c \<le> rate_bps c" and "rate_bps c \<le> max_bps c"
    and "c' = snd (run_ops cc_step c es)"
  shows "min_bps c \<le> rate_bps c' \<and> rate_bps c' \<le> max_bps c \<and> cc_limits c' = cc_limits c"
proof -
  have "rate_ok c \<Longrightarrow> rate_ok (snd (run_ops cc_step c es)) \<and> cc_limits (snd (run_ops cc_step c es)) = cc_limits c"
  proof (induction es arbitrary: c)
    case (Cons e es)
    from step_rate [OF Cons.prems, of e] Cons.IH [of "snd (cc_step c e)"]
    show ?case by (simp add: split_beta Let_def)
  qed simp
  moreover have "rate_ok c" using assms(1,2) by (simp add: rate_ok_def)
  ultimately show ?thesis using assms(3) by (simp add: rate_ok_def cc_limits_def)
qed


section \<open>The decision of a round\<close>

text \<open>The rule of the design over the integers, without widths.\<close>

definition aimd_rate :: "controller \<Rightarrow> int \<Rightarrow> int" where
  "aimd_rate c qdelay = max (min_bps c) (min (max_bps c)
     (if loss_since c then rate_bps c div 2
      else if qdelay > queue_target_ns c then
        (if high_delay_runs c \<ge> 1 then rate_bps c div 2 else rate_bps c)
      else if srtt_ns c > 0 then rate_bps c + mtu_bytes c * 1000000000 div srtt_ns c
      else rate_bps c))"

definition sane :: "controller \<Rightarrow> bool" where
  "sane c \<longleftrightarrow> rate_ok c \<and> 0 \<le> min_bps c \<and> max_bps c < 2 ^ 62 \<and> 0 \<le> mtu_bytes c
     \<and> mtu_bytes c \<le> 65535 \<and> high_delay_runs c \<in> {0, 1} \<and> 0 \<le> stale_ns c"

lemma clamp_rate: "min_bps c \<le> max_bps c \<Longrightarrow> rate_bps (clamp c) = max (min_bps c) (min (max_bps c) (rate_bps c))"
  by (auto simp: clamp_def Let_def max_def min_def)

lemma int64_rate_sum:
  assumes "sane c" and "0 < srtt_ns c"
  shows "wrap64 (rate_bps c + go_quot (wrap64 (mtu_bytes c * ns_per_s)) (srtt_ns c))
    = rate_bps c + mtu_bytes c * 1000000000 div srtt_ns c"
proof -
  have m: "0 \<le> mtu_bytes c * 1000000000" "mtu_bytes c * 1000000000 \<le> 65535 * 1000000000"
    using assms(1) by (simp_all add: sane_def)
  then have "int64 (mtu_bytes c * 1000000000)" by (simp add: int64_def)
  moreover have "mtu_bytes c * 1000000000 div srtt_ns c \<le> mtu_bytes c * 1000000000"
    using m(1) assms(2) by (metis div_by_1 int_one_le_iff_zero_less zdiv_mono2 zero_less_one)
  moreover have "0 \<le> mtu_bytes c * 1000000000 div srtt_ns c"
    using m(1) assms(2) by (simp add: pos_imp_zdiv_nonneg_iff)
  moreover have "0 \<le> rate_bps c" "rate_bps c < 2 ^ 62" using assms(1) by (auto simp: sane_def rate_ok_def)
  ultimately have "int64 (rate_bps c + mtu_bytes c * 1000000000 div srtt_ns c)"
    using m(2) by (simp add: int64_def)
  with \<open>int64 (mtu_bytes c * 1000000000)\<close> m(1) assms(2) show ?thesis
    by (simp add: ns_per_s_def ns_per_ms_def go_quot_nonneg)
qed

text \<open>
  A due tick with fresh feedback decides by the design's rule and by nothing else, without
  overflow: halve on loss, halve on the second round in a row with a queue delay above target,
  hold on the first, otherwise add one MTU per smoothed round trip, within the limits; the loss
  is consumed, and feedback that is too old brings the minimum rate instead.
\<close>

theorem tick_follows_aimd:
  assumes "sane c" and "next_eval c \<le> t" and "int64 (t - last_feedback c)"
  shows "rate_bps (tick t q c) = (if t - last_feedback c \<le> stale_ns c then aimd_rate c q else min_bps c)
    \<and> \<not> loss_since (tick t q c)"
proof (cases "t - last_feedback c \<le> stale_ns c")
  case False
  with assms show ?thesis by (simp add: tick_def evaluate_def Let_def)
next
  case True
  have mm: "min_bps c \<le> max_bps c" "0 \<le> rate_bps c" and runs: "high_delay_runs c = 0 \<or> high_delay_runs c = 1"
    using assms(1) by (auto simp: sane_def rate_ok_def)
  have half: "go_quot (rate_bps c) 2 = rate_bps c div 2" using mm by (simp add: go_quot_nonneg)
  have fresh: "\<not> wrap64 (t - last_feedback c) > stale_ns c" using True assms(3) by simp
  have run: "wrap64 (high_delay_runs c + 1) = high_delay_runs c + 1"
    using runs by (intro wrap64_id) (auto simp: int64_def)
  have "rate_bps (evaluate t q c) = aimd_rate c q"
    using fresh mm(1) runs int64_rate_sum [OF assms(1)]
    by (auto simp: evaluate_def Let_def clamp_rate aimd_rate_def half run)
  moreover have "\<not> loss_since (evaluate t q c)"
    using evaluate_facts [of c t q] assms(1) by (simp add: sane_def)
  ultimately show ?thesis using assms(2) True by (simp add: tick_def Let_def)
qed

text \<open>An operation that cannot change the rate before time \<open>T\<close>.\<close>

fun before_time :: "int \<Rightarrow> cc_op \<Rightarrow> bool" where
  "before_time T (Tick t q) \<longleftrightarrow> t < T"
| "before_time T e \<longleftrightarrow> True"

text \<open>
  One decision per period: between a decision and the next evaluation instant nothing
  changes the rate, however many losses are observed, reports arrive and ticks pass.
\<close>

theorem one_decision_per_period:
  assumes "list_all (before_time (next_eval c)) es"
  shows "rate_bps (snd (run_ops cc_step c es)) = rate_bps c
    \<and> next_eval (snd (run_ops cc_step c es)) = next_eval c"
  using assms
proof (induction es arbitrary: c)
  case (Cons e es)
  have "rate_bps (snd (cc_step c e)) = rate_bps c \<and> next_eval (snd (cc_step c e)) = next_eval c"
    using Cons.prems by (cases e) (simp_all add: observe_loss_def feedback_def tick_def Let_def)
  with Cons show ?case by (simp add: split_beta Let_def)
qed simp

definition sample_controller :: controller where
  "sample_controller = \<lparr>mtu_bytes = 1400, rate_bps = 1000000, min_bps = 16000, max_bps = 12500000,
     queue_target_ns = 15000000, stale_ns = 500000000, srtt_ns = 100000000, next_eval = 100000000,
     loss_since = True, high_delay_runs = 0, last_feedback = 90000000\<rparr>"

theorem rate_always_within_limits_witness:
  "16000 \<le> rate_bps (snd (run_ops cc_step sample_controller [Tick 200000000 0, Loss, Tick 900000000 0]))"
  using rate_always_within_limits [of sample_controller _ "[Tick 200000000 0, Loss, Tick 900000000 0]",
      OF _ _ refl] by (simp add: sample_controller_def)

theorem tick_follows_aimd_witness:
  "rate_bps (tick 200000000 0 sample_controller) = 500000"
proof -
  have "sane sample_controller" "next_eval sample_controller \<le> 200000000"
    "int64 (200000000 - last_feedback sample_controller)"
    by (simp_all add: sane_def rate_ok_def sample_controller_def int64_def)
  from tick_follows_aimd [OF this, of 0] show ?thesis
    by (simp add: aimd_rate_def) (simp add: sample_controller_def)
qed

theorem one_decision_per_period_witness:
  "rate_bps (snd (run_ops cc_step sample_controller [Loss, Feedback 5 7, Tick 99 0])) = 1000000"
proof -
  have "list_all (before_time (next_eval sample_controller)) [Loss, Feedback 5 7, Tick 99 0]"
    by (simp add: sample_controller_def)
  from one_decision_per_period [OF this] have
    "rate_bps (snd (run_ops cc_step sample_controller [Loss, Feedback 5 7, Tick 99 0]))
       = rate_bps sample_controller" by (rule conjunct1)
  then show ?thesis by (simp add: sample_controller_def)
qed

end
