(* ===== verification/Phase0Sim.thy ===== *)
theory Phase0Sim
  imports Congestion Binary64
begin

text \<open>
  The shared-bottleneck experiment of \<open>internal/congestion/phase0sim/sim.go\<close>: the fluid link, the
  reference TCP flow, the simulation loop and the fairness index, over \<open>Binary64\<close>. The controller
  is the one of \<open>Congestion\<close>. The loop of \<open>Run\<close> is \<open>run_loop\<close>, a partial function: a step of no
  length never ends. Products and sums are rounded separately, as on amd64.
\<close>

record link =
  capacity :: f64
  buffer_bytes :: f64
  base_rtt :: int
  link_queue :: f64

definition link_step :: "f64 \<Rightarrow> f64 \<Rightarrow> link \<Rightarrow> bool \<times> int \<times> link" where
  "link_step offered dt l =
     (let q1 = f_add (link_queue l) offered;
          drain = f_mul (capacity l) dt;
          q2 = (if f_less q1 drain then Fin 0 else f_sub q1 drain);
          lost = f_less (buffer_bytes l) q2;
          q3 = (if lost then buffer_bytes l else q2)
      in (lost, f_trunc (f_mul (f_div q3 (capacity l)) (f_int ns_per_s)), l\<lparr>link_queue := q3\<rparr>))"

definition rtt_ns :: "link \<Rightarrow> int \<Rightarrow> int" where
  "rtt_ns l qdelay = wrap64 (base_rtt l + qdelay)"

record tcp_flow =
  mss :: f64
  tcp_rate :: f64
  tcp_min :: f64
  tcp_next_eval :: int
  tcp_lost :: bool

definition tcp_observe_loss :: "tcp_flow \<Rightarrow> tcp_flow" where
  "tcp_observe_loss f = f\<lparr>tcp_lost := True\<rparr>"

definition tcp_tick :: "int \<Rightarrow> int \<Rightarrow> tcp_flow \<Rightarrow> tcp_flow" where
  "tcp_tick t rtt f =
     (if t < tcp_next_eval f then f
      else (let r1 = (if tcp_lost f then f_mul (tcp_rate f) (Fin (1 / 2))
                      else f_add (tcp_rate f) (f_div (mss f) (f_div (f_int rtt) (f_int ns_per_s))));
                r2 = (if f_less r1 (tcp_min f) then tcp_min f else r1)
            in f\<lparr>tcp_rate := r2, tcp_lost := False, tcp_next_eval := wrap64 (t + rtt)\<rparr>))"

definition cc_rate :: "controller \<Rightarrow> f64" where
  "cc_rate c = f_int (rate_bps c)"

record sim =
  sm_clock :: sim_clock
  sm_link :: link
  sm_controller :: controller
  sm_tcp :: tcp_flow
  step_ns :: int
  warmup_ns :: int
  measure_ns :: int
  stale_feed :: bool
  ctrl_bytes :: f64
  tcp_bytes :: f64

section \<open>Run\<close>

text \<open>The fraction of the offered bytes that the link serves in a step.\<close>

definition served_fraction :: "f64 \<Rightarrow> f64 \<Rightarrow> f64" where
  "served_fraction served load =
     (if f_less served load \<and> f_less (Fin 0) load then f_div served load else Fin 1)"

definition sim_step :: "f64 \<Rightarrow> sim \<Rightarrow> sim" where
  "sim_step dt sm =
     (let t = sim_now (sm_clock sm);
          measuring = (t \<ge> warmup_ns sm);
          c_offer = f_mul (cc_rate (sm_controller sm)) dt;
          t_offer = f_mul (tcp_rate (sm_tcp sm)) dt;
          (lost, qdelay, l) = link_step (f_add c_offer t_offer) dt (sm_link sm);
          rtt = rtt_ns l qdelay;
          c1 = (if lost then observe_loss (sm_controller sm) else sm_controller sm);
          f1 = (if lost then tcp_observe_loss (sm_tcp sm) else sm_tcp sm);
          frac = served_fraction (f_mul (capacity l) dt) (f_add c_offer t_offer);
          cb = (if measuring then f_add (ctrl_bytes sm) (f_mul c_offer frac) else ctrl_bytes sm);
          tb = (if measuring then f_add (tcp_bytes sm) (f_mul t_offer frac) else tcp_bytes sm);
          c2 = (if \<not> (stale_feed sm \<and> measuring) then feedback t rtt c1 else c1)
      in sm\<lparr>sm_link := l, sm_controller := tick t qdelay c2, sm_tcp := tcp_tick t rtt f1,
            ctrl_bytes := cb, tcp_bytes := tb, sm_clock := sim_advance (step_ns sm) (sm_clock sm)\<rparr>)"

partial_function (option) run_loop :: "int \<Rightarrow> f64 \<Rightarrow> sim \<Rightarrow> sim option" where
  "run_loop finish dt sm =
     (if sim_now (sm_clock sm) < finish then run_loop finish dt (sim_step dt sm) else Some sm)"

text \<open>The feedback and the evaluation times primed before the first step.\<close>

definition sim_prime :: "sim \<Rightarrow> sim" where
  "sim_prime sm =
     (let t = sim_now (sm_clock sm);
          c = feedback t (rtt_ns (sm_link sm) 0) (sm_controller sm)
      in sm\<lparr>sm_controller := c\<lparr>next_eval := wrap64 (t + eval_period c)\<rparr>,
            sm_tcp := (sm_tcp sm)\<lparr>tcp_next_eval := wrap64 (t + rtt_ns (sm_link sm) 0)\<rparr>\<rparr>)"

definition sim_dt :: "sim \<Rightarrow> f64" where
  "sim_dt sm = f_div (f_int (step_ns sm)) (f_int ns_per_s)"

definition sim_run :: "sim \<Rightarrow> ((f64 \<times> f64) \<times> sim) option" where
  "sim_run sm =
     map_option (\<lambda>r. let win = f_div (f_int (measure_ns r)) (f_int ns_per_s)
                      in ((f_div (ctrl_bytes r) win, f_div (tcp_bytes r) win), r))
       (run_loop (wrap64 (warmup_ns sm + measure_ns sm)) (sim_dt sm) (sim_prime sm))"

section \<open>Fairness\<close>

definition jain_sums :: "f64 list \<Rightarrow> f64 \<times> f64" where
  "jain_sums rates = foldl (\<lambda>(s, q) r. (f_add s r, f_add q (f_mul r r))) (Fin 0, Fin 0) rates"

definition jain :: "f64 list \<Rightarrow> f64" where
  "jain rates =
     (let (s, q) = jain_sums rates in
      if q = Fin 0 then Fin 1 else f_div (f_mul s s) (f_mul (f_int (int (length rates))) q))"

text \<open>\<open>math.Round\<close>: the nearest integer, halves away from zero.\<close>

fun f_round :: "f64 \<Rightarrow> f64" where
  "f_round (Fin x) = Fin (of_int (if x < 0 then - \<lfloor>- x + 1 / 2\<rfloor> else \<lfloor>x + 1 / 2\<rfloor>))"
| "f_round v = v"

definition mbps :: "f64 \<Rightarrow> f64" where
  "mbps x = f_div (f_round (f_mul (f_div x (Fin 1000000)) (Fin 100))) (Fin 100)"

section \<open>The link\<close>

lemma f_sub_inf [simp]: "f_sub PosInf (Fin d) = PosInf"
  by (simp add: f_sub_def)

lemma f_sub_fin: "f_sub (Fin x) (Fin d) = round64 (x - d)"
  by (simp add: f_sub_def)

text \<open>
  The queue of the bottleneck always fits its buffer: a step with any load that is not
  negative leaves between nothing and the whole buffer in the queue; the step reports a loss
  exactly when what was left after draining did not fit, and then the buffer is full; a step that
  can drain everything empties the queue.
\<close>

lemma link_queue_bounded:
  assumes "link_queue l = Fin q" and "0 \<le> q" and "buffer_bytes l = Fin b" and "0 \<le> b"
    and "nonneg offered" and "f_mul (capacity l) dt = Fin d" and "0 \<le> d"
    and "link_step offered dt l = (lost, qdelay, l')"
  shows "\<exists>q'. link_queue l' = Fin q' \<and> 0 \<le> q' \<and> q' \<le> b \<and> (lost \<longrightarrow> q' = b)
    \<and> (lost \<longleftrightarrow> \<not> f_less (f_add (Fin q) offered) (Fin d)
                \<and> f_less (Fin b) (f_sub (f_add (Fin q) offered) (Fin d)))
    \<and> (f_less (f_add (Fin q) offered) (Fin d) \<longrightarrow> q' = 0)
    \<and> l' = l\<lparr>link_queue := Fin q'\<rparr>"
proof -
  have "nonneg (f_add (Fin q) offered)" using assms(2,5) by (intro f_add_nonneg) simp_all
  then show ?thesis
  proof (cases rule: nonneg_cases)
    case (1 x)
    show ?thesis
    proof (cases "x < d")
      case True
      with assms 1 show ?thesis by (auto simp: link_step_def Let_def)
    next
      case False
      then have "nonneg (round64 (x - d))" by (intro round64_nonneg) simp
      then show ?thesis
        by (cases rule: nonneg_cases) (use assms 1 False in \<open>auto simp: link_step_def Let_def f_sub_fin\<close>)
    qed
  next
    case 2
    with assms show ?thesis by (auto simp: link_step_def Let_def)
  qed
qed

section \<open>Run returns\<close>

lemma step_clock [simp]:
  "clock_ns (sm_clock (sim_step dt sm)) = wrap64 (clock_ns (sm_clock sm) + step_ns sm)"
  "step_ns (sim_step dt sm) = step_ns sm" "warmup_ns (sim_step dt sm) = warmup_ns sm"
  "measure_ns (sim_step dt sm) = measure_ns sm" "stale_feed (sim_step dt sm) = stale_feed sm"
  by (simp_all add: sim_step_def Let_def sim_advance_def split: prod.split)

text \<open>The number of steps from \<open>t\<close> to the first time at or after \<open>finish\<close>.\<close>

definition steps_to :: "int \<Rightarrow> int \<Rightarrow> int \<Rightarrow> nat" where
  "steps_to finish t d = nat ((finish - t + d - 1) div d)"

lemma steps_to_Suc:
  assumes "t < finish" and "0 < d"
  shows "steps_to finish t d = Suc (steps_to finish (t + d) d)"
proof -
  have "(finish - t + d - 1) div d = (finish - (t + d) + d - 1) div d + 1"
    using div_add_self2 [of d "finish - (t + d) + d - 1"] assms(2) by (simp add: algebra_simps)
  moreover have "0 \<le> (finish - (t + d) + d - 1) div d" using assms by (simp add: pos_imp_zdiv_nonneg_iff)
  ultimately show ?thesis by (simp add: steps_to_def nat_add_distrib)
qed

lemma steps_to_0: "finish \<le> t \<Longrightarrow> 0 < d \<Longrightarrow> steps_to finish t d = 0"
proof -
  assume "finish \<le> t" "0 < d"
  then have "(finish - t + d - 1) div d \<le> 0" using zdiv_mono1 [of "finish - t + d - 1" "d - 1" d] by simp
  then show ?thesis by (simp add: steps_to_def)
qed

lemma run_loop_iterates:
  assumes "0 < step_ns sm" and "int64 (clock_ns (sm_clock sm))" and "finish + step_ns sm < 2 ^ 63"
  shows "run_loop finish dt sm =
    Some ((sim_step dt ^^ steps_to finish (clock_ns (sm_clock sm)) (step_ns sm)) sm)"
  using assms
proof (induction "steps_to finish (clock_ns (sm_clock sm)) (step_ns sm)" arbitrary: sm)
  case 0
  then have "\<not> clock_ns (sm_clock sm) < finish" using steps_to_Suc by fastforce
  with 0 show ?case by (subst run_loop.simps) (simp add: sim_now_def)
next
  case (Suc n)
  have less: "clock_ns (sm_clock sm) < finish" using steps_to_0 Suc.hyps(2) Suc.prems(1) by (metis Zero_not_Suc not_le)
  then have w: "int64 (clock_ns (sm_clock sm) + step_ns sm)" using Suc.prems by (simp add: int64_def)
  note s = steps_to_Suc [OF less Suc.prems(1)]
  have "run_loop finish dt (sim_step dt sm) = Some ((sim_step dt ^^ n) (sim_step dt sm))"
    using Suc.hyps(1) [of "sim_step dt sm"] Suc.hyps(2) Suc.prems w s by simp
  moreover have "run_loop finish dt sm = run_loop finish dt (sim_step dt sm)"
    using less by (subst run_loop.simps) (simp add: sim_now_def)
  ultimately show ?case unfolding Suc.hyps(2) [symmetric] by (simp add: funpow_swap1)
qed

lemma steps_clock:
  assumes "0 < step_ns sm" and "int64 (clock_ns (sm_clock sm))" and "finish + step_ns sm < 2 ^ 63"
    and "n \<le> steps_to finish (clock_ns (sm_clock sm)) (step_ns sm)"
  shows "clock_ns (sm_clock ((sim_step dt ^^ n) sm)) = clock_ns (sm_clock sm) + int n * step_ns sm
    \<and> step_ns ((sim_step dt ^^ n) sm) = step_ns sm"
  using assms(4)
proof (induction n)
  case (Suc n)
  let ?t = "clock_ns (sm_clock sm)" and ?d = "step_ns sm"
  have "int (Suc n) \<le> (finish - ?t + ?d - 1) div ?d" using Suc.prems by (simp add: steps_to_def)
  then have "int (Suc n) * ?d \<le> (finish - ?t + ?d - 1) div ?d * ?d" using assms(1) by (intro mult_right_mono) simp_all
  also have "\<dots> \<le> finish - ?t + ?d - 1"
    using div_mult_mod_eq [of "finish - ?t + ?d - 1" ?d] pos_mod_sign [OF assms(1)] by (smt (verit))
  finally have up: "?t + int (Suc n) * ?d \<le> finish + ?d - 1" by simp
  have "0 \<le> int (Suc n) * ?d" using assms(1) by simp
  then have "int64 (?t + int (Suc n) * ?d)" using up assms(2,3) by (simp add: int64_def)
  then have w: "wrap64 (?t + int (Suc n) * ?d) = ?t + int (Suc n) * ?d" by simp
  have ih: "clock_ns (sm_clock ((sim_step dt ^^ n) sm)) = ?t + int n * ?d"
      "step_ns ((sim_step dt ^^ n) sm) = ?d" using Suc by simp_all
  have "?t + int n * ?d + ?d = ?t + int (Suc n) * ?d" by (simp add: algebra_simps)
  then have "wrap64 (?t + int n * ?d + ?d) = ?t + int (Suc n) * ?d" using w by (simp only:)
  then show ?case using ih by simp
qed simp

lemma prime_clock [simp]:
  "sm_clock (sim_prime sm) = sm_clock sm" "step_ns (sim_prime sm) = step_ns sm"
  "warmup_ns (sim_prime sm) = warmup_ns sm" "measure_ns (sim_prime sm) = measure_ns sm"
  by (simp_all add: sim_prime_def Let_def)

lemma run_loop_stuck:
  assumes "step_ns sm = 0" and "int64 (clock_ns (sm_clock sm))" and "clock_ns (sm_clock sm) < finish"
  shows "run_loop finish dt sm = None"
proof (rule ccontr)
  assume "run_loop finish dt sm \<noteq> None"
  then obtain r where r: "run_loop finish dt sm = Some r" by blast
  have "step_ns sm = 0 \<longrightarrow> int64 (clock_ns (sm_clock sm)) \<longrightarrow> finish \<le> clock_ns (sm_clock sm)"
  proof (rule run_loop.raw_induct [OF _ r])
    fix loop :: "int \<Rightarrow> f64 \<Rightarrow> sim \<Rightarrow> sim option" and finish dt sm r
    assume ih: "\<And>finish dt sm r. loop finish dt sm = Some r
        \<Longrightarrow> step_ns sm = 0 \<longrightarrow> int64 (clock_ns (sm_clock sm)) \<longrightarrow> finish \<le> clock_ns (sm_clock sm)"
      and eq: "(if sim_now (sm_clock sm) < finish then loop finish dt (sim_step dt sm) else Some sm) = Some r"
    show "step_ns sm = 0 \<longrightarrow> int64 (clock_ns (sm_clock sm)) \<longrightarrow> finish \<le> clock_ns (sm_clock sm)"
    proof (cases "clock_ns (sm_clock sm) < finish")
      case True
      with eq ih [of finish dt "sim_step dt sm" r] show ?thesis by (auto simp: sim_now_def)
    qed simp
  qed
  with assms show False by simp
qed

text \<open>
  C34. Run ends: started before the end of its measurement, with a step of positive length and times that
  fit in 64 bits, it returns, with the clock at the first step at or after the end of the measurement;
  with a step of length zero it never returns.
\<close>

theorem sim_run_returns:
  assumes "int64 (clock_ns (sm_clock sm))" and "clock_ns (sm_clock sm) < warmup_ns sm + measure_ns sm"
    and "0 \<le> step_ns sm" and "warmup_ns sm + measure_ns sm + step_ns sm < 2 ^ 63"
  shows "(step_ns sm = 0 \<longrightarrow> sim_run sm = None)
    \<and> (0 < step_ns sm \<longrightarrow> (\<exists>rates sm'. sim_run sm = Some (rates, sm')
         \<and> warmup_ns sm + measure_ns sm \<le> clock_ns (sm_clock sm')
         \<and> clock_ns (sm_clock sm') < warmup_ns sm + measure_ns sm + step_ns sm))"
proof -
  let ?e = "warmup_ns sm + measure_ns sm" and ?t = "clock_ns (sm_clock sm)" and ?d = "step_ns sm"
  have w: "wrap64 ?e = ?e" using assms by (intro wrap64_id) (simp add: int64_def)
  have "sim_run sm = None" if "?d = 0"
    using run_loop_stuck [of "sim_prime sm"] that assms by (simp add: sim_run_def w)
  moreover have "\<exists>rates sm'. sim_run sm = Some (rates, sm') \<and> ?e \<le> clock_ns (sm_clock sm')
      \<and> clock_ns (sm_clock sm') < ?e + ?d" if d: "0 < ?d"
  proof -
    define N where "N = steps_to ?e ?t ?d"
    define r where "r = (sim_step (sim_dt sm) ^^ N) (sim_prime sm)"
    have "run_loop ?e (sim_dt sm) (sim_prime sm) = Some r"
      using run_loop_iterates [of "sim_prime sm" ?e "sim_dt sm"] d assms by (simp add: r_def N_def)
    moreover have "clock_ns (sm_clock r) = ?t + int N * ?d"
      using steps_clock [of "sim_prime sm" ?e N "sim_dt sm"] d assms by (simp add: r_def N_def)
    moreover have "?e - ?t \<le> int N * ?d \<and> int N * ?d < ?e - ?t + ?d"
    proof -
      have "0 \<le> (?e - ?t + ?d - 1) div ?d" using assms(2) d by (simp add: pos_imp_zdiv_nonneg_iff)
      then have "int N * ?d = (?e - ?t + ?d - 1) div ?d * ?d" by (simp add: N_def steps_to_def)
      then show ?thesis
        using div_mult_mod_eq [of "?e - ?t + ?d - 1" ?d] pos_mod_sign [OF d, of "?e - ?t + ?d - 1"]
          pos_mod_bound [OF d, of "?e - ?t + ?d - 1"] by linarith
    qed
    ultimately show ?thesis by (auto simp: sim_run_def w Let_def)
  qed
  ultimately show ?thesis by blast
qed

section \<open>What every step keeps\<close>

text \<open>The delay of a full queue in nanoseconds, as \<open>step\<close> computes it.\<close>

definition full_delay :: "link \<Rightarrow> f64" where
  "full_delay l = f_mul (f_div (buffer_bytes l) (capacity l)) (f_int ns_per_s)"

definition max_rtt :: "link \<Rightarrow> int" where
  "max_rtt l = base_rtt l + f_trunc (full_delay l)"

text \<open>A sensible experiment: what is fixed while it runs.\<close>

definition experiment_ok :: "sim \<Rightarrow> bool" where
  "experiment_ok sm \<longleftrightarrow> 0 < step_ns sm \<and> step_ns sm < 2 ^ 62
     \<and> (\<exists>c b D. capacity (sm_link sm) = Fin c \<and> 0 < c \<and> c \<le> 2 ^ 900
          \<and> buffer_bytes (sm_link sm) = Fin b \<and> 0 \<le> b
          \<and> full_delay (sm_link sm) = Fin D \<and> D < 2 ^ 63
          \<and> 0 \<le> base_rtt (sm_link sm) \<and> base_rtt (sm_link sm) + f_trunc (Fin D) < 2 ^ 63)
     \<and> (\<exists>m. mss (sm_tcp sm) = Fin m \<and> 0 < m) \<and> fin_nonneg (tcp_min (sm_tcp sm))
     \<and> 0 \<le> min_bps (sm_controller sm) \<and> max_bps (sm_controller sm) < 2 ^ 63"

definition sim_ok :: "sim \<Rightarrow> bool" where
  "sim_ok sm \<longleftrightarrow> experiment_ok sm \<and> rate_ok (sm_controller sm)
     \<and> (\<exists>q b. link_queue (sm_link sm) = Fin q \<and> buffer_bytes (sm_link sm) = Fin b \<and> 0 \<le> q \<and> q \<le> b)
     \<and> nonneg (tcp_rate (sm_tcp sm)) \<and> \<not> f_less (tcp_rate (sm_tcp sm)) (tcp_min (sm_tcp sm))
     \<and> nonneg (ctrl_bytes sm)"

lemma int_fin:
  assumes "0 \<le> n" and "n < 2 ^ 63"
  obtains y where "f_int n = Fin y" "0 \<le> y" "y \<le> 2 powi 63" "y = grid (of_int n)"
proof -
  have "(of_int n :: rat) \<le> of_int (2 ^ 63)" using assms by (simp only: of_int_le_iff)
  then have "(of_int n :: rat) \<le> 2 powi 63" by (simp only: power_int_numeral of_int_power of_int_numeral)
  with assms show ?thesis
    using round64_fin_le [of "of_int n" 63] that by (auto simp: f_int_def)
qed

lemma second_fin: "f_int ns_per_s = Fin 1000000000"
  using round64_int [of 1000000000] by (simp add: f_int_def ns_per_s_def ns_per_ms_def)

text \<open>The length of a step in seconds is a positive finite number.\<close>

lemma dt_fin:
  assumes "0 < step_ns sm" and "step_ns sm < 2 ^ 63"
  obtains y where "sim_dt sm = Fin y" "0 < y" "y \<le> 2 powi 63"
proof -
  obtain g where g: "f_int (step_ns sm) = Fin g" "0 \<le> g" "g \<le> 2 powi 63" "g = grid (of_int (step_ns sm))"
    by (rule int_fin [of "step_ns sm"]) (use assms in simp_all)
  have "grid 1 \<le> g" unfolding g(4) using assms(1) by (intro grid_mono) simp_all
  then have g1: "1 \<le> g" using grid_powi [of 0] by simp
  have "g / 1000000000 \<le> g" using g(2) by simp
  then have le: "g / 1000000000 \<le> 2 powi 63" using g(3) by linarith
  obtain y where y: "round64 (g / 1000000000) = Fin y" "0 \<le> y" "y \<le> 2 powi 63" "y = grid (g / 1000000000)"
    by (rule round64_fin_le [of "g / 1000000000" 63]) (use g(2) le in simp_all)
  have "(2 :: rat) powi (- 1074) \<le> 2 powi (- 30)" by (simp only: powi_le_iff)
  also have "(2 :: rat) powi (- 30) = 1 / 1073741824" by (simp only: power_int_minus power_int_numeral) simp
  also have "\<dots> \<le> g / 1000000000" using g1 by simp
  finally have "0 < y" unfolding y(4) by (rule grid_pos)
  moreover have "sim_dt sm = Fin y" using y(1) g(1) by (simp add: sim_dt_def second_fin)
  ultimately show ?thesis using that y(3) by blast
qed

lemma served_unit:
  assumes "0 \<le> d" and "nonneg load"
  obtains y where "served_fraction (Fin d) load = Fin y" "0 \<le> y" "y \<le> 1"
proof -
  have one: "grid 1 = 1" using grid_powi [of 0] by simp
  from assms(2) show ?thesis
  proof (cases rule: nonneg_cases)
    case (1 x)
    show ?thesis
    proof (cases "d < x")
      case True
      then have q: "0 \<le> d / x" "d / x \<le> 1" using assms(1) by simp_all
      have "round64 1 = Fin 1" using round64_int [of 1] by simp
      then obtain y where "round64 (d / x) = Fin y" "0 \<le> y" "y \<le> 1" using round64_le_fin [OF q] by auto
      with True 1 assms(1) show ?thesis by (intro that [of y]) (simp_all add: served_fraction_def)
    next
      case False
      with 1 show ?thesis by (intro that [of 1]) (simp_all add: served_fraction_def)
    qed
  next
    case 2
    then show ?thesis by (intro that [of 0]) (simp_all add: served_fraction_def)
  qed
qed

text \<open>The delay of a queue that fits the buffer is at most the delay of a full one.\<close>

lemma delay_bounded:
  assumes "capacity l = Fin c" "0 < c" "buffer_bytes l = Fin b" "full_delay l = Fin D" "D < 2 ^ 63"
    and "0 \<le> q" "q \<le> b"
  shows "0 \<le> f_trunc (f_mul (f_div (Fin q) (Fin c)) (f_int ns_per_s))
    \<and> f_trunc (f_mul (f_div (Fin q) (Fin c)) (f_int ns_per_s)) \<le> f_trunc (Fin D)"
proof -
  have c0: "c \<noteq> 0" using assms(2) by simp
  obtain x where x: "round64 (b / c) = Fin x" "round64 (x * 1000000000) = Fin D"
    using assms(1,3,4) c0 by (cases "round64 (b / c)") (auto simp: full_delay_def second_fin inf_sign_def split: if_splits)
  have "0 \<le> q / c" "q / c \<le> b / c" using assms(2,6,7) by (simp_all add: divide_right_mono)
  then obtain u where u: "round64 (q / c) = Fin u" "0 \<le> u" "u \<le> x" using round64_le_fin x(1) by blast
  then obtain v where v: "round64 (u * 1000000000) = Fin v" "0 \<le> v" "v \<le> D"
    using round64_le_fin [of "u * 1000000000" "x * 1000000000" D] x(2) by auto
  show ?thesis using f_trunc_mono [OF v(2,3) assms(5)] c0 by (simp add: u(1) v(1) second_fin)
qed

lemma tcp_tick_ok:
  assumes "mss f = Fin m" "0 < m" "nonneg (tcp_rate f)" "fin_nonneg (tcp_min f)" "0 \<le> rtt" "rtt < 2 ^ 63"
    and "\<not> f_less (tcp_rate f) (tcp_min f)"
  shows "nonneg (tcp_rate (tcp_tick t rtt f)) \<and> \<not> f_less (tcp_rate (tcp_tick t rtt f)) (tcp_min f)
    \<and> mss (tcp_tick t rtt f) = mss f \<and> tcp_min (tcp_tick t rtt f) = tcp_min f"
proof -
  obtain g where g: "f_int rtt = Fin g" "0 \<le> g" "g \<le> 2 powi 63" by (rule int_fin [OF assms(5,6)])
  have "g / 1000000000 \<le> g" using g(2) by simp
  then have le: "g / 1000000000 \<le> 2 powi 63" using g(3) by linarith
  obtain h where h: "round64 (g / 1000000000) = Fin h" "0 \<le> h"
    by (rule round64_fin_le [of "g / 1000000000" 63]) (use g(2) le in simp_all)
  have "nonneg (f_div (mss f) (f_div (f_int rtt) (f_int ns_per_s)))"
    using assms(1,2) h by (simp add: g(1) second_fin inf_sign_def round64_nonneg)
  then have up: "nonneg (f_add (tcp_rate f) (f_div (mss f) (f_div (f_int rtt) (f_int ns_per_s))))"
    by (rule f_add_nonneg [OF assms(3)])
  have down: "nonneg (f_mul (tcp_rate f) (Fin (1 / 2)))"
    using assms(3) by (cases rule: nonneg_cases) (simp_all add: round64_nonneg inf_sign_def)
  show ?thesis
    using up down assms(3,4,7) by (auto simp: tcp_tick_def Let_def intro: fin_nonneg_nonneg)
qed

lemma controller_step:
  assumes "rate_ok c"
  shows "rate_ok (observe_loss c) \<and> cc_limits (observe_loss c) = cc_limits c"
    "rate_ok (feedback t rtt c) \<and> cc_limits (feedback t rtt c) = cc_limits c"
    "rate_ok (tick t q c) \<and> cc_limits (tick t q c) = cc_limits c"
  using step_rate [OF assms, of Loss] step_rate [OF assms, of "Feedback t rtt"] step_rate [OF assms, of "Tick t q"]
  by simp_all

text \<open>What the two flows offer and what the link can serve in a step.\<close>

lemma offers_ok:
  assumes "sim_ok sm"
  obtains x y d where "f_mul (cc_rate (sm_controller sm)) (sim_dt sm) = Fin x" "0 \<le> x"
    "sim_dt sm = Fin y" "nonneg (f_mul (tcp_rate (sm_tcp sm)) (sim_dt sm))"
    "f_mul (capacity (sm_link sm)) (sim_dt sm) = Fin d" "0 \<le> d"
proof -
  from assms have e: "experiment_ok sm" "rate_ok (sm_controller sm)" "nonneg (tcp_rate (sm_tcp sm))"
    by (simp_all add: sim_ok_def)
  then have rate: "0 \<le> rate_bps (sm_controller sm)" "rate_bps (sm_controller sm) < 2 ^ 63"
    by (simp_all add: experiment_ok_def rate_ok_def)
  from e(1) obtain c where c: "capacity (sm_link sm) = Fin c" "0 < c" "c \<le> 2 ^ 900"
    by (auto simp: experiment_ok_def)
  obtain y where y: "sim_dt sm = Fin y" "0 < y" "y \<le> 2 powi 63"
    by (rule dt_fin [of sm]) (use e(1) in \<open>simp_all add: experiment_ok_def\<close>)
  obtain g where g: "f_int (rate_bps (sm_controller sm)) = Fin g" "0 \<le> g" "g \<le> 2 powi 63"
    by (rule int_fin [OF rate])
  have c': "c \<le> 2 powi 900" using c(3) by (simp only: power_int_numeral)
  have p: "u * v \<le> 2 powi (m + k)" if "0 \<le> u" "u \<le> 2 powi m" "0 \<le> v" "v \<le> 2 powi k" for u v :: rat and m k
  proof -
    have "u * v \<le> 2 powi m * 2 powi k" using that by (intro mult_mono) simp_all
    also have "(2 :: rat) powi m * 2 powi k = 2 powi (m + k)" by (rule power_int_add [symmetric]) simp
    finally show ?thesis .
  qed
  obtain x where x: "round64 (g * y) = Fin x" "0 \<le> x"
    by (rule round64_fin_le [of "g * y" "63 + 63"]) (use p [OF g(2,3) _ y(3)] g y in simp_all)
  obtain d where d: "round64 (c * y) = Fin d" "0 \<le> d"
    by (rule round64_fin_le [of "c * y" "900 + 63"]) (use p [OF _ c' _ y(3)] c y in simp_all)
  have "nonneg (f_mul (tcp_rate (sm_tcp sm)) (Fin y))"
    using e(3) y(2) by (cases rule: nonneg_cases) (simp_all add: round64_nonneg inf_sign_def)
  with x d y(1) g(1) c(1) show ?thesis using that [of x y d] by (simp add: cc_rate_def)
qed

lemma link_step_delay:
  "link_step load dt l = (lost, qd, l') \<Longrightarrow> qd = f_trunc (f_mul (f_div (link_queue l') (capacity l)) (f_int ns_per_s))"
  by (auto simp: link_step_def Let_def)

text \<open>The queueing delay and the round-trip time that a step measures.\<close>

lemma link_step_ok:
  assumes "sim_ok sm" and "nonneg load" and "f_mul (capacity (sm_link sm)) (sim_dt sm) = Fin d" and "0 \<le> d"
    and "link_step load (sim_dt sm) (sm_link sm) = (lost, qd, l)"
  obtains q' b where "buffer_bytes (sm_link sm) = Fin b" "0 \<le> q'" "q' \<le> b" "l = (sm_link sm)\<lparr>link_queue := Fin q'\<rparr>"
    and "0 \<le> rtt_ns l qd" and "rtt_ns l qd \<le> max_rtt (sm_link sm)" and "max_rtt (sm_link sm) < 2 ^ 63"
proof -
  obtain q b where q: "link_queue (sm_link sm) = Fin q" "buffer_bytes (sm_link sm) = Fin b" "0 \<le> q" "q \<le> b"
    using assms(1) by (auto simp: sim_ok_def)
  have "experiment_ok sm" using assms(1) by (simp add: sim_ok_def)
  then obtain c D where c: "capacity (sm_link sm) = Fin c" "0 < c" "full_delay (sm_link sm) = Fin D" "D < 2 ^ 63"
    "0 \<le> base_rtt (sm_link sm)" "base_rtt (sm_link sm) + f_trunc (Fin D) < 2 ^ 63"
    using q(2) by (auto simp: experiment_ok_def)
  have "0 \<le> b" using q(3,4) by simp
  then obtain q' where q': "0 \<le> q'" "q' \<le> b" "l = (sm_link sm)\<lparr>link_queue := Fin q'\<rparr>"
    using link_queue_bounded [OF q(1,3,2) _ assms(2-5)] by blast
  have "qd = f_trunc (f_mul (f_div (Fin q') (Fin c)) (f_int ns_per_s))"
    using link_step_delay [OF assms(5)] by (simp add: q'(3) c(1))
  then have qd: "0 \<le> qd" "qd \<le> f_trunc (Fin D)" using delay_bounded [OF c(1,2) q(2) c(3,4) q'(1,2)] by simp_all
  then have "int64 (base_rtt (sm_link sm) + qd)" "base_rtt (sm_link sm) + qd < 2 ^ 63" using c(5,6) by (simp_all add: int64_def)
  with that [OF q(2) q'] c(3,5,6) qd show ?thesis by (simp add: rtt_ns_def max_rtt_def q'(3))
qed

text \<open>The controller after a possible loss, a possible feedback and its tick.\<close>

lemma controller_round:
  assumes "rate_ok c" and "c1 = (if lost then observe_loss c else c)" and "c2 = (if fb then feedback t r c1 else c1)"
  shows "rate_ok (tick u qd c2)" and "cc_limits (tick u qd c2) = cc_limits c"
proof -
  have "rate_ok c1 \<and> cc_limits c1 = cc_limits c" using controller_step(1) [OF assms(1)] assms(1,2) by simp
  then have "rate_ok c2 \<and> cc_limits c2 = cc_limits c" using controller_step(2) assms(3) by simp
  then show "rate_ok (tick u qd c2)" "cc_limits (tick u qd c2) = cc_limits c" using controller_step(3) by simp_all
qed

lemma sim_step_ok:
  assumes "sim_ok sm"
  shows "sim_ok (sim_step (sim_dt sm) sm)
    \<and> cc_limits (sm_controller (sim_step (sim_dt sm) sm)) = cc_limits (sm_controller sm)
    \<and> buffer_bytes (sm_link (sim_step (sim_dt sm) sm)) = buffer_bytes (sm_link sm)
    \<and> tcp_min (sm_tcp (sim_step (sim_dt sm) sm)) = tcp_min (sm_tcp sm)"
proof -
  obtain x y d where o: "f_mul (cc_rate (sm_controller sm)) (sim_dt sm) = Fin x" "0 \<le> x" "sim_dt sm = Fin y"
    "nonneg (f_mul (tcp_rate (sm_tcp sm)) (sim_dt sm))"
    "f_mul (capacity (sm_link sm)) (sim_dt sm) = Fin d" "0 \<le> d"
    by (rule offers_ok [OF assms])
  define load where "load = f_add (Fin x) (f_mul (tcp_rate (sm_tcp sm)) (sim_dt sm))"
  have load: "nonneg load" unfolding load_def by (rule f_add_nonneg) (use o in simp_all)
  have e: "experiment_ok sm" "rate_ok (sm_controller sm)" using assms by (simp_all add: sim_ok_def)
  obtain lost qd l where l: "link_step load (sim_dt sm) (sm_link sm) = (lost, qd, l)" using prod_cases3 by blast
  obtain q' b where q: "buffer_bytes (sm_link sm) = Fin b" and q': "0 \<le> q'" "q' \<le> b" "l = (sm_link sm)\<lparr>link_queue := Fin q'\<rparr>"
    and rtt: "0 \<le> rtt_ns l qd" "rtt_ns l qd \<le> max_rtt (sm_link sm)" "max_rtt (sm_link sm) < 2 ^ 63"
    by (rule link_step_ok [OF assms load o(5,6) l])
  define f1 where "f1 = (if lost then tcp_observe_loss (sm_tcp sm) else sm_tcp sm)"
  have f1: "mss f1 = mss (sm_tcp sm)" "tcp_rate f1 = tcp_rate (sm_tcp sm)" "tcp_min f1 = tcp_min (sm_tcp sm)"
    by (simp_all add: f1_def tcp_observe_loss_def)
  obtain m where m: "mss (sm_tcp sm) = Fin m" "0 < m" using e(1) by (auto simp: experiment_ok_def)
  have tcp: "nonneg (tcp_rate (tcp_tick t (rtt_ns l qd) f1)) \<and> \<not> f_less (tcp_rate (tcp_tick t (rtt_ns l qd) f1)) (tcp_min f1)
      \<and> mss (tcp_tick t (rtt_ns l qd) f1) = mss f1 \<and> tcp_min (tcp_tick t (rtt_ns l qd) f1) = tcp_min f1" for t
    by (rule tcp_tick_ok [of f1 m]) (use assms m f1 rtt in \<open>simp_all add: sim_ok_def experiment_ok_def\<close>)
  obtain fr where fr: "served_fraction (Fin d) load = Fin fr" "0 \<le> fr" by (rule served_unit [OF o(6) load])
  have bytes: "nonneg (f_add (ctrl_bytes sm) (f_mul (Fin x) (Fin fr)))"
    using assms o(2) fr(2) by (intro f_add_nonneg) (simp_all add: sim_ok_def round64_nonneg)
  define c1 where "c1 = (if lost then observe_loss (sm_controller sm) else sm_controller sm)"
  define c2 where "c2 = (if \<not> (stale_feed sm \<and> sim_now (sm_clock sm) \<ge> warmup_ns sm)
    then feedback (sim_now (sm_clock sm)) (rtt_ns l qd) c1 else c1)"
  note ctl = controller_round [OF e(2) c1_def c2_def]
  then have lim: "min_bps (tick t qd c2) = min_bps (sm_controller sm)" "max_bps (tick t qd c2) = max_bps (sm_controller sm)" for t
    by (simp_all add: cc_limits_def)
  have cap: "capacity l = capacity (sm_link sm)" by (simp add: q'(3))
  let ?S = "sim_step (sim_dt sm) sm" and ?t = "sim_now (sm_clock sm)"
  have step: "sm_link ?S = l" "sm_controller ?S = tick ?t qd c2" "sm_tcp ?S = tcp_tick ?t (rtt_ns l qd) f1"
    "ctrl_bytes ?S \<in> {ctrl_bytes sm, f_add (ctrl_bytes sm) (f_mul (Fin x) (Fin fr))}"
    by (simp_all add: sim_step_def Let_def o(1) l [unfolded load_def] c2_def c1_def f1_def
        fr(1) [unfolded load_def] cap o(5))
  then have "nonneg (ctrl_bytes ?S)" using bytes assms by (auto simp: sim_ok_def)
  then show ?thesis
    using assms q q' ctl tcp f1 lim step
    by (simp add: sim_ok_def experiment_ok_def full_delay_def)
qed

lemma sim_steps_ok:
  assumes "sim_ok sm"
  shows "sim_ok ((sim_step (sim_dt sm) ^^ n) sm) \<and> step_ns ((sim_step (sim_dt sm) ^^ n) sm) = step_ns sm
    \<and> cc_limits (sm_controller ((sim_step (sim_dt sm) ^^ n) sm)) = cc_limits (sm_controller sm)
    \<and> buffer_bytes (sm_link ((sim_step (sim_dt sm) ^^ n) sm)) = buffer_bytes (sm_link sm)
    \<and> tcp_min (sm_tcp ((sim_step (sim_dt sm) ^^ n) sm)) = tcp_min (sm_tcp sm)"
proof (induction n)
  case (Suc n)
  have "sim_dt ((sim_step (sim_dt sm) ^^ n) sm) = sim_dt sm" using Suc by (simp add: sim_dt_def)
  with Suc sim_step_ok [of "(sim_step (sim_dt sm) ^^ n) sm"] show ?case by simp
qed (simp add: assms)

lemma sim_prime_ok:
  assumes "sim_ok sm"
  shows "sim_ok (sim_prime sm) \<and> sim_dt (sim_prime sm) = sim_dt sm
    \<and> cc_limits (sm_controller (sim_prime sm)) = cc_limits (sm_controller sm)
    \<and> buffer_bytes (sm_link (sim_prime sm)) = buffer_bytes (sm_link sm)
    \<and> tcp_min (sm_tcp (sim_prime sm)) = tcp_min (sm_tcp sm)"
  using assms controller_step(2) [of "sm_controller sm" "sim_now (sm_clock sm)" "rtt_ns (sm_link sm) 0"]
  by (auto simp: sim_ok_def experiment_ok_def sim_prime_def sim_dt_def Let_def rate_ok_def cc_limits_def full_delay_def)

text \<open>
  C33. A whole experiment stays within its limits, whatever is lost and however the rates move:
  Run returns, and in the state it leaves the controller's rate is between its minimum and
  maximum, the queue fits the buffer, the reference flow is not below its minimum, and the bytes
  credited to the controller are not negative.
\<close>

theorem sim_run_within_limits:
  assumes "sim_ok sm" and "int64 (clock_ns (sm_clock sm))"
    and "int64 (warmup_ns sm + measure_ns sm)" and "warmup_ns sm + measure_ns sm + step_ns sm < 2 ^ 63"
  shows "\<exists>rates sm' q b. sim_run sm = Some (rates, sm')
    \<and> min_bps (sm_controller sm) \<le> rate_bps (sm_controller sm')
    \<and> rate_bps (sm_controller sm') \<le> max_bps (sm_controller sm)
    \<and> buffer_bytes (sm_link sm) = Fin b \<and> link_queue (sm_link sm') = Fin q \<and> 0 \<le> q \<and> q \<le> b
    \<and> \<not> f_less (tcp_rate (sm_tcp sm')) (tcp_min (sm_tcp sm)) \<and> nonneg (ctrl_bytes sm')"
proof -
  define P where "P = sim_prime sm"
  note prime = sim_prime_ok [OF assms(1), folded P_def]
  define N where "N = steps_to (warmup_ns sm + measure_ns sm) (clock_ns (sm_clock P)) (step_ns P)"
  define r where "r = (sim_step (sim_dt P) ^^ N) P"
  have "0 < step_ns sm" using assms(1) by (simp add: sim_ok_def experiment_ok_def)
  then have run: "run_loop (warmup_ns sm + measure_ns sm) (sim_dt sm) P = Some r"
    using run_loop_iterates [of P "warmup_ns sm + measure_ns sm" "sim_dt P"] assms(2,4) prime
    by (simp add: r_def N_def P_def)
  from sim_steps_ok [of P N] prime
  have ok: "sim_ok r" "cc_limits (sm_controller r) = cc_limits (sm_controller sm)"
    "buffer_bytes (sm_link r) = buffer_bytes (sm_link sm)" "tcp_min (sm_tcp r) = tcp_min (sm_tcp sm)"
    by (simp_all add: r_def)
  obtain rates where "sim_run sm = Some (rates, r)"
    using run assms(3) by (auto simp: sim_run_def P_def Let_def)
  with ok show ?thesis by (auto simp: sim_ok_def rate_ok_def cc_limits_def)
qed

section \<open>The fairness index\<close>

text \<open>The gap in the inequality of Cauchy and Schwarz for the list and the constant list.\<close>

lemma spread_Cons:
  fixes x :: int
  shows "int (length (x # xs)) * sum_list (map (\<lambda>y. y * y) (x # xs)) - (sum_list (x # xs))\<^sup>2
    = int (length xs) * sum_list (map (\<lambda>y. y * y) xs) - (sum_list xs)\<^sup>2 + sum_list (map (\<lambda>y. (x - y)\<^sup>2) xs)"
proof -
  have "sum_list (map (\<lambda>y. (x - y)\<^sup>2) xs)
      = int (length xs) * (x * x) - 2 * x * sum_list xs + sum_list (map (\<lambda>y. y * y) xs)"
    by (induction xs) (simp_all add: power2_eq_square algebra_simps)
  then show ?thesis by (simp add: power2_eq_square algebra_simps)
qed

lemma squares_nonneg: "0 \<le> sum_list (map (\<lambda>y. (x - y)\<^sup>2) xs)" for x :: int
  by (induction xs) simp_all

lemma spread_nonneg: "(sum_list xs)\<^sup>2 \<le> int (length xs) * sum_list (map (\<lambda>y. y * y) xs)" for xs :: "int list"
proof (induction xs)
  case (Cons x xs)
  then show ?case using spread_Cons [of x xs] squares_nonneg [of x xs] by simp
qed simp

lemma squares_zero: "sum_list (map (\<lambda>y. (x - y)\<^sup>2) xs) = 0 \<longleftrightarrow> (\<forall>y \<in> set xs. y = x)" for x :: int
proof (induction xs)
  case (Cons z zs)
  have "0 \<le> (x - z)\<^sup>2" by simp
  with Cons squares_nonneg [of x zs] show ?case by (auto simp: add_nonneg_eq_0_iff)
qed simp

lemma spread_zero:
  fixes xs :: "int list"
  shows "(sum_list xs)\<^sup>2 = int (length xs) * sum_list (map (\<lambda>y. y * y) xs) \<longleftrightarrow> (\<forall>x \<in> set xs. \<forall>y \<in> set xs. x = y)"
proof (induction xs)
  case (Cons x xs)
  have "(sum_list (x # xs))\<^sup>2 = int (length (x # xs)) * sum_list (map (\<lambda>y. y * y) (x # xs))
      \<longleftrightarrow> (sum_list xs)\<^sup>2 = int (length xs) * sum_list (map (\<lambda>y. y * y) xs) \<and> (\<forall>y \<in> set xs. y = x)"
    using spread_Cons [of x xs] spread_nonneg [of xs] squares_nonneg [of x xs] squares_zero [of x xs] by linarith
  with Cons show ?case by auto
qed simp

lemma exact_sum: "0 \<le> a \<Longrightarrow> 0 \<le> n \<Longrightarrow> a + n < 2 ^ 53 \<Longrightarrow> f_add (Fin (of_int a)) (Fin (of_int n)) = Fin (of_int (a + n))"
  using round64_int [of "a + n"] by simp

lemma exact_product: "0 \<le> a \<Longrightarrow> 0 \<le> n \<Longrightarrow> a * n < 2 ^ 53 \<Longrightarrow> f_mul (Fin (of_int a)) (Fin (of_int n)) = Fin (of_int (a * n))"
  using round64_int [of "a * n"] by simp

lemma sum_list_squares_nonneg: "0 \<le> sum_list (map (\<lambda>y. y * y) xs)" for xs :: "int list"
  by (induction xs) simp_all

lemma jain_sums_exact:
  assumes "\<forall>x \<in> set xs. 0 \<le> x" and "0 \<le> a" and "0 \<le> b"
    and "a + sum_list xs < 2 ^ 53" and "b + sum_list (map (\<lambda>y. y * y) xs) < 2 ^ 53"
  shows "foldl (\<lambda>(s, q) r. (f_add s r, f_add q (f_mul r r))) (Fin (of_int a), Fin (of_int b))
      (map (\<lambda>x. Fin (of_int x)) xs)
    = (Fin (of_int (a + sum_list xs)), Fin (of_int (b + sum_list (map (\<lambda>y. y * y) xs))))"
  using assms
proof (induction xs arbitrary: a b)
  case (Cons x xs)
  have x: "0 \<le> x" "0 \<le> sum_list xs" using Cons.prems(1) by (simp_all add: sum_list_nonneg)
  have q: "0 \<le> sum_list (map (\<lambda>y. y * y) xs)" by (rule sum_list_squares_nonneg)
  have "0 \<le> x * x" by simp
  then have "x * x < 2 ^ 53" "b + x * x < 2 ^ 53" "a + x < 2 ^ 53" using Cons.prems x q by simp_all
  then have "f_add (Fin (of_int a)) (Fin (of_int x)) = Fin (of_int (a + x))"
    "f_add (Fin (of_int b)) (f_mul (Fin (of_int x)) (Fin (of_int x))) = Fin (of_int (b + x * x))"
    using exact_sum [of a x] exact_sum [of b "x * x"] exact_product [of x x] Cons.prems(2,3) x by simp_all
  with Cons.IH [of "a + x" "b + x * x"] Cons.prems x show ?case
    by (simp del: f_add.simps f_mul.simps add: algebra_simps)
qed simp

text \<open>Rounding does not reach 1 from below when the denominator is small.\<close>

lemma quotient_below_one:
  assumes "0 \<le> p" and "p < q" and "q < 2 ^ 53"
  shows "\<exists>y. round64 (of_int p / of_int q) = Fin y \<and> 0 \<le> y \<and> y < 1"
proof -
  have q: "0 < (of_int q :: rat)" using assms by simp
  define v :: rat where "v = of_int (2 ^ 53 - 1) * 2 powi (- 53)"
  have pw: "(2 :: rat) powi (- 53) = 1 / of_int (2 ^ 53)" by (simp only: power_int_minus power_int_numeral) simp
  have v: "v < 1" "grid v = v" "v = of_int (2 ^ 53 - 1) / of_int (2 ^ 53)"
  proof -
    show "v = of_int (2 ^ 53 - 1) / of_int (2 ^ 53)" by (simp add: v_def pw)
    then show "v < 1" by simp
    show "grid v = v" unfolding v_def by (rule grid_representable) simp_all
  qed
  have "p * 2 ^ 53 \<le> (2 ^ 53 - 1) * q"
  proof -
    have "p * 2 ^ 53 \<le> (q - 1) * 2 ^ 53" using assms(2) by (intro mult_right_mono) simp_all
    also have "\<dots> \<le> (2 ^ 53 - 1) * q" using assms(3) by (simp add: algebra_simps)
    finally show ?thesis .
  qed
  then have "(of_int (p * 2 ^ 53) :: rat) \<le> of_int ((2 ^ 53 - 1) * q)" by (simp only: of_int_le_iff)
  then have le: "(of_int p :: rat) / of_int q \<le> v" using q unfolding v(3) by (simp add: divide_le_eq le_divide_eq field_simps)
  have "0 \<le> (of_int p :: rat) / of_int q" using assms(1) q by simp
  then have "\<exists>u. round64 (of_int p / of_int q) = Fin u \<and> 0 \<le> u \<and> u \<le> v"
  proof (rule round64_le_fin [OF _ le])
    have "0 \<le> v" using le \<open>0 \<le> (of_int p :: rat) / of_int q\<close> by linarith
    moreover have "v \<le> 2 ^ 1023" using v(1) by (rule order.strict_implies_order [THEN order_trans]) simp
    ultimately show "round64 v = Fin v" using round64_fin [of v] v(2) by simp
  qed
  then show ?thesis using v(1) by fastforce
qed

text \<open>With exact sums the index is one rounded quotient, or 1 when all rates are zero.\<close>

lemma jain_quotient:
  fixes xs :: "int list"
  defines "S \<equiv> sum_list xs" and "Q \<equiv> sum_list (map (\<lambda>y. y * y) xs)" and "n \<equiv> int (length xs)"
  assumes "\<forall>x \<in> set xs. 0 \<le> x" and "S * S < 2 ^ 53" and "n * Q < 2 ^ 53" and "n < 2 ^ 53"
  shows "jain (map (\<lambda>x. Fin (of_int x)) xs) =
    (if Q = 0 then Fin 1 else round64 (of_int (S * S) / of_int (n * Q)))" and "Q = 0 \<or> 0 < n * Q"
proof -
  have S: "0 \<le> S" using assms(4) by (simp add: S_def sum_list_nonneg)
  have Q: "0 \<le> Q" unfolding Q_def by (rule sum_list_squares_nonneg)
  have "S \<le> S * S" using S by (cases "S = 0") simp_all
  then have Sb: "S < 2 ^ 53" using assms(5) by simp
  have n: "xs = [] \<or> 1 \<le> n" by (cases xs) (simp_all add: n_def)
  have Qb: "Q < 2 ^ 53"
  proof (cases "xs = []")
    case False
    with n have "1 * Q \<le> n * Q" using Q by (intro mult_right_mono) auto
    then show ?thesis using assms(6) by simp
  qed (simp add: Q_def)
  have sums: "jain_sums (map (\<lambda>x. Fin (of_int x)) xs) = (Fin (of_int S), Fin (of_int Q))"
    using jain_sums_exact [OF assms(4), of 0 0] Sb Qb by (simp add: jain_sums_def S_def Q_def)
  have nz: "Q \<noteq> 0 \<Longrightarrow> n * Q \<noteq> 0" by (auto simp: n_def Q_def)
  then show "Q = 0 \<or> 0 < n * Q" using Q n by (auto simp: n_def order_less_le)
  have "f_int n = Fin (of_int n)" using round64_int [of n] assms(7) by (simp add: f_int_def n_def)
  then have den: "f_mul (f_int n) (Fin (of_int Q)) = Fin (of_int (n * Q))"
    using exact_product [of n Q] Q assms(6) by (simp add: n_def del: f_mul.simps)
  show "jain (map (\<lambda>x. Fin (of_int x)) xs) = (if Q = 0 then Fin 1 else round64 (of_int (S * S) / of_int (n * Q)))"
    using sums den exact_product [of S S] S assms(5) nz by (simp add: jain_def n_def del: f_mul.simps)
qed

text \<open>
  C35. The index of Jain measures fairness: for rates that are integers whose sums are exact in
  binary64 it lies between 0 and 1, and it is 1 exactly when all rates are equal.
\<close>

theorem jain_is_one_iff_equal:
  assumes "\<forall>x \<in> set xs. 0 \<le> x" and "(sum_list xs)\<^sup>2 < 2 ^ 53"
    and "int (length xs) * sum_list (map (\<lambda>y. y * y) xs) < 2 ^ 53" and "int (length xs) < 2 ^ 53"
  shows "\<exists>j. jain (map (\<lambda>x. Fin (of_int x)) xs) = Fin j \<and> 0 \<le> j \<and> j \<le> 1
    \<and> (j = 1 \<longleftrightarrow> (\<forall>x \<in> set xs. \<forall>y \<in> set xs. x = y))"
proof -
  define S Q n where "S = sum_list xs" and "Q = sum_list (map (\<lambda>y. y * y) xs)" and "n = int (length xs)"
  have b: "S * S < 2 ^ 53" "n * Q < 2 ^ 53" "n < 2 ^ 53"
    using assms(2-4) by (simp_all add: S_def Q_def n_def power2_eq_square)
  note j = jain_quotient [OF assms(1), folded S_def Q_def n_def, OF b]
  have cs: "S * S \<le> n * Q" "S * S = n * Q \<longleftrightarrow> (\<forall>x \<in> set xs. \<forall>y \<in> set xs. x = y)"
    using spread_nonneg [of xs] spread_zero [of xs] by (simp_all add: S_def Q_def n_def power2_eq_square)
  consider "Q = 0" | "Q \<noteq> 0" "S * S = n * Q" | "Q \<noteq> 0" "S * S < n * Q" using cs(1) by linarith
  then show ?thesis
  proof cases
    case 1
    then have "S * S = 0" using cs(1) by (metis antisym mult_zero_right zero_le_square)
    with 1 cs(2) j(1) show ?thesis by simp
  next
    case 2
    then have "(of_int (S * S) :: rat) / of_int (n * Q) = 1" using j(2) by auto
    with 2 j(1) have "jain (map (\<lambda>x. Fin (of_int x)) xs) = Fin 1" using round64_int [of 1] by (simp only: if_False) simp
    then show ?thesis using 2 cs(2) by simp
  next
    case 3
    then obtain y where "round64 (of_int (S * S) / of_int (n * Q)) = Fin y" "0 \<le> y" "y < 1"
      using quotient_below_one [of "S * S" "n * Q"] b(2) by auto
    then show ?thesis using 3 j(1) cs(2) by auto
  qed
qed

section \<open>A concrete experiment\<close>

definition sample_sim :: sim where
  "sample_sim = \<lparr>sm_clock = \<lparr>clock_ns = 0\<rparr>,
     sm_link = \<lparr>capacity = Fin 1000, buffer_bytes = Fin 1000, base_rtt = 20000000, link_queue = Fin 0\<rparr>,
     sm_controller = sample_controller,
     sm_tcp = \<lparr>mss = Fin 1200, tcp_rate = Fin 16000, tcp_min = Fin 16000, tcp_next_eval = 0, tcp_lost = False\<rparr>,
     step_ns = 1000000, warmup_ns = 1000000000, measure_ns = 1000000000, stale_feed = False,
     ctrl_bytes = Fin 0, tcp_bytes = Fin 0\<rparr>"

lemma sample_sim_ok: "sim_ok sample_sim"
proof -
  have "round64 1 = Fin 1" "round64 1000000000 = Fin 1000000000"
    using round64_int [of 1] round64_int [of 1000000000] by simp_all
  moreover have "f_trunc (Fin 1000000000) = 1000000000"
    by (simp add: f_trunc_def int64_def floor_numeral Let_def)
  ultimately show ?thesis
    by (simp add: sim_ok_def experiment_ok_def sample_sim_def full_delay_def second_fin
        sample_controller_def rate_ok_def)
qed

theorem sim_run_within_limits_witness:
  "\<exists>rates sm'. sim_run sample_sim = Some (rates, sm') \<and> nonneg (ctrl_bytes sm')"
  using sim_run_within_limits [OF sample_sim_ok] by (auto simp: sample_sim_def int64_def)

theorem sim_run_returns_witness:
  "\<exists>rates sm'. sim_run sample_sim = Some (rates, sm') \<and> 2000000000 \<le> clock_ns (sm_clock sm')"
  using sim_run_returns [of sample_sim] by (auto simp: sample_sim_def int64_def)

theorem jain_is_one_iff_equal_witness:
  "\<exists>j. jain [Fin 3, Fin 3] = Fin j \<and> j = 1"
  using jain_is_one_iff_equal [of "[3, 3]"] by simp

end
