(* ===== verification/StaleFeedback.thy ===== *)
theory StaleFeedback
  imports Phase0Sim
begin

text \<open>
  What the controller of \<open>internal/congestion/phase0sim\<close> does in an experiment whose feedback stops
  after the warm-up: however the link behaves, its rate is at the minimum one evaluation period after
  the last report has become stale, and stays there until Run ends.
\<close>

section \<open>The controller\<close>

lemma srtt_average:
  assumes "0 \<le> s" and "s \<le> R" and "0 \<le> r" and "r \<le> R" and "8 * R < 2 ^ 63"
  shows "0 \<le> go_quot (wrap64 (wrap64 (7 * s) + r)) 8 \<and> go_quot (wrap64 (wrap64 (7 * s) + r)) 8 \<le> R"
proof -
  have "wrap64 (7 * s) = 7 * s" using assms by (intro wrap64_id) (simp add: int64_def)
  moreover have "wrap64 (7 * s + r) = 7 * s + r" using assms by (intro wrap64_id) (simp add: int64_def)
  moreover have "(7 * s + r) div 8 \<le> (8 * R) div 8" using assms by (intro zdiv_mono1) simp_all
  moreover have "0 \<le> (7 * s + r) div 8" using assms by (simp add: pos_imp_zdiv_nonneg_iff)
  ultimately show ?thesis using assms by (simp add: go_quot_nonneg)
qed

lemma feedback_bounds:
  assumes "0 \<le> srtt_ns c" and "srtt_ns c \<le> R" and "0 \<le> r" and "r \<le> R" and "8 * R < 2 ^ 63"
  shows "0 \<le> srtt_ns (feedback t r c) \<and> srtt_ns (feedback t r c) \<le> R \<and> last_feedback (feedback t r c) = t
    \<and> next_eval (feedback t r c) = next_eval c \<and> rate_bps (feedback t r c) = rate_bps c"
  using assms srtt_average [of "srtt_ns c" R r] by (simp add: feedback_def Let_def)

lemma evaluate_keeps:
  "srtt_ns (evaluate t q c) = srtt_ns c" "last_feedback (evaluate t q c) = last_feedback c"
  "stale_ns (evaluate t q c) = stale_ns c"
  by (simp_all add: evaluate_def clamp_def Let_def)

lemma tick_keeps:
  "srtt_ns (tick t q c) = srtt_ns c" "last_feedback (tick t q c) = last_feedback c"
  by (simp_all add: tick_def Let_def evaluate_keeps)

lemma tick_next:
  assumes "0 \<le> srtt_ns c" and "srtt_ns c \<le> P" and "stale_ns c \<le> P" and "0 \<le> stale_ns c" and "0 \<le> t" and "t + P < 2 ^ 63"
  shows "next_eval (tick t q c) \<le> max (next_eval c) (t + P)"
proof -
  have p: "0 \<le> eval_period x" "eval_period x \<le> P" if "srtt_ns x = srtt_ns c" "stale_ns x = stale_ns c" for x
    using that assms(1-4) by (auto simp: eval_period_def)
  have "wrap64 (t + eval_period (evaluate t q c)) = t + eval_period (evaluate t q c)"
    using p [of "evaluate t q c"] assms(5,6) by (intro wrap64_id) (simp add: int64_def evaluate_keeps)
  then show ?thesis using p [of "evaluate t q c"] by (simp add: tick_def Let_def evaluate_keeps)
qed

lemma tick_stale:
  assumes "0 \<le> last_feedback c" and "last_feedback c + stale_ns c < t" and "0 \<le> stale_ns c" and "t < 2 ^ 63"
  shows "tick t q c = c \<and> t < next_eval c \<or> rate_bps (tick t q c) = min_bps c \<and> next_eval c \<le> t"
proof -
  have "wrap64 (t - last_feedback c) = t - last_feedback c" using assms by (intro wrap64_id) (simp add: int64_def)
  then show ?thesis using assms(2) by (simp add: tick_def evaluate_def Let_def)
qed

section \<open>A step\<close>

definition period_bound :: "sim \<Rightarrow> int" where
  "period_bound sm = max (max_rtt (sm_link sm)) (stale_ns (sm_controller sm))"

definition stale_from :: "sim \<Rightarrow> int" where
  "stale_from sm = warmup_ns sm + stale_ns (sm_controller sm)"

definition stale_inv :: "sim \<Rightarrow> bool" where
  "stale_inv sm \<longleftrightarrow> (let c = sm_controller sm; t = clock_ns (sm_clock sm); u = stale_from sm + period_bound sm in
     0 \<le> t \<and> 0 \<le> last_feedback c \<and> last_feedback c \<le> warmup_ns sm
     \<and> 0 \<le> srtt_ns c \<and> srtt_ns c \<le> max_rtt (sm_link sm)
     \<and> (next_eval c \<le> u \<or> stale_from sm < t \<and> rate_bps c = min_bps c)
     \<and> (u + step_ns sm < t \<longrightarrow> rate_bps c = min_bps c))"

text \<open>The controller in a step of the simulation, and the report it may get.\<close>

lemma sim_step_controller:
  assumes "sim_ok sm"
  obtains lost qd r where "0 \<le> r" and "r \<le> max_rtt (sm_link sm)"
    and "sm_controller (sim_step (sim_dt sm) sm) =
      (let t = clock_ns (sm_clock sm); c1 = (if lost then observe_loss (sm_controller sm) else sm_controller sm)
       in tick t qd (if stale_feed sm \<and> warmup_ns sm \<le> t then c1 else feedback t r c1))"
    and "max_rtt (sm_link (sim_step (sim_dt sm) sm)) = max_rtt (sm_link sm)"
proof -
  obtain x y d where o: "f_mul (cc_rate (sm_controller sm)) (sim_dt sm) = Fin x" "0 \<le> x" "sim_dt sm = Fin y"
    "nonneg (f_mul (tcp_rate (sm_tcp sm)) (sim_dt sm))"
    "f_mul (capacity (sm_link sm)) (sim_dt sm) = Fin d" "0 \<le> d"
    by (rule offers_ok [OF assms])
  define load where "load = f_add (f_mul (cc_rate (sm_controller sm)) (sim_dt sm)) (f_mul (tcp_rate (sm_tcp sm)) (sim_dt sm))"
  have load: "nonneg load" unfolding load_def by (rule f_add_nonneg) (use o in simp_all)
  obtain lost qd l where l: "link_step load (sim_dt sm) (sm_link sm) = (lost, qd, l)" using prod_cases3 by blast
  obtain q' b where q': "l = (sm_link sm)\<lparr>link_queue := Fin q'\<rparr>" and r: "0 \<le> rtt_ns l qd" "rtt_ns l qd \<le> max_rtt (sm_link sm)"
    by (rule link_step_ok [OF assms load o(5,6) l])
  show ?thesis
    by (rule that [OF r, where lost = lost and qd = qd])
      (use l q' in \<open>simp_all add: sim_step_def Let_def load_def sim_now_def max_rtt_def full_delay_def\<close>)
qed

text \<open>The controller before its tick: a loss may have been noted, and a report taken.\<close>

lemma before_tick:
  assumes "0 \<le> last_feedback c" "last_feedback c \<le> w" "0 \<le> srtt_ns c" "srtt_ns c \<le> R" "0 \<le> t" "0 \<le> r" "r \<le> R"
    and "8 * R < 2 ^ 63"
    and "c2 = (let c1 = (if lost then observe_loss c else c) in if w \<le> t then c1 else feedback t r c1)"
  shows "0 \<le> last_feedback c2" and "last_feedback c2 \<le> w" and "0 \<le> srtt_ns c2" and "srtt_ns c2 \<le> R"
    and "next_eval c2 = next_eval c" and "rate_bps c2 = rate_bps c" and "stale_ns c2 = stale_ns c" and "min_bps c2 = min_bps c"
proof -
  define c1 where "c1 = (if lost then observe_loss c else c)"
  have c1: "srtt_ns c1 = srtt_ns c" "last_feedback c1 = last_feedback c" "next_eval c1 = next_eval c"
    "rate_bps c1 = rate_bps c" "stale_ns c1 = stale_ns c" "min_bps c1 = min_bps c"
    by (simp_all add: c1_def observe_loss_def)
  have c2: "c2 = (if w \<le> t then c1 else feedback t r c1)" using assms(9) by (simp add: c1_def Let_def)
  show "0 \<le> last_feedback c2" "last_feedback c2 \<le> w" "0 \<le> srtt_ns c2" "srtt_ns c2 \<le> R"
    "next_eval c2 = next_eval c" "rate_bps c2 = rate_bps c"
    using assms(1-8) c1 feedback_bounds [of c1 R r t] by (auto simp: c2)
  show "stale_ns c2 = stale_ns c" "min_bps c2 = min_bps c" using c1 by (simp_all add: c2 feedback_def Let_def)
qed

lemma stale_step:
  assumes ok: "sim_ok sm" and inv: "stale_inv sm" and feed: "stale_feed sm" and "0 \<le> stale_ns (sm_controller sm)"
    and "8 * max_rtt (sm_link sm) < 2 ^ 63"
    and room: "clock_ns (sm_clock sm) + period_bound sm < 2 ^ 63" "clock_ns (sm_clock sm) + step_ns sm < 2 ^ 63"
  shows "stale_inv (sim_step (sim_dt sm) sm)"
proof -
  obtain lost qd r where r: "0 \<le> r" "r \<le> max_rtt (sm_link sm)"
    and ctl: "sm_controller (sim_step (sim_dt sm) sm) =
      (let t = clock_ns (sm_clock sm); c1 = (if lost then observe_loss (sm_controller sm) else sm_controller sm)
       in tick t qd (if stale_feed sm \<and> warmup_ns sm \<le> t then c1 else feedback t r c1))"
    and rtt: "max_rtt (sm_link (sim_step (sim_dt sm) sm)) = max_rtt (sm_link sm)"
    by (rule sim_step_controller [OF ok])
  let ?t = "clock_ns (sm_clock sm)" and ?c = "sm_controller sm" and ?S = "sim_step (sim_dt sm) sm" and ?d = "step_ns sm"
  define c2 where "c2 = (let c1 = (if lost then observe_loss ?c else ?c) in if warmup_ns sm \<le> ?t then c1 else feedback ?t r c1)"
  have ct: "sm_controller ?S = tick ?t qd c2" using ctl feed by (simp add: c2_def Let_def)
  have lim: "cc_limits (sm_controller ?S) = cc_limits ?c" and d: "0 < ?d"
    using sim_step_ok [OF ok] ok by (simp_all add: sim_ok_def experiment_ok_def)
  have i: "0 \<le> ?t" "0 \<le> last_feedback ?c" "last_feedback ?c \<le> warmup_ns sm" "0 \<le> srtt_ns ?c"
    "srtt_ns ?c \<le> max_rtt (sm_link sm)"
    using inv by (simp_all add: stale_inv_def Let_def)
  note c2 = before_tick [OF i(2-5,1) r assms(5) c2_def]
  have nx: "next_eval (tick ?t qd c2) \<le> max (next_eval ?c) (?t + period_bound sm)"
    using tick_next [of c2 "period_bound sm" ?t qd] c2 assms(4) i(1) room(1) by (simp add: period_bound_def)
  have st: "tick ?t qd c2 = c2 \<and> ?t < next_eval ?c \<or> rate_bps (tick ?t qd c2) = min_bps ?c \<and> next_eval ?c \<le> ?t"
    if "stale_from sm < ?t"
    using tick_stale [of c2 ?t qd] c2 assms(4) that room(1) r by (simp add: stale_from_def period_bound_def)
  have clk: "clock_ns (sm_clock ?S) = ?t + ?d" using i(1) d room(2) by (simp add: int64_def)
  have keep: "stale_from ?S = stale_from sm" "period_bound ?S = period_bound sm"
    "min_bps (sm_controller ?S) = min_bps ?c"
    using lim rtt by (simp_all add: stale_from_def period_bound_def cc_limits_def)
  let ?u = "stale_from sm + period_bound sm"
  have old: "next_eval ?c \<le> ?u \<or> stale_from sm < ?t \<and> rate_bps ?c = min_bps ?c"
    using inv by (simp add: stale_inv_def Let_def)
  have one: "next_eval (tick ?t qd c2) \<le> ?u \<or> stale_from sm < ?t + ?d \<and> rate_bps (tick ?t qd c2) = min_bps ?c"
    using old nx st c2 d by (cases "stale_from sm < ?t") auto
  have two: "rate_bps (tick ?t qd c2) = min_bps ?c" if "?u + ?d < ?t + ?d"
  proof -
    have "0 \<le> period_bound sm" using assms(4) by (simp add: period_bound_def)
    then have s: "stale_from sm < ?t" using that by simp
    from st [OF s] old that c2(6) show ?thesis by auto
  qed
  show ?thesis
    unfolding stale_inv_def Let_def keep clk ct rtt
    using i(1) d c2 one two keep(3) by (simp add: tick_keeps ct)
qed

section \<open>The run\<close>

lemma full_delay_nonneg:
  assumes "sim_ok sm"
  obtains D where "full_delay (sm_link sm) = Fin D" and "0 \<le> base_rtt (sm_link sm)" and "0 \<le> f_trunc (Fin D)"
    and "base_rtt (sm_link sm) + f_trunc (Fin D) < 2 ^ 63"
proof -
  obtain q b where q: "buffer_bytes (sm_link sm) = Fin b" "0 \<le> q" "q \<le> b"
    using assms by (auto simp: sim_ok_def)
  have "experiment_ok sm" using assms by (simp add: sim_ok_def)
  then obtain c D where c: "capacity (sm_link sm) = Fin c" "0 < c" "full_delay (sm_link sm) = Fin D" "D < 2 ^ 63"
    "0 \<le> base_rtt (sm_link sm)" "base_rtt (sm_link sm) + f_trunc (Fin D) < 2 ^ 63"
    using q(1) by (auto simp: experiment_ok_def)
  from delay_bounded [OF c(1,2) q(1) c(3,4) q(2,3)] have "0 \<le> f_trunc (Fin D)" by linarith
  from that [OF c(3,5) this c(6)] show ?thesis .
qed

lemma stale_prime:
  assumes "sim_ok sm" and "0 \<le> stale_ns (sm_controller sm)" and "8 * max_rtt (sm_link sm) < 2 ^ 63"
    and "0 \<le> clock_ns (sm_clock sm)" and "clock_ns (sm_clock sm) \<le> warmup_ns sm"
    and "0 \<le> srtt_ns (sm_controller sm)" and "srtt_ns (sm_controller sm) \<le> max_rtt (sm_link sm)"
    and "clock_ns (sm_clock sm) + period_bound sm < 2 ^ 63"
  shows "stale_inv (sim_prime sm)" and "period_bound (sim_prime sm) = period_bound sm"
    and "stale_from (sim_prime sm) = stale_from sm" and "stale_feed (sim_prime sm) = stale_feed sm"
    and "max_rtt (sm_link (sim_prime sm)) = max_rtt (sm_link sm)"
proof -
  let ?t = "clock_ns (sm_clock sm)" and ?r = "rtt_ns (sm_link sm) 0" and ?R = "max_rtt (sm_link sm)"
  define c where "c = feedback ?t ?r (sm_controller sm)"
  obtain D where D: "full_delay (sm_link sm) = Fin D" "0 \<le> base_rtt (sm_link sm)" "0 \<le> f_trunc (Fin D)"
    "base_rtt (sm_link sm) + f_trunc (Fin D) < 2 ^ 63"
    by (rule full_delay_nonneg [OF assms(1)])
  then have r: "0 \<le> ?r" "?r \<le> ?R" by (simp_all add: rtt_ns_def max_rtt_def int64_def)
  have c: "0 \<le> srtt_ns c" "srtt_ns c \<le> ?R" "last_feedback c = ?t" "rate_bps c = rate_bps (sm_controller sm)"
    using feedback_bounds [OF assms(6,7) r assms(3), of ?t] by (simp_all add: c_def)
  have l: "cc_limits c = cc_limits (sm_controller sm)" by (simp add: c_def feedback_def cc_limits_def Let_def)
  have p: "0 \<le> eval_period c" "eval_period c \<le> period_bound sm"
    using c(1,2) l assms(2) by (auto simp: eval_period_def period_bound_def cc_limits_def)
  then have "wrap64 (?t + eval_period c) = ?t + eval_period c" using assms(4,8) by (intro wrap64_id) (simp add: int64_def)
  then have prime: "sim_prime sm = sm\<lparr>sm_controller := c\<lparr>next_eval := ?t + eval_period c\<rparr>,
      sm_tcp := (sm_tcp sm)\<lparr>tcp_next_eval := wrap64 (?t + ?r)\<rparr>\<rparr>"
    by (simp add: sim_prime_def Let_def sim_now_def c_def)
  have d: "0 < step_ns sm" using assms(1) by (simp add: sim_ok_def experiment_ok_def)
  show same: "period_bound (sim_prime sm) = period_bound sm" "stale_from (sim_prime sm) = stale_from sm"
    "stale_feed (sim_prime sm) = stale_feed sm" "max_rtt (sm_link (sim_prime sm)) = ?R"
    using l by (simp_all add: prime period_bound_def stale_from_def cc_limits_def)
  have "?t \<le> stale_from sm" "0 \<le> period_bound sm" using assms(2,5) by (simp_all add: stale_from_def period_bound_def)
  then show "stale_inv (sim_prime sm)"
    unfolding stale_inv_def Let_def same using c p assms(4,5) d by (simp add: prime)
qed

text \<open>What a step keeps while time is left, a finished loop has kept.\<close>

lemma run_loop_rule:
  assumes run: "run_loop finish dt sm = Some r" and start: "I sm"
    and step: "\<And>s. I s \<Longrightarrow> clock_ns (sm_clock s) < finish \<Longrightarrow> I (sim_step dt s)"
  shows "I r \<and> finish \<le> clock_ns (sm_clock r)"
proof -
  have "(\<forall>s. I s \<longrightarrow> clock_ns (sm_clock s) < finish \<longrightarrow> I (sim_step dt s)) \<longrightarrow> I sm
      \<longrightarrow> I r \<and> finish \<le> clock_ns (sm_clock r)"
  proof (rule run_loop.raw_induct [OF _ run])
    fix loop :: "int \<Rightarrow> f64 \<Rightarrow> sim \<Rightarrow> sim option" and f d s r
    assume ih: "\<And>f d s r. loop f d s = Some r \<Longrightarrow> (\<forall>s. I s \<longrightarrow> clock_ns (sm_clock s) < f \<longrightarrow> I (sim_step d s)) \<longrightarrow> I s
        \<longrightarrow> I r \<and> f \<le> clock_ns (sm_clock r)"
      and eq: "(if sim_now (sm_clock s) < f then loop f d (sim_step d s) else Some s) = Some r"
    show "(\<forall>s. I s \<longrightarrow> clock_ns (sm_clock s) < f \<longrightarrow> I (sim_step d s)) \<longrightarrow> I s \<longrightarrow> I r \<and> f \<le> clock_ns (sm_clock r)"
    proof (cases "clock_ns (sm_clock s) < f")
      case True
      with eq have "loop f d (sim_step d s) = Some r" by (simp add: sim_now_def)
      from ih [OF this] True show ?thesis by blast
    next
      case False
      with eq show ?thesis by (auto simp: sim_now_def)
    qed
  qed
  with start step show ?thesis by blast
qed

text \<open>
  C32. When feedback stops after the warm-up, the controller stops too: whatever the link loses and the
  other flow does, an experiment whose measurement lasts longer than the staleness limit, one
  evaluation period and a step ends with the controller at its minimum rate.
\<close>

theorem stale_feedback_ends_at_minimum:
  assumes "sim_ok sm" and "stale_feed sm" and "0 \<le> stale_ns (sm_controller sm)" and "8 * max_rtt (sm_link sm) < 2 ^ 63"
    and "0 \<le> clock_ns (sm_clock sm)" and "clock_ns (sm_clock sm) \<le> warmup_ns sm"
    and "0 \<le> srtt_ns (sm_controller sm)" and "srtt_ns (sm_controller sm) \<le> max_rtt (sm_link sm)"
    and "stale_ns (sm_controller sm) + period_bound sm + step_ns sm < measure_ns sm"
    and "warmup_ns sm + measure_ns sm + step_ns sm < 2 ^ 63" and "warmup_ns sm + measure_ns sm + period_bound sm < 2 ^ 63"
  shows "\<exists>rates sm'. sim_run sm = Some (rates, sm') \<and> rate_bps (sm_controller sm') = min_bps (sm_controller sm)"
proof -
  let ?e = "warmup_ns sm + measure_ns sm" and ?P = "sim_prime sm"
  have d: "0 < step_ns sm" using assms(1) by (simp add: sim_ok_def experiment_ok_def)
  have b: "0 \<le> period_bound sm" using assms(3) by (simp add: period_bound_def)
  have t: "int64 (clock_ns (sm_clock sm))" "wrap64 ?e = ?e" "clock_ns (sm_clock sm) + period_bound sm < 2 ^ 63"
    using assms b d by (auto simp: int64_def intro!: wrap64_id)
  note prime = sim_prime_ok [OF assms(1)] stale_prime [OF assms(1,3-8) t(3)]
  obtain r where run: "run_loop ?e (sim_dt sm) ?P = Some r"
    using run_loop_iterates [of ?P ?e "sim_dt sm"] d t(1) assms(10) by simp
  define I where "I = (\<lambda>s. sim_ok s \<and> stale_inv s \<and> stale_feed s \<and> step_ns s = step_ns sm \<and> sim_dt s = sim_dt sm
    \<and> cc_limits (sm_controller s) = cc_limits (sm_controller sm) \<and> max_rtt (sm_link s) = max_rtt (sm_link sm)
    \<and> warmup_ns s = warmup_ns sm)"
  have "I r \<and> ?e \<le> clock_ns (sm_clock r)"
  proof (rule run_loop_rule [OF run])
    show "I ?P" using prime assms(2) by (simp add: I_def)
  next
    fix s assume I: "I s" and less: "clock_ns (sm_clock s) < ?e"
    then have "stale_ns (sm_controller s) = stale_ns (sm_controller sm)" by (simp add: I_def cc_limits_def)
    then have s: "stale_inv (sim_step (sim_dt s) s)"
      using I less assms(3,4,10,11) by (intro stale_step) (auto simp: I_def period_bound_def)
    moreover obtain lost qd x where "max_rtt (sm_link (sim_step (sim_dt s) s)) = max_rtt (sm_link s)"
      using I sim_step_controller [of s] unfolding I_def by metis
    ultimately show "I (sim_step (sim_dt sm) s)"
      using I sim_step_ok [of s] by (auto simp: I_def sim_dt_def)
  qed
  then have i: "stale_inv r" "cc_limits (sm_controller r) = cc_limits (sm_controller sm)" "step_ns r = step_ns sm"
    "max_rtt (sm_link r) = max_rtt (sm_link sm)" "warmup_ns r = warmup_ns sm" "?e \<le> clock_ns (sm_clock r)"
    by (simp_all add: I_def)
  then have "stale_from r + period_bound r + step_ns r < clock_ns (sm_clock r)"
    using assms(9) by (simp add: stale_from_def period_bound_def cc_limits_def)
  then have "rate_bps (sm_controller r) = min_bps (sm_controller r)" using i(1) by (simp add: stale_inv_def Let_def)
  then show ?thesis using run i(2) t(2) by (simp add: sim_run_def cc_limits_def Let_def)
qed

theorem stale_feedback_ends_at_minimum_witness:
  "\<exists>rates sm'. sim_run (sample_sim\<lparr>stale_feed := True, measure_ns := 2000000000\<rparr>) = Some (rates, sm')
    \<and> rate_bps (sm_controller sm') = 16000"
proof -
  let ?s = "sample_sim\<lparr>stale_feed := True, measure_ns := 2000000000\<rparr>"
  have "sim_ok ?s" using sample_sim_ok by (simp add: sim_ok_def experiment_ok_def)
  moreover have "max_rtt (sm_link ?s) = 1020000000"
  proof -
    have "round64 1 = Fin 1" "round64 1000000000 = Fin 1000000000" "f_trunc (Fin 1000000000) = 1000000000"
      using round64_int [of 1] round64_int [of 1000000000] by (simp_all add: f_trunc_def int64_def floor_numeral Let_def)
    then show ?thesis by (simp add: max_rtt_def full_delay_def sample_sim_def second_fin)
  qed
  ultimately show ?thesis
    using stale_feedback_ends_at_minimum [of ?s] by (simp add: period_bound_def sample_sim_def sample_controller_def)
qed

end
