(* ===== verification/QuicDatagram.thy ===== *)
theory QuicDatagram
  imports Binary64
begin

text \<open>
  The QUIC spike, \<open>experiments/quicdatagram/quicdatagram.go\<close>: the rate-limited packet connection
  with its credit in \<open>float64\<close>, the optional interfaces it passes through, and the socket bound to
  an interface, and the TLS configurations of the loopback test. A time is a number of nanoseconds,
  \<open>None\<close> the zero \<open>time.Time\<close>; key generation and the encoding of a certificate are arguments.
\<close>

section \<open>Time\<close>

text \<open>\<open>Time.Sub\<close> saturates; \<open>Duration.Seconds\<close> adds the whole seconds and the fraction.\<close>

definition time_sub :: "int \<Rightarrow> int \<Rightarrow> int" where
  "time_sub t u = max (- (2 ^ 63)) (min (2 ^ 63 - 1) (t - u))"

definition second :: int where "second = 1000000000"

definition seconds :: "int \<Rightarrow> f64" where
  "seconds d = f_add (f_int (go_quot d second)) (f_div (f_int (d - go_quot d second * second)) (Fin 1000000000))"

section \<open>The throttled connection\<close>

record throttle =
  bytes_per_sec :: f64
  credit :: f64
  last_write :: "int option"

definition new_throttle :: "f64 \<Rightarrow> throttle" where
  "new_throttle r = \<lparr>bytes_per_sec = r, credit = Fin 0, last_write = None\<rparr>"

text \<open>\<open>WriteTo\<close> of \<open>n\<close> bytes at time \<open>t\<close>: how long it sleeps before it sends, and the new state.\<close>

definition throttle_write :: "int \<Rightarrow> int \<Rightarrow> throttle \<Rightarrow> int \<times> throttle" where
  "throttle_write t n c =
     (let l = (case last_write c of None \<Rightarrow> t | Some u \<Rightarrow> u);
          c1 = f_add (credit c) (f_mul (bytes_per_sec c) (seconds (time_sub t l)));
          c2 = (if f_less (bytes_per_sec c) c1 then bytes_per_sec c else c1);
          need = f_int n
      in if f_less c2 need then
           (f_trunc (f_mul (f_div (f_sub need c2) (bytes_per_sec c)) (f_int second)),
            c\<lparr>credit := Fin 0, last_write := Some t\<rparr>)
         else (0, c\<lparr>credit := f_sub c2 need, last_write := Some t\<rparr>))"

text \<open>A sender that writes packets back to back; the sleep takes the time it asks for.\<close>

fun send_all :: "int \<Rightarrow> int list \<Rightarrow> throttle \<Rightarrow> int \<times> throttle" where
  "send_all t [] c = (t, c)"
| "send_all t (n # ns) c = (let (wait, c') = throttle_write t n c in send_all (t + max 0 wait) ns c')"

text \<open>The optional interfaces: forwarded when the inner connection has them.\<close>

definition set_read_buffer :: "(int \<Rightarrow> string option) option \<Rightarrow> int \<Rightarrow> string option" where
  "set_read_buffer inner n = (case inner of Some f \<Rightarrow> f n | None \<Rightarrow> None)"

definition set_write_buffer :: "(int \<Rightarrow> string option) option \<Rightarrow> int \<Rightarrow> string option" where
  "set_write_buffer inner n = (case inner of Some f \<Rightarrow> f n | None \<Rightarrow> None)"

definition syscall_conn :: "(string + 'c) option \<Rightarrow> string + 'c" where
  "syscall_conn inner = (case inner of Some r \<Rightarrow> r | None \<Rightarrow> Inl ''no SyscallConn'')"

section \<open>The bound socket\<close>

datatype socket_event = OpenSocket | BindToDevice string | SetMark int | BindAddress | CloseSocket

text \<open>What the system answers; \<open>env_raw\<close> is the error of \<open>RawConn.Control\<close> itself.\<close>

record socket_env =
  env_socket :: "string option"
  env_raw :: "string option"
  env_device :: "string option"
  env_mark :: "string option"
  env_bind :: "string option"
  env_is_udp :: bool

text \<open>The function handed to \<open>Control\<close>, on the open descriptor.\<close>

definition socket_options :: "string \<Rightarrow> int \<Rightarrow> socket_env \<Rightarrow> string option \<times> socket_event list" where
  "socket_options iface mark env =
     (if iface \<noteq> [] \<and> env_device env \<noteq> None then (env_device env, [BindToDevice iface])
      else ((if mark \<noteq> 0 then env_mark env else None),
            (if iface \<noteq> [] then [BindToDevice iface] else []) @ (if mark \<noteq> 0 then [SetMark mark] else [])))"

text \<open>
  \<open>ListenConfig.ListenPacket\<close> opens the socket, calls \<open>Control\<close>, binds, and closes the socket when
  either fails.
\<close>

definition bound_udp_conn :: "string \<Rightarrow> int \<Rightarrow> socket_env \<Rightarrow> string option \<times> socket_event list" where
  "bound_udp_conn iface mark env =
     (case env_socket env of Some e \<Rightarrow> (Some e, []) | None \<Rightarrow>
     (case env_raw env of Some e \<Rightarrow> (Some e, [OpenSocket, CloseSocket]) | None \<Rightarrow>
     (let (err, evs) = socket_options iface mark env in
      case err of Some e \<Rightarrow> (Some e, OpenSocket # evs @ [CloseSocket]) | None \<Rightarrow>
     (case env_bind env of Some e \<Rightarrow> (Some e, OpenSocket # evs @ [BindAddress, CloseSocket]) | None \<Rightarrow>
      if env_is_udp env then (None, OpenSocket # evs @ [BindAddress])
      else (Some ''not a *net.UDPConn'', OpenSocket # evs @ [BindAddress, CloseSocket])))))"

section \<open>TLS configurations\<close>

definition alpn :: string where "alpn = ''red-mpudp-quic-spike''"

record cert_template =
  serial_number :: int
  common_name :: string
  not_before :: int
  not_after :: int
  dns_names :: "string list"
  ip_addresses :: "nat list list"
  digital_signature :: bool
  server_auth :: bool

record ('der, 'key) tls_config =
  certificates :: "('der \<times> 'key) list"
  insecure_skip_verify :: bool
  next_protos :: "string list"

definition spike_template :: "int \<Rightarrow> int \<Rightarrow> cert_template" where
  "spike_template t u = \<lparr>serial_number = 1, common_name = ''red-mpudp-spike'', not_before = t - 3600 * second,
     not_after = u + 24 * 3600 * second, dns_names = [''localhost''], ip_addresses = [[127, 0, 0, 1]],
     digital_signature = True, server_auth = True\<rparr>"

text \<open>The two readings of the clock are \<open>t\<close> and \<open>u\<close>; \<open>create tmpl parent k\<close> is \<open>x509.CreateCertificate\<close> for the public key of \<open>k\<close>, signed with \<open>k\<close>.\<close>

definition self_signed_tls :: "int \<Rightarrow> int \<Rightarrow> string + 'key
    \<Rightarrow> (cert_template \<Rightarrow> cert_template \<Rightarrow> 'key \<Rightarrow> string + 'der)
    \<Rightarrow> string + ('der, 'key) tls_config \<times> ('der, 'key) tls_config" where
  "self_signed_tls t u key create =
     (case key of Inl e \<Rightarrow> Inl e | Inr priv \<Rightarrow>
     (case create (spike_template t u) (spike_template t u) priv of Inl e \<Rightarrow> Inl e | Inr der \<Rightarrow>
      Inr (\<lparr>certificates = [(der, priv)], insecure_skip_verify = False, next_protos = [alpn]\<rparr>,
           \<lparr>certificates = [], insecure_skip_verify = True, next_protos = [alpn]\<rparr>)))"

text \<open>The two configurations can talk: they offer one protocol, and the certificate is valid now.\<close>

lemma tls_configs_match:
  assumes "self_signed_tls t u key create = Inr (server, client)" and "t \<le> u"
  obtains der priv where "key = Inr priv" "certificates server = [(der, priv)]"
    "create (spike_template t u) (spike_template t u) priv = Inr der"
    "next_protos server = next_protos client" "\<not> insecure_skip_verify server"
    "not_before (spike_template t u) < t" "u < not_after (spike_template t u)"
  using assms by (auto simp: self_signed_tls_def spike_template_def second_def split: sum.splits)

section \<open>A socket is handed out bound, or closed\<close>

lemma options_done:
  "fst (socket_options iface mark env) = None \<Longrightarrow> snd (socket_options iface mark env) =
     (if iface \<noteq> [] then [BindToDevice iface] else []) @ (if mark \<noteq> 0 then [SetMark mark] else [])"
  by (auto simp: socket_options_def split: if_splits)

text \<open>
  BoundUDPConn hands out a socket only after the device and the mark that were asked for
  were set, in that order and before the socket was bound to its address; in every other case the
  socket that was opened is closed, once, as the last thing that happens.
\<close>

theorem bound_socket_or_closed:
  "case bound_udp_conn iface mark env of
     (None, evs) \<Rightarrow> evs = OpenSocket # (if iface \<noteq> [] then [BindToDevice iface] else [])
        @ (if mark \<noteq> 0 then [SetMark mark] else []) @ [BindAddress]
   | (Some e, evs) \<Rightarrow> evs = [] \<or> (hd evs = OpenSocket \<and> last evs = CloseSocket
        \<and> CloseSocket \<notin> set (butlast evs))"
proof -
  obtain err evs where o: "socket_options iface mark env = (err, evs)" by fastforce
  then have "CloseSocket \<notin> set evs" by (auto simp: socket_options_def split: if_splits)
  with o options_done [of iface mark env] show ?thesis
    by (cases "env_is_udp env") (auto simp: bound_udp_conn_def butlast_append split: option.split)
qed

section \<open>The credit\<close>

lemma seconds_whole: "0 \<le> k \<Longrightarrow> k < 2 ^ 53 \<Longrightarrow> seconds (k * second) = Fin (of_int k)"
  using round64_int [of k] round64_int [of 0]
  by (simp add: seconds_def second_def go_quot_nonneg f_int_def)

lemma seconds_nonneg:
  assumes "0 \<le> d" and "d < 2 ^ 63"
  shows "nonneg (seconds d)"
proof -
  have q: "go_quot d second = d div second" using assms by (simp add: go_quot_nonneg second_def)
  have r: "d - d div second * second = d mod second" by (simp add: minus_div_mult_eq_mod)
  have "nonneg (f_int (d div second))" "nonneg (f_int (d mod second))"
    using assms by (simp_all add: f_int_def round64_nonneg second_def pos_imp_zdiv_nonneg_iff)
  then show ?thesis unfolding seconds_def q r by (intro f_add_nonneg f_div_nonneg) simp_all
qed

text \<open>
  The credit is a burst of at most one second: after any write, at any time and of any size,
  it lies between zero and the rate.
\<close>

theorem throttle_credit_bounded:
  assumes "bytes_per_sec c = Fin (of_int r)" and "0 < r" and "r < 2 ^ 53"
    and "credit c = Fin x" and "0 \<le> x" and "x \<le> of_int r" and "0 \<le> n" and "n < 2 ^ 53"
    and "case last_write c of None \<Rightarrow> True | Some u \<Rightarrow> u \<le> t"
    and "throttle_write t n c = (wait, c')"
  shows "\<exists>y. credit c' = Fin y \<and> 0 \<le> y \<and> y \<le> of_int r \<and> bytes_per_sec c' = bytes_per_sec c"
proof -
  define l where "l = (case last_write c of None \<Rightarrow> t | Some u \<Rightarrow> u)"
  have "nonneg (seconds (time_sub t l))"
    using assms(9) by (intro seconds_nonneg) (auto simp: l_def time_sub_def split: option.splits)
  then have "nonneg (f_mul (bytes_per_sec c) (seconds (time_sub t l)))"
    using assms(1,2) by (cases rule: nonneg_cases) (simp_all add: round64_nonneg inf_sign_def)
  define v where "v = f_add (credit c) (f_mul (bytes_per_sec c) (seconds (time_sub t l)))"
  have "nonneg v"
    using assms(4,5) \<open>nonneg (f_mul (bytes_per_sec c) (seconds (time_sub t l)))\<close>
    unfolding v_def by (intro f_add_nonneg) simp_all
  then have "\<exists>z. (if f_less (bytes_per_sec c) v then bytes_per_sec c else v) = Fin z \<and> 0 \<le> z \<and> z \<le> of_int r"
    by (cases rule: nonneg_cases) (use assms(1,2) in auto)
  then obtain z where z: "(if f_less (bytes_per_sec c) v then bytes_per_sec c else v) = Fin z" "0 \<le> z" "z \<le> of_int r"
    by blast
  have need: "f_int n = Fin (of_int n)" using assms(7,8) round64_int by (simp add: f_int_def)
  have "throttle_write t n c =
      (if f_less (Fin z) (Fin (of_int n)) then
         (f_trunc (f_mul (f_div (f_sub (Fin (of_int n)) (Fin z)) (bytes_per_sec c)) (f_int second)),
          c\<lparr>credit := Fin 0, last_write := Some t\<rparr>)
       else (0, c\<lparr>credit := f_sub (Fin z) (Fin (of_int n)), last_write := Some t\<rparr>))"
    by (simp only: throttle_write_def Let_def l_def [symmetric] v_def [symmetric] z(1) need)
  note tw = this [unfolded assms(10)]
  show ?thesis
  proof (cases "z < of_int n")
    case True
    then show ?thesis using assms(2) tw by simp
  next
    case False
    have "0 \<le> z - of_int n" "z - of_int n \<le> of_int r" using False z(3) assms(7) by simp_all
    moreover have "round64 (of_int r) = Fin (of_int r)" using assms(2,3) round64_int by simp
    ultimately obtain y where y: "round64 (z - of_int n) = Fin y" "0 \<le> y" "y \<le> of_int r"
      using round64_le_fin by blast
    then show ?thesis using False tw y by (simp add: f_sub_def)
  qed
qed

section \<open>The limit is exceeded by a factor of two\<close>

text \<open>The time spent asleep for one packet is credited to the next.\<close>

lemma wait_then_free:
  assumes "bytes_per_sec c = Fin (of_int r)" and "0 < r" and "r < 2 ^ 53"
    and "credit c = Fin 0" and "last_write c = None \<or> last_write c = Some t"
  shows "send_all t [r, r] c = (t + second, c\<lparr>credit := Fin 0, last_write := Some (t + second)\<rparr>)"
proof -
  have R: "round64 (of_int r) = Fin (of_int r)" using assms(2,3) by (simp add: round64_int)
  have one: "round64 1 = Fin 1" "round64 1000000000 = Fin 1000000000" "round64 0 = Fin 0"
    using round64_int [of 1] round64_int [of 1000000000] round64_int [of 0] by simp_all
  have s0: "seconds (time_sub t t) = Fin 0" "seconds (time_sub (t + second) t) = Fin 1"
    using seconds_whole [of 0] seconds_whole [of 1] by (simp_all add: time_sub_def second_def)
  have first: "throttle_write t r c = (second, c\<lparr>credit := Fin 0, last_write := Some t\<rparr>)"
    using assms one R s0(1)
    by (auto simp: throttle_write_def Let_def f_int_def f_sub_def second_def f_trunc_def int64_def)
  have "throttle_write (t + second) r (c\<lparr>credit := Fin 0, last_write := Some t\<rparr>)
      = (0, c\<lparr>credit := Fin 0, last_write := Some (t + second)\<rparr>)"
    using assms one R s0(2) by (simp add: throttle_write_def Let_def f_int_def f_sub_def)
  with first show ?thesis by (simp add: second_def)
qed

text \<open>
  C36. The connection lets twice its rate through: a sender that writes packets of one second's
  worth of bytes back to back has sent \<open>2 m\<close> of them after \<open>m\<close> seconds.
\<close>

theorem throttle_sends_twice_the_rate:
  assumes "0 < r" and "r < 2 ^ 53"
  shows "fst (send_all t (concat (replicate m [r, r])) (new_throttle (Fin (of_int r)))) = t + int m * second"
proof -
  have "fst (send_all t (concat (replicate m [r, r])) c) = t + int m * second"
    if "bytes_per_sec c = Fin (of_int r)" "credit c = Fin 0" "last_write c = None \<or> last_write c = Some t" for c
    using that
  proof (induction m arbitrary: t c)
    case (Suc m)
    have app: "send_all t (xs @ ys) c = (let (u, c') = send_all t xs c in send_all u ys c')" for t xs ys c
      by (induction xs arbitrary: t c) (simp_all add: split_beta Let_def)
    note two = wait_then_free [OF Suc.prems(1) assms Suc.prems(2,3)]
    have "fst (send_all (t + second) (concat (replicate m [r, r]))
        (c\<lparr>credit := Fin 0, last_write := Some (t + second)\<rparr>)) = t + second + int m * second"
      by (rule Suc.IH) (simp_all add: Suc.prems)
    moreover have "send_all t (concat (replicate (Suc m) [r, r])) c
        = send_all (t + second) (concat (replicate m [r, r])) (c\<lparr>credit := Fin 0, last_write := Some (t + second)\<rparr>)"
      using app [of t "[r, r]" "concat (replicate m [r, r])" c] two by (simp del: send_all.simps)
    ultimately show ?case by (simp add: algebra_simps)
  qed simp
  then show ?thesis by (simp add: new_throttle_def)
qed

theorem throttle_credit_bounded_witness:
  "\<exists>y. credit (snd (throttle_write 5 700 (new_throttle (Fin 1000)))) = Fin y \<and> 0 \<le> y \<and> y \<le> 1000"
  using throttle_credit_bounded [of "new_throttle (Fin 1000)" 1000 0 700 5]
  by (cases "throttle_write 5 700 (new_throttle (Fin 1000))") (auto simp: new_throttle_def)

theorem throttle_sends_twice_the_rate_witness:
  "fst (send_all 0 [1000, 1000, 1000, 1000] (new_throttle (Fin 1000))) = 2000000000"
  using throttle_sends_twice_the_rate [of 1000 0 2] by (simp add: numeral_2_eq_2 second_def del: send_all.simps)

end
