(* ===== verification/QueueClock.thy ===== *)
theory QueueClock
  imports ByteQueue TestClock
begin

text \<open>
  The queue and the clock it is given: \<open>NewByteQueue\<close> takes a \<open>clock.Clock\<close> and \<open>Enqueue\<close> stamps
  every item with its reading. What the queue needs of a clock is the interface \<open>monotone_clock\<close>:
  no step turns its reading back. The deterministic clock of \<open>internal/testclock\<close> provides it, for
  programs and callbacks that arm, stop and reset timers and use the queue, as long as their durations are not
  negative.
\<close>

section \<open>Interface\<close>

text \<open>The stamps of a queue are in order and lie between two instants.\<close>

definition stamped :: "int \<Rightarrow> int \<Rightarrow> 'a queue_item list \<Rightarrow> bool" where
  "stamped lo hi xs \<longleftrightarrow> lo \<le> hi \<and> sorted (map enqueued xs) \<and> (\<forall>it \<in> set xs. lo \<le> enqueued it \<and> enqueued it \<le> hi)"

lemma stamped_snoc: "stamped lo hi xs \<Longrightarrow> enqueued it = hi \<Longrightarrow> stamped lo hi (xs @ [it])"
  by (auto simp: stamped_def sorted_append)

lemma stamped_later: "stamped lo hi xs \<Longrightarrow> hi \<le> hi' \<Longrightarrow> stamped lo hi' xs"
  by (auto simp: stamped_def)

lemma stamped_tl: "stamped lo hi xs \<Longrightarrow> stamped lo hi (tl xs)"
  by (cases xs) (auto simp: stamped_def)

lemma stamped_dropWhile: "stamped lo hi xs \<Longrightarrow> stamped lo hi (dropWhile P xs)"
proof (induction xs)
  case (Cons x xs)
  with stamped_tl [OF Cons.prems] show ?case by simp
qed simp

lemma stamped_expired:
  "sorted (map enqueued xs) \<Longrightarrow> takeWhile (\<lambda>it. enqueued it \<le> t) xs = filter (\<lambda>it. enqueued it \<le> t) xs
     \<and> dropWhile (\<lambda>it. enqueued it \<le> t) xs = filter (\<lambda>it. t < enqueued it) xs"
proof (induction xs)
  case (Cons x xs)
  show ?case
  proof (cases "enqueued x \<le> t")
    case True
    with Cons show ?thesis by auto
  next
    case False
    then have "\<forall>y \<in> set xs. t < enqueued y" using Cons.prems by auto
    with False show ?thesis by (simp add: filter_empty_conv filter_id_conv not_le)
  qed
qed simp

text \<open>What each queue operation does to the queued items.\<close>

lemma queue_step_list:
  assumes "queue_inv z q"
  shows "queue_inv z (snd (queue_step z q e))"
    and "queue_list (snd (queue_step z q e)) = snd (snd (snd (queue_spec_step (queue_abs q) e)))"
  using queue_step_refines [OF assms, of e] by (auto simp: queue_abs_def)

locale monotone_clock =
  fixes ok :: "'c \<Rightarrow> bool" and reading :: "'c \<Rightarrow> int" and tick_to :: "'c \<Rightarrow> 'c \<Rightarrow> bool"
  assumes step_ok: "ok c \<Longrightarrow> tick_to c c' \<Longrightarrow> ok c'"
    and never_back: "ok c \<Longrightarrow> tick_to c c' \<Longrightarrow> reading c \<le> reading c'"
begin

definition timed_inv :: "int \<Rightarrow> 'a queue_item \<Rightarrow> 'c \<Rightarrow> 'a byte_queue \<Rightarrow> bool" where
  "timed_inv lo z c q \<longleftrightarrow> ok c \<and> queue_inv z q \<and> stamped lo (reading c) (queue_list q)"

lemma timed_start:
  assumes "ok c" and "new_byte_queue z True mp mb = Inr q" and "mb < 2 ^ 62"
  shows "timed_inv (reading c) z c q"
  using assms(1) new_byte_queue_inv [OF assms(2,3)] by (simp add: timed_inv_def stamped_def)

lemma timed_clock: "timed_inv lo z c q \<Longrightarrow> tick_to c c' \<Longrightarrow> timed_inv lo z c' q"
  using step_ok never_back by (auto simp: timed_inv_def intro: stamped_later)

lemma timed_queue:
  assumes "timed_inv lo z c q" and "case x of Enqueue t v n \<Rightarrow> t = reading c | _ \<Rightarrow> True"
  shows "timed_inv lo z c (snd (queue_step z q x))"
proof -
  have q: "queue_inv z q" and s: "stamped lo (reading c) (queue_list q)" and ok: "ok c"
    using assms(1) by (simp_all add: timed_inv_def)
  have "stamped lo (reading c) (queue_list (snd (queue_step z q x)))"
    using assms(2) s stamped_tl [OF s] unfolding queue_step_list(2) [OF q] queue_abs_def
    by (cases x) (auto simp: stamped_snoc stamped_dropWhile split: list.split)
  with q ok show ?thesis by (simp add: timed_inv_def queue_step_list(1))
qed

lemma expiry_exact:
  assumes "timed_inv lo z c q"
  shows "stamped lo (reading c) (queue_list q)
    \<and> fst (drop_expired z q t) = filter (\<lambda>it. enqueued it \<le> t) (queue_list q)
    \<and> queue_list (snd (drop_expired z q t)) = filter (\<lambda>it. t < enqueued it) (queue_list q)"
  using assms drop_expired_spec [of z q t] stamped_expired [of "queue_list q" t]
  by (simp add: timed_inv_def stamped_def)

end

section \<open>Programs on the deterministic clock\<close>

text \<open>
  What a program holds: the timers and tickers it was given, by the order in which they were made.
  What it does without moving time: a call on the clock or on the queue. A call that names a timer
  that was never made, and a call that panics, changes nothing.
\<close>

record hand =
  held_timers :: "handle list"
  held_tickers :: "handle list"

datatype 'f clock_call =
    ArmTimer int
  | ArmFunc int 'f
  | ArmTicker int
  | StopTimer nat
  | StopTicker nat
  | ResetTimer nat int
  | ResetTicker nat int
  | Receive nat

datatype ('f, 'a) act = Call "'f clock_call" | Put 'a int | Take | Evict | DropUntil int

text \<open>What it does with time itself.\<close>

datatype ('f, 'a) move = AdvanceBy int | SetTo int | Act "('f, 'a) act"

type_synonym ('f, 'a) scene = "'f tclock \<times> hand \<times> 'a byte_queue"

fun clock_act :: "'f clock_call \<Rightarrow> 'f tclock \<times> hand \<Rightarrow> 'f tclock \<times> hand" where
  "clock_act (ArmTimer d) (c, k) =
     (let (h, c') = new_timer d c in (c', k\<lparr>held_timers := held_timers k @ [h]\<rparr>))"
| "clock_act (ArmFunc d f) (c, k) =
     (let (h, c') = after_func d f c in (c', k\<lparr>held_timers := held_timers k @ [h]\<rparr>))"
| "clock_act (ArmTicker d) (c, k) =
     (case new_ticker d c of Inl _ \<Rightarrow> (c, k)
      | Inr (h, c') \<Rightarrow> (c', k\<lparr>held_tickers := held_tickers k @ [h]\<rparr>))"
| "clock_act (StopTimer i) (c, k) =
     (if i < length (held_timers k) then snd (timer_stop (held_timers k ! i) c) else c, k)"
| "clock_act (StopTicker i) (c, k) =
     (if i < length (held_tickers k) then ticker_stop (held_tickers k ! i) c else c, k)"
| "clock_act (ResetTimer i d) (c, k) =
     (if i < length (held_timers k) then snd (timer_reset (held_timers k ! i) d c) else c, k)"
| "clock_act (ResetTicker i d) (c, k) =
     (if i < length (held_tickers k)
      then (case ticker_reset (held_tickers k ! i) d c of Inl _ \<Rightarrow> c | Inr c' \<Rightarrow> c') else c, k)"
| "clock_act (Receive i) (c, k) =
     (if i < length (held_timers k) then snd (chan_recv (held_timers k ! i) c) else c, k)"

fun do_act :: "'a queue_item \<Rightarrow> ('f, 'a) act \<Rightarrow> ('f, 'a) scene \<Rightarrow> ('f, 'a) scene" where
  "do_act z (Call x) (c, k, q) = (case clock_act x (c, k) of (c', k') \<Rightarrow> (c', k', q))"
| "do_act z (Put v n) (c, k, q) = (c, k, snd (queue_step z q (Enqueue (clock_now c) v n)))"
| "do_act z Take (c, k, q) = (c, k, snd (queue_step z q Dequeue))"
| "do_act z Evict (c, k, q) = (c, k, snd (queue_step z q DropOldest))"
| "do_act z (DropUntil u) (c, k, q) = (c, k, snd (queue_step z q (DropExpired u)))"

text \<open>
  A callback is given by what it does, which may depend on everything it finds when it fires; it
  does not move time. \<open>Advance\<close> and \<open>Set\<close> run the callbacks of the timers that fire, and need not return.
\<close>

type_synonym ('f, 'a) scripts = "'f \<Rightarrow> ('f, 'a) scene \<Rightarrow> ('f, 'a) act list"

definition run_script :: "'a queue_item \<Rightarrow> ('f, 'a) scripts \<Rightarrow> 'f \<Rightarrow> ('f, 'a) scene \<Rightarrow> ('f, 'a) scene" where
  "run_script z script f s = fold (do_act z) (script f s) s"

definition settle :: "('f entry list \<times> ('f, 'a) scene) may_panic option \<Rightarrow> ('f, 'a) scene \<Rightarrow> ('f, 'a) scene option" where
  "settle r s = map_option (\<lambda>x. case x of Inl _ \<Rightarrow> s | Inr (_, s') \<Rightarrow> s') r"

fun do_move :: "'a queue_item \<Rightarrow> ('f, 'a) scripts \<Rightarrow> ('f, 'a) move \<Rightarrow> ('f, 'a) scene \<Rightarrow> ('f, 'a) scene option" where
  "do_move z script (AdvanceBy d) s = settle (clock_advance (run_script z script) d s) s"
| "do_move z script (SetTo t) s = settle (clock_set (run_script z script) t s) s"
| "do_move z script (Act a) s = Some (do_act z a s)"

fun do_moves :: "'a queue_item \<Rightarrow> ('f, 'a) scripts \<Rightarrow> ('f, 'a) move list \<Rightarrow> ('f, 'a) scene \<Rightarrow> ('f, 'a) scene option" where
  "do_moves z script [] s = Some s"
| "do_moves z script (m # ms) s = Option.bind (do_move z script m s) (do_moves z script ms)"

text \<open>
  Timers with a negative duration turn the clock back (\<open>negative_timer_rewinds_clock\<close>). A callback
  makes no call that panics: the panic would end the call of \<open>Advance\<close> that runs it.
\<close>

fun call_forward :: "'f clock_call \<Rightarrow> bool" where
  "call_forward (ArmTimer d) = (0 \<le> d)"
| "call_forward (ArmFunc d f) = (0 \<le> d)"
| "call_forward (ResetTimer i d) = (0 \<le> d)"
| "call_forward _ = True"

fun forward :: "('f, 'a) act \<Rightarrow> bool" where
  "forward (Call x) = call_forward x"
| "forward _ = True"

fun calm :: "('f, 'a) act \<Rightarrow> bool" where
  "calm (Call (ArmTicker d)) = (0 < d)"
| "calm (Call (ResetTicker i d)) = (0 < d)"
| "calm (Put v n) = (0 < n)"
| "calm _ = True"

definition well_mannered :: "('f, 'a) scripts \<Rightarrow> bool" where
  "well_mannered script \<longleftrightarrow> (\<forall>f s. list_all (\<lambda>a. forward a \<and> calm a) (script f s))"

fun move_forward :: "('f, 'a) move \<Rightarrow> bool" where
  "move_forward (Act a) = forward a"
| "move_forward _ = True"

section \<open>The steps of the clock\<close>

text \<open>One step: a call, the firing of the timer that is due next, or the arrival at a new instant.\<close>

inductive clock_moves :: "'f tclock \<times> hand \<Rightarrow> 'f tclock \<times> hand \<Rightarrow> bool" where
  calls: "call_forward a \<Longrightarrow> clock_moves s (clock_act a s)"
| fires: "earliest_due t c = Some e \<Longrightarrow> clock_moves (c, k) (after_fire e c, k)"
| arrives: "earliest_due t c = None \<Longrightarrow> now c \<le> t \<Longrightarrow> clock_moves (c, k) (c\<lparr>now := t\<rparr>, k)"

definition hand_ok :: "'f tclock \<times> hand \<Rightarrow> bool" where
  "hand_ok s \<longleftrightarrow> clock_ok (fst s) \<and> (\<forall>h \<in> set (held_timers (snd s)). handle_ok (fst s) h)"

definition hand_now :: "'f tclock \<times> hand \<Rightarrow> int" where
  "hand_now s = now (fst s)"

lemma handle_ok_later: "handle_ok c h \<Longrightarrow> next_id c \<le> next_id c' \<Longrightarrow> handle_ok c' h"
  by (auto simp: handle_ok_def)

lemma clock_act_now: "now (fst (clock_act a s)) = now (fst s)"
  by (cases "(a, s)" rule: clock_act.cases) (auto simp: new_timer_def after_func_def new_ticker_def add_entry_def timer_stop_def
      timer_reset_def ticker_stop_def ticker_reset_def chan_recv_def Let_def split: option.split sum.split if_splits)

lemma clock_act_ids: "next_id (fst s) \<le> next_id (fst (clock_act a s))"
  by (cases "(a, s)" rule: clock_act.cases) (auto simp: new_timer_def after_func_def new_ticker_def add_entry_def timer_stop_def
      timer_reset_def ticker_stop_def ticker_reset_def chan_recv_def Let_def split: option.split sum.split if_splits)

lemma chan_recv_ok: "clock_ok c \<Longrightarrow> clock_ok (snd (chan_recv h c))"
  by (auto simp: chan_recv_def clock_ok_def entry_ok_def split: option.split)

lemma clock_act_ok:
  assumes "hand_ok s" and "call_forward a"
  shows "clock_ok (fst (clock_act a s))"
proof (cases s)
  case (Pair c k)
  with assms(1) have ok: "clock_ok c" and h: "\<And>i. i < length (held_timers k) \<Longrightarrow> handle_ok c (held_timers k ! i)"
    by (simp_all add: hand_ok_def)
  show ?thesis using assms(2)
  proof (cases a)
    case (ArmTicker d)
    then show ?thesis using ok new_ticker_ok [OF ok, of d] by (auto simp: Pair split: sum.split)
  next
    case (ResetTicker i d)
    then show ?thesis using ok ticker_reset_ok [OF ok, of "held_tickers k ! i" d] by (auto simp: Pair split: sum.split)
  next
    case (ArmTimer d)
    then show ?thesis using assms(2) new_timer_ok [OF ok, of d] by (simp add: Pair split_beta)
  next
    case (ArmFunc d f)
    then show ?thesis using assms(2) after_func_ok [OF ok, of d f] by (simp add: Pair split_beta)
  qed (use ok h timer_stop_ok [OF ok] ticker_stop_ok [OF ok] timer_reset_ok [OF ok] chan_recv_ok [OF ok] in \<open>auto simp: Pair\<close>)
qed

lemma clock_act_held:
  assumes "\<forall>h \<in> set (held_timers (snd s)). handle_ok (fst s) h"
  shows "\<forall>h \<in> set (held_timers (snd (clock_act a s))). handle_ok (fst (clock_act a s)) h"
proof -
  have old: "\<forall>h \<in> set (held_timers (snd s)). handle_ok (fst (clock_act a s)) h"
    using assms clock_act_ids handle_ok_later by blast
  then show ?thesis
    by (cases "(a, s)" rule: clock_act.cases)
      (auto simp: new_timer_def after_func_def new_ticker_def add_entry_def handle_ok_def Let_def split: sum.splits if_splits)
qed

lemma clock_act_hand: "hand_ok s \<Longrightarrow> call_forward a \<Longrightarrow> hand_ok (clock_act a s)"
  using clock_act_ok clock_act_held by (metis hand_ok_def)

lemma clock_moves_ok:
  assumes "clock_moves s s'" and "hand_ok s"
  shows "hand_ok s' \<and> hand_now s \<le> hand_now s'"
  using assms
proof (induction rule: clock_moves.cases)
  case (calls a s)
  then show ?case using clock_act_hand [of s a] by (simp add: hand_now_def clock_act_now)
next
  case (fires t c e k)
  then have ok: "clock_ok c" and e: "e \<in> set (timers c)" "active e"
    using earliest_due_Some [of t c e] by (simp_all add: hand_ok_def)
  then have "now c \<le> deadline e" by (auto simp: clock_ok_def entry_ok_def)
  with fires ok after_fire_ok [OF ok] show ?case
    by (auto simp: hand_ok_def hand_now_def after_fire_def intro: handle_ok_later)
next
  case (arrives t c k)
  then show ?case using earliest_due_None [of t c]
    by (force simp: hand_ok_def hand_now_def clock_ok_def entry_ok_def handle_ok_def)
qed

interpretation test_clock: monotone_clock hand_ok hand_now clock_moves
  by unfold_locales (simp_all add: clock_moves_ok)

section \<open>Runs are sequences of steps\<close>

definition scene_ok :: "int \<Rightarrow> 'a queue_item \<Rightarrow> ('f, 'a) scene \<Rightarrow> bool" where
  "scene_ok lo z s \<longleftrightarrow> (case s of (c, k, q) \<Rightarrow> test_clock.timed_inv lo z (c, k) q)"

lemma do_act_ok:
  assumes "scene_ok lo z s" and "forward a"
  shows "scene_ok lo z (do_act z a s) \<and> now (fst (do_act z a s)) = now (fst s)"
proof (cases s)
  case (fields c k q)
  then have i: "test_clock.timed_inv lo z (c, k) q" using assms(1) by (simp add: scene_ok_def)
  show ?thesis
  proof (cases a)
    case (Call x)
    then show ?thesis
      using test_clock.timed_clock [OF i calls [of x]] clock_act_now [of x "(c, k)"] assms(2)
      by (simp add: scene_ok_def fields split_beta)
  qed (use test_clock.timed_queue [OF i] in
      \<open>simp_all add: scene_ok_def fields hand_now_def clock_now_def del: queue_step.simps\<close>)
qed

lemma fold_act_ok:
  "list_all forward as \<Longrightarrow> scene_ok lo z s \<Longrightarrow>
    scene_ok lo z (fold (do_act z) as s) \<and> now (fst (fold (do_act z) as s)) = now (fst s)"
  by (induction as arbitrary: s) (simp_all add: do_act_ok)

lemma fire_scene:
  assumes "scene_ok lo z s" and "earliest_due t (fst s) = Some e" and "well_mannered script"
  shows "scene_ok lo z (fire (run_script z script) e s) \<and> now (fst (fire (run_script z script) e s)) \<le> t"
proof (cases s)
  case (fields c k q)
  then have "scene_ok lo z (after_fire e c, k, q)"
    using assms(1,2) test_clock.timed_clock [OF _ fires] by (simp add: scene_ok_def)
  moreover have "list_all forward (script f s)" for f s
    using assms(3) unfolding well_mannered_def list_all_iff by blast
  moreover have "now (after_fire e c) \<le> t"
    using earliest_due_Some [OF assms(2)] by (simp add: after_fire_def)
  ultimately have "scene_ok lo z (run_script z script f (after_fire e c, k, q))
      \<and> now (fst (run_script z script f (after_fire e c, k, q))) \<le> t" for f
    using fold_act_ok [of "script f (after_fire e c, k, q)" lo z "(after_fire e c, k, q)"] by (simp add: run_script_def)
  then show ?thesis using \<open>scene_ok lo z (after_fire e c, k, q)\<close> \<open>now (after_fire e c) \<le> t\<close>
    by (simp add: fields fire_after_fire split: option.split)
qed

lemma set_scene:
  assumes "scene_ok lo z s" and "well_mannered script"
    and "clock_set (run_script z script) t s = Some (Inr (tr, s'))"
  shows "scene_ok lo z s'"
proof (cases s')
  case (fields c' k' q')
  with clock_set_Inr [of _ t s tr c' "(k', q')"] assms(3) obtain c1
    where r: "set_loop (run_script z script) t [] s = Some (tr, c1, k', q')" "c' = c1\<lparr>now := t\<rparr>" "now (fst s) \<le> t" by auto
  have "(scene_ok lo z (c1, k', q') \<and> now (fst (c1, k', q')) \<le> t) \<and> earliest_due t (fst (c1, k', q')) = None"
    by (rule set_loop_rule [OF r(1), where I = "\<lambda>_ s. scene_ok lo z s \<and> now (fst s) \<le> t"])
      (use fire_scene [OF _ _ assms(2)] assms(1) r(3) in blast)+
  then have "test_clock.timed_inv lo z (c1, k') q'" "earliest_due t c1 = None" "now c1 \<le> t"
    by (simp_all add: scene_ok_def)
  then show ?thesis using test_clock.timed_clock [OF _ arrives] unfolding scene_ok_def fields r(2) split by metis
qed

lemma settle_scene:
  assumes "scene_ok lo z s" and "well_mannered script" and "settle (clock_set (run_script z script) t s) s = Some s'"
  shows "scene_ok lo z s'"
proof -
  obtain r where r: "clock_set (run_script z script) t s = Some r" using assms(3) by (auto simp: settle_def)
  show ?thesis
  proof (cases r)
    case (Inr p)
    with set_scene [OF assms(1,2), of t "fst p" "snd p"] r assms(3) show ?thesis by (simp add: settle_def split_beta)
  qed (use r assms(1,3) in \<open>simp add: settle_def\<close>)
qed

lemma do_move_ok:
  assumes "scene_ok lo z s" and "well_mannered script" and "move_forward m"
    and "do_move z script m s = Some s'"
  shows "scene_ok lo z s'"
proof (cases m)
  case (AdvanceBy d)
  with assms(1,4) settle_scene [OF assms(1,2), of "now (fst s) + d"] show ?thesis
    by (cases "d < 0") (auto simp: clock_advance_def settle_def)
next
  case (SetTo t)
  with assms(4) settle_scene [OF assms(1,2)] show ?thesis by simp
next
  case (Act a)
  with assms(3,4) do_act_ok [OF assms(1), of a] show ?thesis by simp
qed

lemma do_moves_ok:
  assumes "well_mannered script"
  shows "scene_ok lo z s \<Longrightarrow> list_all move_forward ms \<Longrightarrow> do_moves z script ms s = Some s' \<Longrightarrow> scene_ok lo z s'"
proof (induction ms arbitrary: s)
  case (Cons m ms)
  obtain s1 where s1: "do_move z script m s = Some s1" "do_moves z script ms s1 = Some s'"
    using Cons.prems(3) by (cases "do_move z script m s") auto
  from do_move_ok [OF Cons.prems(1) assms _ s1(1)] Cons.prems(2) have "scene_ok lo z s1" by simp
  with Cons.IH [OF this _ s1(2)] Cons.prems(2) show ?case by simp
qed simp

text \<open>
  C22. A queue on the deterministic clock expires exactly what is old. A program advances and sets the
  clock, makes, stops and resets timers, tickers and AfterFunc callbacks, and uses the queue; its callbacks run
  when their timers fire and may do all of this too, except move the clock. No timer is made or reset with
  a negative duration (such a timer turns the clock back), and callbacks make no call that panics. After
  any history that returns, the items of the queue carry the instants at which they were put, in order and between
  the start and the present, and DropExpired removes every item stamped at or before the cutoff and no
  other, although it stops at the first item that is younger.
\<close>

theorem expiry_on_test_clock:
  assumes "clock_ok c" and "new_byte_queue z True mp mb = Inr q" and "mb < 2 ^ 62"
    and "well_mannered script" and "list_all move_forward ms"
    and "do_moves z script ms (c, \<lparr>held_timers = [], held_tickers = []\<rparr>, q) = Some (c', k, q')"
  shows "stamped (now c) (now c') (queue_list q')
    \<and> fst (drop_expired z q' t) = filter (\<lambda>it. enqueued it \<le> t) (queue_list q')
    \<and> queue_list (snd (drop_expired z q' t)) = filter (\<lambda>it. t < enqueued it) (queue_list q')"
proof -
  have "hand_ok (c, \<lparr>held_timers = [], held_tickers = []\<rparr>)" using assms(1) by (simp add: hand_ok_def)
  from test_clock.timed_start [OF this assms(2,3)]
  have "scene_ok (now c) z (c, \<lparr>held_timers = [], held_tickers = []\<rparr>, q)" by (simp add: scene_ok_def hand_now_def)
  from do_moves_ok [OF assms(4) this assms(5,6)] have "scene_ok (now c) z (c', k, q')" .
  then show ?thesis using test_clock.expiry_exact [of "now c" z "(c', k)" q' t] by (simp add: scene_ok_def hand_now_def)
qed

text \<open>A timer whose callback puts an item and re-arms itself, by name, with the timer it finds first.\<close>

definition zero_item :: "nat queue_item" where
  "zero_item = \<lparr>qvalue = 0, qbytes = 0, enqueued = 0\<rparr>"

definition put_and_rearm :: "(nat, nat) scripts" where
  "put_and_rearm f s = [Put f 10, Call (ResetTimer 0 4)]"

lemma set_loop_done: "earliest_due t (fst s) = None \<Longrightarrow> set_loop cb t tr s = Some (tr, s)"
  by (subst set_loop.simps) simp

lemma set_loop_next:
  "earliest_due t (fst s) = Some e \<Longrightarrow> set_loop cb t tr s = set_loop cb t (tr @ [e]) (fire cb e s)"
  by (subst set_loop.simps) simp

lemma replicate_4: "replicate 4 x = [x, x, x, x]"
  by (simp add: numeral_eq_Suc)

lemma upt_3: "[0..<3] = [0, 1, 2]" "[0..<Suc (Suc (Suc 0))] = [0, 1, 2]"
  by (simp_all add: upt_rec)

lemma put_and_rearm_calm: "well_mannered put_and_rearm"
  by (simp add: well_mannered_def put_and_rearm_def)

theorem expiry_on_test_clock_witness:
  "\<exists>c k q. do_moves zero_item put_and_rearm
      [Act (Call (ArmFunc 3 9)), Act (Put 7 10), AdvanceBy 5, Act (Put 8 10)]
      (clock_new 0 100, \<lparr>held_timers = [], held_tickers = []\<rparr>,
       \<lparr>items = \<lparr>buf = replicate 4 zero_item, head = 0, count = 0\<rparr>, max_bytes = 100, cur_bytes = 0\<rparr>) = Some (c, k, q)
    \<and> map qvalue (fst (drop_expired zero_item q 103)) = [7, 9]
    \<and> map qvalue (queue_list (snd (drop_expired zero_item q 103))) = [8]"
proof -
  let ?q = "\<lparr>items = \<lparr>buf = replicate 4 zero_item, head = 0, count = 0\<rparr>, max_bytes = 100, cur_bytes = 0\<rparr>"
  let ?ms = "[Act (Call (ArmFunc 3 9)), Act (Put 7 10), AdvanceBy 5, Act (Put 8 10)]"
  have n: "new_byte_queue zero_item True 4 100 = Inr ?q"
    by (simp add: new_byte_queue_def ring_new_def zero_item_def)
  obtain c k q where r: "do_moves zero_item put_and_rearm ?ms
      (clock_new 0 100, \<lparr>held_timers = [], held_tickers = []\<rparr>, ?q) = Some (c, k, q)"
    "map (\<lambda>it. (qvalue it, enqueued it)) (queue_list q) = [(7, 100), (9, 103), (8, 105)]"
    by (simp add: clock_new_def after_func_def add_entry_def timer_reset_def clock_now_def clock_advance_def clock_set_def
        set_loop_done set_loop_next earliest_due_def fire_def delete_entry_def lookup_entry_def run_script_def
        put_and_rearm_def settle_def enqueue_def ring_full_def ring_push_def queue_list_def ring_list_def ring_slot_def
        wrap64_def zero_item_def replicate_4 upt_3)
  show ?thesis using r expiry_on_test_clock [OF clock_new_ok n _ put_and_rearm_calm _ r(1), of 103] by auto
qed

end
