(* ===== verification/KeyVectors.thy ===== *)
theory KeyVectors
  imports Identity
begin

text \<open>
  The golden vector of \<open>internal/identity/testdata/golden/key-schedule.json\<close> for the peer id,
  recomputed by the kernel. A 32-bit word is written as \<open>sha_w\<close> of an integer literal, so that the
  simplifier computes on integers; the 64 rounds are run in four parts.
\<close>

definition sha_w :: "int \<Rightarrow> u32" where "sha_w = word_of_int"

section \<open>Words by integer arithmetic\<close>

lemma sha_w_add: "sha_w a + sha_w b = (sha_w ((a + b) mod 4294967296))"
proof -
  have "sha_w (take_bit 32 (a + b)) = (sha_w (a + b))"
    by (rule bit_word_eqI) (simp add: sha_w_def bit_simps del: of_int_add)
  then show ?thesis by (simp add: sha_w_def take_bit_eq_mod)
qed

lemma sha_w_shr:
  assumes "0 \<le> a" "a < 4294967296"
  shows "drop_bit n (sha_w a) = sha_w (a div 2 ^ n)"
proof -
  have b: "take_bit 32 a = a" using assms by (simp add: take_bit_int_eq_self)
  have "bit a k \<Longrightarrow> k < 32" for k using b by (metis bit_take_bit_iff)
  then show ?thesis
    by (intro bit_word_eqI) (auto simp: sha_w_def bit_simps simp flip: drop_bit_eq_div)
qed

lemma sha_w_rotr:
  assumes "n < 32" "0 \<le> a" "a < 4294967296"
  shows "rotr n (sha_w a) = sha_w (a div 2 ^ n + a mod 2 ^ n * 2 ^ (32 - n))"
proof -
  have b: "take_bit 32 a = a" using assms by (simp add: take_bit_int_eq_self)
  have k: "bit a k \<Longrightarrow> k < 32" for k using b by (metis bit_take_bit_iff)
  have "a div 2 ^ n + a mod 2 ^ n * 2 ^ (32 - n) = drop_bit n a + push_bit (32 - n) (take_bit n a)"
    by (simp add: drop_bit_eq_div take_bit_eq_mod push_bit_eq_mult)
  also have "\<dots> = drop_bit n a OR push_bit (32 - n) (take_bit n a)"
  proof (rule disjunctive_add)
    fix m
    have "bit a (n + m) \<Longrightarrow> n + m < 32" by (rule k)
    then show "\<not> bit (drop_bit n a) m \<or> \<not> bit (push_bit (32 - n) (take_bit n a)) m"
      by (auto simp: bit_simps)
  qed
  finally show ?thesis
    using k assms(1) by (intro bit_word_eqI) (auto simp: sha_w_def rotr_def bit_simps)
qed

lemma sha_w_xor: "sha_w a XOR sha_w b = (sha_w (a XOR b))"
  by (rule bit_word_eqI) (simp add: sha_w_def bit_simps)

lemma sha_w_and: "sha_w a AND sha_w b = (sha_w (a AND b))"
  by (rule bit_word_eqI) (simp add: sha_w_def bit_simps)

lemma sha_w_not: "NOT (sha_w a) = sha_w (4294967295 - a)"
  by (simp add: sha_w_def not_eq_complement)


lemmas sha_eval = sha_w_add sha_w_xor sha_w_and sha_w_not sha_w_rotr sha_w_shr
  sha_round_def sha_next_def Let_def

section \<open>The rounds\<close>

definition vector_key :: "byte list" where
  "vector_key = map of_nat [0..<32]"

lemma vector_block: "be_words (sha_pad vector_key) = map sha_w [
     0x00010203, 0x04050607, 0x08090a0b, 0x0c0d0e0f, 0x10111213, 0x14151617, 0x18191a1b, 0x1c1d1e1f,
     0x80000000, 0x00000000, 0x00000000, 0x00000000, 0x00000000, 0x00000000, 0x00000000, 0x00000100]"
proof -
  have zeros: "replicate 23 (0 :: byte) = [0, 0, 0, 0, 0, 0, 0, 0, 0, 0, 0, 0, 0, 0, 0, 0, 0, 0, 0, 0, 0, 0, 0]"
    by (simp add: numeral_eq_Suc)
  show ?thesis
    by (simp add: vector_key_def sha_w_def sha_pad_def upt_rec Let_def zeros push_bit_eq_mult)
qed

lemma vector_rounds_1: "sha_rounds (map sha_w [
     1116352408, 1899447441, 3049323471, 3921009573, 961987163, 1508970993, 2453635748, 2870763221,
     3624381080, 310598401, 607225278, 1426881987, 1925078388, 2162078206, 2614888103, 3248222580])
   (map sha_w [
     0x00010203, 0x04050607, 0x08090a0b, 0x0c0d0e0f, 0x10111213, 0x14151617, 0x18191a1b, 0x1c1d1e1f,
     0x80000000, 0x00000000, 0x00000000, 0x00000000, 0x00000000, 0x00000000, 0x00000000, 0x00000100],
    (sha_w 0x6a09e667, sha_w 0xbb67ae85, sha_w 0x3c6ef372, sha_w 0xa54ff53a,
     sha_w 0x510e527f, sha_w 0x9b05688c, sha_w 0x1f83d9ab, sha_w 0x5be0cd19))
   = (map sha_w [
     0x4f0a6dd0, 0x5a38f75e, 0xdf656fe8, 0xd2063ad7, 0x937f0d03, 0x61d08055, 0xf95ade26, 0xcc6014e1,
     0x0f22ec8f, 0xe84537a1, 0xfddbe9a5, 0xd09de56a, 0xeba9b801, 0x4786f34a, 0xb7da37d2, 0xe90bc2c1],
    (sha_w 0x615a4f21, sha_w 0x0ce8b8b5, sha_w 0xd997ed77, sha_w 0x40963e1d,
     sha_w 0x611cfb60, sha_w 0xa6fadbe9, sha_w 0xc968ce46, sha_w 0xdde52afb))"
  by (simp add: sha_rounds_def sha_eval)

lemma vector_rounds_2: "sha_rounds (map sha_w [
     3835390401, 4022224774, 264347078, 604807628, 770255983, 1249150122, 1555081692, 1996064986,
     2554220882, 2821834349, 2952996808, 3210313671, 3336571891, 3584528711, 113926993, 338241895])
   (map sha_w [
     0x4f0a6dd0, 0x5a38f75e, 0xdf656fe8, 0xd2063ad7, 0x937f0d03, 0x61d08055, 0xf95ade26, 0xcc6014e1,
     0x0f22ec8f, 0xe84537a1, 0xfddbe9a5, 0xd09de56a, 0xeba9b801, 0x4786f34a, 0xb7da37d2, 0xe90bc2c1],
    (sha_w 0x615a4f21, sha_w 0x0ce8b8b5, sha_w 0xd997ed77, sha_w 0x40963e1d,
     sha_w 0x611cfb60, sha_w 0xa6fadbe9, sha_w 0xc968ce46, sha_w 0xdde52afb))
   = (map sha_w [
     0x1eb39a97, 0x82bfbd52, 0xa9735569, 0xbcddad24, 0x2226a70d, 0x621506f3, 0x49030f92, 0xb3ace301,
     0x8b3c2dcd, 0x2dae4736, 0x051f85fb, 0x4edd6404, 0xa0afa72f, 0xed7b7c2b, 0x0124401d, 0x11429a26],
    (sha_w 0x33c09824, sha_w 0xb9974960, sha_w 0xc090dc96, sha_w 0xff083a61,
     sha_w 0x9a4966ab, sha_w 0xc741d3e3, sha_w 0x76822fcb, sha_w 0xe2c41ebc))"
  by (simp add: sha_rounds_def sha_eval)

lemma vector_rounds_3: "sha_rounds (map sha_w [
     666307205, 773529912, 1294757372, 1396182291, 1695183700, 1986661051, 2177026350, 2456956037,
     2730485921, 2820302411, 3259730800, 3345764771, 3516065817, 3600352804, 4094571909, 275423344])
   (map sha_w [
     0x1eb39a97, 0x82bfbd52, 0xa9735569, 0xbcddad24, 0x2226a70d, 0x621506f3, 0x49030f92, 0xb3ace301,
     0x8b3c2dcd, 0x2dae4736, 0x051f85fb, 0x4edd6404, 0xa0afa72f, 0xed7b7c2b, 0x0124401d, 0x11429a26],
    (sha_w 0x33c09824, sha_w 0xb9974960, sha_w 0xc090dc96, sha_w 0xff083a61,
     sha_w 0x9a4966ab, sha_w 0xc741d3e3, sha_w 0x76822fcb, sha_w 0xe2c41ebc))
   = (map sha_w [
     0x4e7573f2, 0xb959c3d7, 0x4590cede, 0xef10a370, 0x398203d7, 0x977deaff, 0xc9b76e76, 0xcb2adc4b,
     0x9780e0dd, 0xc0b47b4e, 0xb8c7c872, 0xddfd40ad, 0xeac62eda, 0xe9c8957c, 0x875f0838, 0xb29dedff],
    (sha_w 0x2cc7c3f3, sha_w 0xd43482a3, sha_w 0xa3c78ec5, sha_w 0x28979458,
     sha_w 0x85a6a4a6, sha_w 0x4a408e61, sha_w 0x2d426c12, sha_w 0x42f716c3))"
  by (simp add: sha_rounds_def sha_eval)

lemma vector_rounds_4: "sha_rounds (map sha_w [
     430227734, 506948616, 659060556, 883997877, 958139571, 1322822218, 1537002063, 1747873779,
     1955562222, 2024104815, 2227730452, 2361852424, 2428436474, 2756734187, 3204031479, 3329325298])
   (map sha_w [
     0x4e7573f2, 0xb959c3d7, 0x4590cede, 0xef10a370, 0x398203d7, 0x977deaff, 0xc9b76e76, 0xcb2adc4b,
     0x9780e0dd, 0xc0b47b4e, 0xb8c7c872, 0xddfd40ad, 0xeac62eda, 0xe9c8957c, 0x875f0838, 0xb29dedff],
    (sha_w 0x2cc7c3f3, sha_w 0xd43482a3, sha_w 0xa3c78ec5, sha_w 0x28979458,
     sha_w 0x85a6a4a6, sha_w 0x4a408e61, sha_w 0x2d426c12, sha_w 0x42f716c3))
   = (map sha_w [
     0x3d10d971, 0x451cbdd1, 0x70081b93, 0xccd12969, 0xc97110ab, 0xffc0106e, 0x60aa1b42, 0xa4297e12,
     0xc6b34d26, 0xc2147c5e, 0x64ce2f22, 0x7c3e80e6, 0x7ea846b4, 0x7ecf2db6, 0xe9650b9d, 0xc047f472],
    (sha_w 0xf903e6c2, sha_w 0xab5c84e1, sha_w 0x54a360d6, sha_w 0x16626615,
     sha_w 0xa304521d, sha_w 0xd8284a3c, sha_w 0x8c3ddead, sha_w 0xbff643c4))"
  by (simp add: sha_rounds_def sha_eval)

section \<open>The peer id\<close>

lemma be_bytes_sha_w:
  assumes "0 \<le> a" "a < 4294967296"
  shows "be_bytes (sha_w a) =
    [word_of_int (a div 2 ^ 24), word_of_int (a div 2 ^ 16), word_of_int (a div 2 ^ 8), word_of_int a]"
proof -
  have "ucast (sha_w b) = (word_of_int b :: byte)" for b
    by (rule bit_word_eqI) (simp add: sha_w_def bit_simps)
  then show ?thesis using assms by (simp add: be_bytes_def sha_w_shr)
qed

lemma sha_start_w: "sha_start = (sha_w 0x6a09e667, sha_w 0xbb67ae85, sha_w 0x3c6ef372, sha_w 0xa54ff53a,
    sha_w 0x510e527f, sha_w 0x9b05688c, sha_w 0x1f83d9ab, sha_w 0x5be0cd19)"
  by (simp add: sha_start_def sha_w_def)

lemma sha_k_parts: "sha_k = map sha_w [
     1116352408, 1899447441, 3049323471, 3921009573, 961987163, 1508970993, 2453635748, 2870763221,
     3624381080, 310598401, 607225278, 1426881987, 1925078388, 2162078206, 2614888103, 3248222580]
   @ map sha_w [
     3835390401, 4022224774, 264347078, 604807628, 770255983, 1249150122, 1555081692, 1996064986,
     2554220882, 2821834349, 2952996808, 3210313671, 3336571891, 3584528711, 113926993, 338241895]
   @ map sha_w [
     666307205, 773529912, 1294757372, 1396182291, 1695183700, 1986661051, 2177026350, 2456956037,
     2730485921, 2820302411, 3259730800, 3345764771, 3516065817, 3600352804, 4094571909, 275423344]
   @ map sha_w [
     430227734, 506948616, 659060556, 883997877, 958139571, 1322822218, 1537002063, 1747873779,
     1955562222, 2024104815, 2227730452, 2361852424, 2428436474, 2756734187, 3204031479, 3329325298]"
  by (simp add: sha_k_def sha_w_def)

lemma vector_rounds: "snd (sha_rounds sha_k (be_words (sha_pad vector_key), sha_start)) =
   (sha_w 0xf903e6c2, sha_w 0xab5c84e1, sha_w 0x54a360d6, sha_w 0x16626615,
    sha_w 0xa304521d, sha_w 0xd8284a3c, sha_w 0x8c3ddead, sha_w 0xbff643c4)"
  unfolding sha_k_parts sha_rounds_append vector_block sha_start_w
    vector_rounds_1 vector_rounds_2 vector_rounds_3 vector_rounds_4 by simp

text \<open>The peer id of the golden file: the first eight bytes of the digest of the public key.\<close>

theorem peer_id_golden:
  "derive_peer_id vector_key = [0x63, 0x0d, 0xcd, 0x29, 0x66, 0xc4, 0x33, 0x66]"
proof -
  have "length (be_words (sha_pad vector_key)) = 16" by (simp add: vector_block)
  then have "sha_blocks (be_words (sha_pad vector_key)) sha_start = sha_compress (be_words (sha_pad vector_key)) sha_start"
    by (cases "be_words (sha_pad vector_key)") simp_all
  then have "sha256 vector_key = concat (map be_bytes (map sha_w [
     0x630dcd29, 0x66c43366, 0x91125448, 0xbbb25b4f, 0xf412a49c, 0x732db2c8, 0xabc1b858, 0x1bd710dd]))"
    using vector_rounds by (simp add: sha256_def sha_compress_def sha_start_w sha_w_add)
  then show ?thesis by (simp add: derive_peer_id_def be_bytes_sha_w)
qed

end
