(* ===== verification/Cli.thy ===== *)
theory Cli
  imports BuildInfo Identity ConfigServer ConfigClient JournalLoad JournalHost
begin

text \<open>
  The command line, \<open>cmd/red-mpudp\<close>: \<open>run\<close> with the refusal of secret flags, the key commands,
  the configuration commands and \<open>cleanup\<close>, which composes \<open>flag.Parse\<close>, \<open>journal.Load\<close> and
  \<open>journal.Recover\<close> on the Linux host. What a process reads is the record \<open>env\<close>; what it can
  change is the record \<open>world\<close>: the key files and the kernel behind the tools. A line printed is a
  message whose constructor names the call of \<open>fmt.Fprintf\<close>.
\<close>

datatype flag_err = BadFlagSyntax string | FlagHelp | UndefinedFlag string | FlagNeedsArgument string

datatype message =
    UsageText
  | UnknownSubcommand string
  | SecretFlag string
  | NeedsOnePath string
  | CryptoFailed crypto_err
  | KeyFileFailed file_err
  | WrotePrivateKey string "byte list"
  | WrotePSK string
  | PublicKeyLine "byte list"
  | VersionLine string
  | CheckConfigUsage
  | UnknownRole string
  | ConfigUnreadable
  | ConfigFailed load_problem
  | ConfigValid string string
  | RunUsage string
  | ConfigLoaded string string
  | FlagFailed flag_err
  | NeedsStateFile
  | BadRole string
  | NoJournal string
  | LoadFailed load_err
  | JournalRoleMismatch string string string
  | JournalInstanceMismatch string string
  | RecoverLog log_line
  | Recovered string string nat nat nat nat nat
  | SysctlKept string
  | KillSwitchKept
  | ResolverByHand
  | RecoveryIncomplete recover_err

record 'b env =
  e_info :: info
  e_random :: "byte list option"
  e_write_faults :: write_faults
  e_umask :: u32
  e_base_mult :: "byte list \<Rightarrow> byte list"
  e_read :: "string \<Rightarrow> 'b option"
  e_yaml_client :: "'b \<Rightarrow> (string + client) list"
  e_yaml_server :: "'b \<Rightarrow> (string + server) list"
  e_euid :: u32
  e_stat_fails :: bool
  e_read_fails :: bool
  e_key_read_fails :: bool
  e_layout :: "string \<Rightarrow> int option"
  e_fs :: fs

record 'k world =
  key_files :: "string \<rightharpoonup> key_file"
  kernel :: 'k

text \<open>Exit code, lines on standard output, lines on standard error, and the world.\<close>

type_synonym 'k outcome = "nat \<times> message list \<times> message list \<times> 'k world"

definition exit_ok :: nat where "exit_ok = 0"
definition exit_usage :: nat where "exit_usage = 2"
definition exit_config :: nat where "exit_config = 3"
definition exit_permission :: nat where "exit_permission = 4"
definition exit_runtime :: nat where "exit_runtime = 5"

lemmas exit_defs = exit_ok_def exit_usage_def exit_config_def exit_permission_def exit_runtime_def

section \<open>Secrets are never flags\<close>

definition flag_name :: "string \<Rightarrow> string" where
  "flag_name a = cut_at (CHR ''='') (to_lower (trim_left (CHR ''-'') a))"

definition banned_names :: "string list" where
  "banned_names = [''psk'', ''key'', ''secret'', ''private-key'', ''preshared'']"

fun reject_secret_flags :: "string list \<Rightarrow> message option" where
  "reject_secret_flags [] = None"
| "reject_secret_flags (a # as) =
     (if \<not> has_prefix a ''-'' then reject_secret_flags as
      else if list_ex (\<lambda>b. flag_name a = b \<or> contains_sub (flag_name a) b) banned_names
      then Some (SecretFlag a)
      else reject_secret_flags as)"

section \<open>Key commands\<close>

definition single_path_arg :: "string \<Rightarrow> string list \<Rightarrow> message + string" where
  "single_path_arg name args =
     (if length args \<noteq> 1 \<or> args ! 0 = [] then Inl (NeedsOnePath name) else Inr (args ! 0))"

definition trim_nl :: "byte list \<Rightarrow> byte list" where
  "trim_nl b = rev (dropWhile (\<lambda>x. x = 10 \<or> x = 13) (rev b))"

definition cmd_keygen :: "'b env \<Rightarrow> string list \<Rightarrow> 'k world \<Rightarrow> 'k outcome" where
  "cmd_keygen E args w =
     (case single_path_arg ''keygen'' args of
        Inl m \<Rightarrow> (exit_usage, [], [m], w)
      | Inr path \<Rightarrow>
     (case generate_private_key (e_random E) of
        Inl e \<Rightarrow> (exit_runtime, [], [CryptoFailed e], w)
      | Inr priv \<Rightarrow>
     (case write_private_key_file (e_write_faults E) (e_umask E) path priv (key_files w) of
        (Some e, files) \<Rightarrow> (exit_runtime, [], [KeyFileFailed e], w\<lparr>key_files := files\<rparr>)
      | (None, files) \<Rightarrow>
     (case public_key (e_base_mult E) priv of
        Inl e \<Rightarrow> (exit_runtime, [], [CryptoFailed e], w\<lparr>key_files := files\<rparr>)
      | Inr pub \<Rightarrow>
          (exit_ok, [WrotePrivateKey path (trim_nl (encode_key pub))], [], w\<lparr>key_files := files\<rparr>)))))"

definition cmd_psk :: "'b env \<Rightarrow> string list \<Rightarrow> 'k world \<Rightarrow> 'k outcome" where
  "cmd_psk E args w =
     (case single_path_arg ''psk'' args of
        Inl m \<Rightarrow> (exit_usage, [], [m], w)
      | Inr path \<Rightarrow>
     (case generate_psk (e_random E) of
        Inl e \<Rightarrow> (exit_runtime, [], [CryptoFailed e], w)
      | Inr psk \<Rightarrow>
     (case write_private_key_file (e_write_faults E) (e_umask E) path psk (key_files w) of
        (Some e, files) \<Rightarrow> (exit_runtime, [], [KeyFileFailed e], w\<lparr>key_files := files\<rparr>)
      | (None, files) \<Rightarrow> (exit_ok, [WrotePSK path], [], w\<lparr>key_files := files\<rparr>))))"

definition cmd_public_key :: "'b env \<Rightarrow> string list \<Rightarrow> 'k world \<Rightarrow> 'k outcome" where
  "cmd_public_key E args w =
     (case single_path_arg ''public-key'' args of
        Inl m \<Rightarrow> (exit_usage, [], [m], w)
      | Inr path \<Rightarrow>
     (case load_private_key_file (map_option file_mode (key_files w path))
             (if e_key_read_fails E then None else map_option file_data (key_files w path)) of
        Inl e \<Rightarrow> (exit_permission, [], [KeyFileFailed e], w)
      | Inr priv \<Rightarrow>
     (case public_key (e_base_mult E) priv of
        Inl e \<Rightarrow> (exit_runtime, [], [CryptoFailed e], w)
      | Inr pub \<Rightarrow> (exit_ok, [PublicKeyLine (trim_nl (encode_key pub))], [], w))))"

section \<open>Configuration commands\<close>

text \<open>\<open>LoadClientFile\<close> and \<open>LoadServerFile\<close>; the configuration itself is not used further.\<close>

definition load_client_file :: "'b env \<Rightarrow> string \<Rightarrow> message + client" where
  "load_client_file E path =
     (case e_read E path of None \<Rightarrow> Inl ConfigUnreadable
      | Some data \<Rightarrow> (case load_client (e_yaml_client E) data of Inl p \<Rightarrow> Inl (ConfigFailed p) | Inr c \<Rightarrow> Inr c))"

definition load_server_file :: "'b env \<Rightarrow> string \<Rightarrow> message + server" where
  "load_server_file E path =
     (case e_read E path of None \<Rightarrow> Inl ConfigUnreadable
      | Some data \<Rightarrow> (case load_server (e_yaml_server E) data of Inl p \<Rightarrow> Inl (ConfigFailed p) | Inr s \<Rightarrow> Inr s))"

definition cmd_check_config :: "'b env \<Rightarrow> string list \<Rightarrow> 'k world \<Rightarrow> 'k outcome" where
  "cmd_check_config E args w =
     (if length args \<noteq> 2 then (exit_usage, [], [CheckConfigUsage], w)
      else (let kind = args ! 0; path = args ! 1 in
        if kind = ''client'' then
          (case load_client_file E path of
             Inl m \<Rightarrow> (exit_config, [], [m], w)
           | Inr c \<Rightarrow> (exit_ok, [ConfigValid kind path], [], w))
        else if kind = ''server'' then
          (case load_server_file E path of
             Inl m \<Rightarrow> (exit_config, [], [m], w)
           | Inr s \<Rightarrow> (exit_ok, [ConfigValid kind path], [], w))
        else (exit_usage, [], [UnknownRole kind], w)))"

definition cmd_run_prepare :: "'b env \<Rightarrow> string \<Rightarrow> string list \<Rightarrow> 'k world \<Rightarrow> 'k outcome" where
  "cmd_run_prepare E kind args w =
     (if length args \<noteq> 1 then (exit_usage, [], [RunUsage kind], w)
      else (let path = args ! 0 in
        if kind = ''client'' then
          (case load_client_file E path of
             Inl m \<Rightarrow> (exit_config, [], [m], w)
           | Inr c \<Rightarrow> (exit_ok, [ConfigLoaded kind path], [], w))
        else if kind = ''server'' then
          (case load_server_file E path of
             Inl m \<Rightarrow> (exit_config, [], [m], w)
           | Inr s \<Rightarrow> (exit_ok, [ConfigLoaded kind path], [], w))
        else (exit_ok, [ConfigLoaded kind path], [], w)))"

section \<open>Cleanup\<close>

record cleanup_flags =
  flag_state_file :: string
  flag_role :: string
  flag_instance :: string

definition no_flags :: cleanup_flags where
  "no_flags = \<lparr>flag_state_file = [], flag_role = [], flag_instance = []\<rparr>"

definition set_flag :: "string \<Rightarrow> string \<Rightarrow> cleanup_flags \<Rightarrow> cleanup_flags" where
  "set_flag name v f =
     (if name = ''state-file'' then f\<lparr>flag_state_file := v\<rparr>
      else if name = ''role'' then f\<lparr>flag_role := v\<rparr>
      else f\<lparr>flag_instance := v\<rparr>)"

text \<open>
  The flag set of \<open>cleanup\<close> under \<open>flag.FlagSet.Parse\<close>: one or two dashes, the value after \<open>=\<close> or
  in the next argument; the first argument that is no flag, or \<open>--\<close>, ends the flags.
\<close>

definition flag_body :: "string \<Rightarrow> string" where
  "flag_body s = (if take 2 s = ''--'' then drop 2 s else drop 1 s)"

definition flag_value :: "string \<Rightarrow> string option" where
  "flag_value b = (let n = cut_at (CHR ''='') b in if n = b then None else Some (drop (length n + 1) b))"

fun parse_flags :: "string list \<Rightarrow> cleanup_flags \<Rightarrow> flag_err + cleanup_flags" where
  "parse_flags [] f = Inr f"
| "parse_flags (s # rest) f =
     (if length s < 2 \<or> \<not> has_prefix s ''-'' \<or> s = ''--'' then Inr f
      else (let b = flag_body s; name = cut_at (CHR ''='') b in
        if b = [] \<or> has_prefix b ''-'' \<or> has_prefix b ''='' then Inl (BadFlagSyntax s)
        else if name \<notin> {''state-file'', ''role'', ''instance''} then
          Inl (if name = ''help'' \<or> name = ''h'' then FlagHelp else UndefinedFlag name)
        else (case flag_value b of
                Some v \<Rightarrow> parse_flags rest (set_flag name v f)
              | None \<Rightarrow>
                  (case rest of
                     [] \<Rightarrow> Inl (FlagNeedsArgument name)
                   | v # rest' \<Rightarrow> parse_flags rest' (set_flag name v f)))))"

fun step_cause :: "step_err \<Rightarrow> host_err" where
  "step_cause (DeleteRouteErr _ e) = e"
| "step_cause (DeleteRuleErr _ e) = e"
| "step_cause (RestoreResolverErr e) = e"
| "step_cause (ReadSysctlErr _ e) = e"
| "step_cause (RestoreSysctlErr _ e) = e"
| "step_cause (DeleteTableErr _ e) = e"
| "step_cause (DeleteNftErr _ e) = e"

fun is_resolver_unsupported :: "recover_err \<Rightarrow> bool" where
  "is_resolver_unsupported (Refused e) = False"
| "is_resolver_unsupported (HaltedBeforeKillSwitch es) = (ErrResolverUnsupported \<in> step_cause ` set es)"
| "is_resolver_unsupported (KillSwitchErrs es) = (ErrResolverUnsupported \<in> step_cause ` set es)"

definition cleanup_host :: linux_host where
  "cleanup_host = \<lparr>ip_path = [], sysctl_path = [], nft_path = []\<rparr>"

abbreviation load_state :: "'b env \<Rightarrow> string \<Rightarrow> load_err + journal" where
  "load_state E p \<equiv>
     journal_load (journal_dec (rfc3339_parse (e_layout E))) (e_euid E) (e_stat_fails E) (e_read_fails E) p (e_fs E)"

text \<open>The journal \<open>cleanup\<close> acts on, or the exit code and message of its refusal.\<close>

definition cleanup_journal :: "'b env \<Rightarrow> string list \<Rightarrow> (nat \<times> message) + journal \<times> string" where
  "cleanup_journal E args =
     (case parse_flags args no_flags of
        Inl e \<Rightarrow> Inl (exit_usage, FlagFailed e)
      | Inr f \<Rightarrow>
          if flag_state_file f = [] then Inl (exit_usage, NeedsStateFile)
          else if flag_role f \<notin> {[], role_client, role_server} then Inl (exit_usage, BadRole (flag_role f))
          else (case load_state E (flag_state_file f) of
             Inl e \<Rightarrow> Inl (exit_config,
               if e = OpenErr \<and> entries (e_fs E) (flag_state_file f) = None
               then NoJournal (flag_state_file f) else LoadFailed e)
           | Inr j \<Rightarrow>
               if flag_role f \<noteq> [] \<and> role j \<noteq> flag_role f then
                 Inl (exit_config, JournalRoleMismatch (flag_state_file f) (role j) (flag_role f))
               else if flag_instance f \<noteq> [] \<and> instance_id j \<noteq> flag_instance f then
                 Inl (exit_config, JournalInstanceMismatch (instance_id j) (flag_instance f))
               else Inr (j, flag_instance f)))"

definition cmd_cleanup :: "'b env \<Rightarrow> 'k os \<Rightarrow> string list \<Rightarrow> 'k world \<Rightarrow> 'k outcome" where
  "cmd_cleanup E S args w =
     (case cleanup_journal E args of
        Inl (code, m) \<Rightarrow> (code, [], [m], w)
      | Inr (j, inst) \<Rightarrow>
     (case recover (linux_ops S cleanup_host) j (role j) inst (kernel w) of
        (err, rep, logs, k') \<Rightarrow>
          (let out = Recovered (instance_id j) (role j) (routes_removed rep) (rules_removed rep)
                 (tables_removed rep) (nftables_removed rep) (length (sysctls_restored rep))
                 # map SysctlKept (sysctl_conflicts rep);
               kept = (if kill_switch_retained rep then [KillSwitchKept] else [])
           in case err of
                None \<Rightarrow> (exit_ok, out, map RecoverLog logs @ kept, w\<lparr>kernel := k'\<rparr>)
              | Some e \<Rightarrow> (exit_runtime, out,
                  map RecoverLog logs @ kept @ (if is_resolver_unsupported e then [ResolverByHand] else [])
                  @ [RecoveryIncomplete e], w\<lparr>kernel := k'\<rparr>))))"

section \<open>The entry point\<close>

definition run :: "'b env \<Rightarrow> 'k os \<Rightarrow> string list \<Rightarrow> 'k world \<Rightarrow> 'k outcome" where
  "run E S args w =
     (case args of
        [] \<Rightarrow> (exit_usage, [], [UsageText], w)
      | cmd # rest \<Rightarrow>
     (case reject_secret_flags args of
        Some m \<Rightarrow> (exit_usage, [], [m], w)
      | None \<Rightarrow>
          if cmd \<in> {''version'', ''--version'', ''-v''} then (exit_ok, [VersionLine (format_info (e_info E))], [], w)
          else if cmd \<in> {''help'', ''--help'', ''-h''} then (exit_ok, [UsageText], [], w)
          else if cmd = ''keygen'' then cmd_keygen E rest w
          else if cmd = ''public-key'' then cmd_public_key E rest w
          else if cmd = ''psk'' then cmd_psk E rest w
          else if cmd = ''check-config'' then cmd_check_config E rest w
          else if cmd = ''client'' \<or> cmd = ''server'' then cmd_run_prepare E cmd rest w
          else if cmd = ''cleanup'' then cmd_cleanup E S rest w
          else (exit_usage, [], [UnknownSubcommand cmd, UsageText], w)))"

section \<open>What the exit codes mean\<close>

lemma write_exclusive_other:
  "write_exclusive flt u p d m files = (e, files') \<Longrightarrow> q \<noteq> p \<Longrightarrow> files' q = files q"
  by (auto simp: write_exclusive_def Let_def split: if_splits option.splits)

lemma write_exclusive_new:
  "write_exclusive flt u p d m files = (e, files') \<Longrightarrow> files p = Some f \<Longrightarrow> files' = files"
  by (auto simp: write_exclusive_def Let_def split: if_splits option.splits)

lemma cleanup_codes: "cleanup_journal E args = Inl (code, m) \<Longrightarrow> code \<in> {exit_usage, exit_config}"
  by (auto simp: cleanup_journal_def Let_def split: sum.splits if_splits)

text \<open>No command but \<open>cleanup\<close> touches the kernel, and only two commands touch the key files.\<close>

lemma config_commands_keep:
  "\<exists>c out e. cmd_check_config E args w = (c, out, e, w) \<and> c \<in> {exit_ok, exit_usage, exit_config}"
  "\<exists>c out e. cmd_run_prepare E k args w = (c, out, e, w) \<and> c \<in> {exit_ok, exit_usage, exit_config}"
  by (auto simp: cmd_check_config_def cmd_run_prepare_def Let_def split: sum.split)

lemma public_key_keeps:
  "\<exists>c out e. cmd_public_key E args w = (c, out, e, w) \<and> c \<in> {exit_ok, exit_usage, exit_permission, exit_runtime}"
  by (auto simp: cmd_public_key_def split: sum.split)

definition only_new_files :: "(string \<rightharpoonup> key_file) \<Rightarrow> (string \<rightharpoonup> key_file) \<Rightarrow> bool" where
  "only_new_files files files' \<longleftrightarrow> (\<forall>p f. files p = Some f \<longrightarrow> files' p = Some f)"

lemma only_new_refl [simp]: "only_new_files f f"
  by (simp add: only_new_files_def)

lemma write_private_key_new:
  "write_private_key_file flt u p k files = (e, files') \<Longrightarrow> only_new_files files files'"
  unfolding write_private_key_file_def only_new_files_def
  by (metis write_exclusive_new write_exclusive_other)

definition outcome_ok :: "'k world \<Rightarrow> 'k outcome \<Rightarrow> bool" where
  "outcome_ok w r = (case r of (c, out, e, w') \<Rightarrow>
     (c \<in> {exit_ok, exit_usage, exit_config, exit_permission, exit_runtime}) \<and>
     (c \<in> {exit_usage, exit_config, exit_permission} \<longrightarrow> w' = w \<and> out = [] \<and> e \<noteq> [])
     \<and> (c = exit_runtime \<longrightarrow> e \<noteq> [])
     \<and> only_new_files (key_files w) (key_files w'))"

lemma outcome_keygen: "outcome_ok w (cmd_keygen E args w)"
  by (auto simp: cmd_keygen_def outcome_ok_def exit_defs dest: write_private_key_new split: sum.split prod.split option.split)

lemma outcome_psk: "outcome_ok w (cmd_psk E args w)"
  by (auto simp: cmd_psk_def outcome_ok_def exit_defs dest: write_private_key_new split: sum.split prod.split option.split)

lemma outcome_public_key: "outcome_ok w (cmd_public_key E args w)"
  by (auto simp: cmd_public_key_def outcome_ok_def exit_defs split: sum.split)

lemma outcome_config: "outcome_ok w (cmd_check_config E args w)" "outcome_ok w (cmd_run_prepare E k args w)"
  by (auto simp: cmd_check_config_def cmd_run_prepare_def outcome_ok_def exit_defs Let_def split: sum.split)

lemma outcome_cleanup: "outcome_ok w (cmd_cleanup E S args w)"
  by (auto simp: cmd_cleanup_def outcome_ok_def exit_defs Let_def dest: cleanup_codes split: sum.split prod.split option.split)

lemma outcome_printed: "outcome_ok w (exit_ok, out, [], w)"
  by (simp add: outcome_ok_def exit_defs)

lemma outcome_refused: "m \<noteq> [] \<Longrightarrow> outcome_ok w (exit_usage, [], m, w)"
  by (simp add: outcome_ok_def exit_defs)

lemma outcome_run: "outcome_ok w (run E S args w)"
proof (cases args)
  case Nil
  then show ?thesis by (simp add: run_def outcome_refused)
next
  case (Cons a as)
  show ?thesis unfolding Cons run_def list.case
    by (cases "reject_secret_flags (a # as)")
      (simp_all only: option.case outcome_printed outcome_refused outcome_keygen outcome_psk
        outcome_public_key outcome_config outcome_cleanup list.distinct simp_thms split: if_split)
qed

section \<open>Refusals\<close>

lemma reject_some:
  assumes "a \<in> set args" and "has_prefix a ''-''" and "b \<in> set banned_names" and "contains_sub (flag_name a) b"
  shows "\<exists>c \<in> set args. reject_secret_flags args = Some (SecretFlag c)"
  using assms(1)
proof (induction args)
  case (Cons x xs)
  show ?case
  proof (cases "reject_secret_flags [x] = None")
    case True
    then have "x \<noteq> a" using assms(2-4) by (auto simp: list_ex_iff split: if_splits)
    with Cons True show ?thesis by (auto split: if_splits)
  next
    case False
    then show ?thesis by (auto split: if_splits)
  qed
qed simp

lemma lower_char_eq: "lower_char x = CHR ''='' \<longleftrightarrow> x = CHR ''=''"
proof -
  have "char_of (n + 32) \<noteq> CHR ''=''" if "65 \<le> n" "n \<le> 90" for n :: nat
  proof
    assume "char_of (n + 32) = CHR ''=''"
    then have "of_char (char_of (n + 32) :: char) = (of_char (CHR ''='') :: nat)" by simp
    with that show False by simp
  qed
  then show ?thesis by (auto simp: lower_char_def Let_def)
qed

text \<open>
  C12. Key material on the command line is refused before anything else happens: if the name of
  any flag, wherever it stands and whatever the command, contains \<open>key\<close>, \<open>psk\<close>, \<open>secret\<close> or
  \<open>preshared\<close> in any letter case, the program exits with the usage code, reads nothing and
  changes nothing.
\<close>

theorem secret_flags_refused:
  assumes "a \<in> set args" and "a = dashes @ name @ suffix" and "dashes \<noteq> []" and "set dashes = {CHR ''-''}"
    and "name \<noteq> []" and "hd name \<noteq> CHR ''-''" and "CHR ''='' \<notin> set name" and "suffix = [] \<or> hd suffix = CHR ''=''"
    and "b \<in> {''key'', ''psk'', ''secret'', ''preshared''}" and "contains_sub (to_lower name) b"
  shows "\<exists>c \<in> set args. \<forall>E S w. run E S args w = (2, [], [SecretFlag c], w)"
proof -
  have "dropWhile (\<lambda>x. x = CHR ''-'') dashes = []" using assms(4) by auto
  then have "trim_left (CHR ''-'') a = name @ suffix"
    using assms(2,4,5,6) by (cases name) (auto simp: trim_left_def dropWhile_append)
  then have "flag_name a = to_lower name"
    using assms(7,8) by (cases suffix) (auto simp: flag_name_def cut_at_def to_lower_def takeWhile_append lower_char_eq)
  moreover have "has_prefix a ''-''" using assms(2-4) by (cases dashes) (auto simp: has_prefix_def)
  moreover have "b \<in> set banned_names" using assms(9) by (auto simp: banned_names_def)
  ultimately obtain c where "c \<in> set args" "reject_secret_flags args = Some (SecretFlag c)"
    using reject_some [OF assms(1)] assms(10) by metis
  moreover from this(1) obtain x xs where "args = x # xs" by (cases args) auto
  ultimately show ?thesis
    by (auto simp: run_def exit_usage_def simp del: reject_secret_flags.simps)
qed

text \<open>
  C13. The exit codes mean what they say: the program ends with one of the five documented codes;
  after a usage, configuration or permission error nothing was changed and the error was
  printed; a run-time error is always printed; and no command ever changes or removes a key
  file that existed.
\<close>

theorem run_exit_codes:
  assumes "run E S args w = (code, out, err, w')"
  shows "code \<in> {0, 2, 3, 4, 5}
    \<and> (code \<in> {2, 3, 4} \<longrightarrow> w' = w \<and> out = [] \<and> err \<noteq> []) \<and> (code = 5 \<longrightarrow> err \<noteq> [])
    \<and> (\<forall>p f. key_files w p = Some f \<longrightarrow> key_files w' p = Some f)"
  using outcome_run [of w E S args] assms by (simp add: outcome_ok_def exit_defs only_new_files_def)

section \<open>Cleanup acts on a trusted journal only\<close>

lemma cleanup_journal_loaded:
  assumes "cleanup_journal E args = Inr (j, inst)"
  obtains f where "parse_flags args no_flags = Inr f" "flag_state_file f \<noteq> []"
    "load_state E (flag_state_file f) = Inr j"
    "flag_role f \<in> {[], role j}" "flag_instance f \<in> {[], instance_id j}" "inst = flag_instance f"
proof -
  obtain f where f: "parse_flags args no_flags = Inr f"
    using assms by (cases "parse_flags args no_flags") (simp_all add: cleanup_journal_def)
  let ?l = "load_state E (flag_state_file f)"
  have l: "?l = Inr j" "flag_state_file f \<noteq> []" "flag_role f = [] \<or> role j = flag_role f"
    "flag_instance f = [] \<or> instance_id j = flag_instance f" "inst = flag_instance f"
    using assms by (simp_all add: cleanup_journal_def f split: sum.splits if_split_asm)
  show ?thesis by (rule that [OF f l(2,1) _ _ l(5)]) (use l(3,4) in auto)
qed

lemma cleanup_world:
  "snd (snd (snd (cmd_cleanup E S args w))) =
     (case cleanup_journal E args of
        Inl _ \<Rightarrow> w
      | Inr (j, inst) \<Rightarrow> w\<lparr>kernel := snd (snd (snd (recover (linux_ops S cleanup_host) j (role j) inst (kernel w))))\<rparr>)"
  by (auto simp: cmd_cleanup_def Let_def split: sum.split prod.split option.split)

lemma key_commands_kernel:
  "kernel (snd (snd (snd (cmd_keygen E args w)))) = kernel w"
  "kernel (snd (snd (snd (cmd_psk E args w)))) = kernel w"
  by (auto simp: cmd_keygen_def cmd_psk_def split: sum.split prod.split option.split)

lemma read_commands_world:
  "snd (snd (snd (cmd_public_key E args w))) = w"
  "snd (snd (snd (cmd_check_config E args w))) = w"
  "snd (snd (snd (cmd_run_prepare E k args w))) = w"
  using public_key_keeps [of E args w] config_commands_keep(1) [of E args w]
    config_commands_keep(2) [of E k args w] by auto

lemma only_cleanup_reaches_kernel:
  assumes "kernel (snd (snd (snd (run E S args w)))) \<noteq> kernel w"
  obtains rest where "args = ''cleanup'' # rest" "run E S args w = cmd_cleanup E S rest w"
proof (cases args)
  case Nil
  with assms show ?thesis by (simp add: run_def)
next
  case (Cons a as)
  have "a = ''cleanup'' \<and> run E S (a # as) w = cmd_cleanup E S as w"
    using assms unfolding Cons run_def list.case
    by (cases "reject_secret_flags (a # as)")
      (simp_all only: option.case snd_conv key_commands_kernel read_commands_world list.inject
        char.inject simp_thms split: if_splits)
  with that Cons show ?thesis by blast
qed

text \<open>
  C2. End to end, on Linux: the program runs a tool or touches a procfs file only in \<open>cleanup\<close>,
  and then only after the journal named by \<open>--state-file\<close> was loaded from a trusted file and
  matched the \<open>--role\<close> and \<open>--instance\<close> that were given; everything it runs, reads or writes is
  the undo of a record of that journal.
\<close>

theorem cleanup_confined:
  assumes "run E (logged S) args \<lparr>key_files = files, kernel = (k, [])\<rparr> = (code, out, err, w')"
    and "call \<in> set (snd (kernel w'))"
  shows "\<exists>rest f j. args = ''cleanup'' # rest \<and> parse_flags rest no_flags = Inr f
    \<and> load_state E (flag_state_file f) = Inr j
    \<and> flag_role f \<in> {[], role j} \<and> flag_instance f \<in> {[], instance_id j}
    \<and> owned_os_call \<lparr>ip_path = [], sysctl_path = [], nft_path = []\<rparr> j call"
proof -
  let ?w = "\<lparr>key_files = files, kernel = (k, [])\<rparr>"
  have "kernel (snd (snd (snd (run E (logged S) args ?w)))) \<noteq> kernel ?w"
    using assms by auto
  then obtain rest where r: "args = ''cleanup'' # rest" "run E (logged S) args ?w = cmd_cleanup E (logged S) rest ?w"
    by (rule only_cleanup_reaches_kernel)
  then have w': "w' = snd (snd (snd (cmd_cleanup E (logged S) rest ?w)))" using assms(1) by simp
  show ?thesis
  proof (cases "cleanup_journal E rest")
    case (Inl x)
    with assms(2) show ?thesis by (simp add: w' cleanup_world)
  next
    case (Inr x)
    then obtain j inst where j: "cleanup_journal E rest = Inr (j, inst)" by (cases x) auto
    have "snd (kernel w') = os_calls S cleanup_host j (role j) inst k"
      by (simp add: w' cleanup_world j os_calls_def)
    then have "owned_os_call cleanup_host j call"
      using assms(2) linux_calls_owned [of cleanup_host j S "role j" inst k] by (simp add: list_all_iff)
    with r j show ?thesis by (auto simp: cleanup_host_def elim!: cleanup_journal_loaded)
  qed
qed

lemma delete_all_clean: "delete_all del wrap xs h = ([], n, h') \<Longrightarrow> n = length xs"
  by (induction xs arbitrary: h n) (auto simp: Let_def split: prod.splits option.splits)

lemma recover_clean:
  assumes "recover H j r i h = (None, rep, logs, h')"
  shows "routes_removed rep = length (routes j) \<and> rules_removed rep = length (rules j)
    \<and> tables_removed rep = length (tables j) \<and> nftables_removed rep = length (nftables j)
    \<and> \<not> kill_switch_retained rep"
  using assms by (auto simp: recover_def Let_def empty_report_def dest: delete_all_clean
      split: option.splits prod.splits if_splits)

text \<open>
  C14. When \<open>cleanup\<close> exits with 0, a trusted journal was recovered completely: the line it prints
  counts every route, rule, table and nftables table of the journal as removed, and the kill
  switch is not kept.
\<close>

theorem cleanup_success_complete:
  assumes "cmd_cleanup E S args w = (0, out, err, w')"
  shows "\<exists>f j n kept. parse_flags args no_flags = Inr f
    \<and> load_state E (flag_state_file f) = Inr j
    \<and> out = Recovered (instance_id j) (role j) (length (routes j)) (length (rules j)) (length (tables j))
                (length (nftables j)) n # map SysctlKept kept
    \<and> KillSwitchKept \<notin> set err"
proof -
  have "\<exists>j inst. cleanup_journal E args = Inr (j, inst)"
    using assms cleanup_codes [of E args]
    by (auto simp: cmd_cleanup_def exit_defs split: sum.splits prod.splits)
  then obtain j inst where j: "cleanup_journal E args = Inr (j, inst)" by blast
  obtain e rep logs k' where r: "recover (linux_ops S cleanup_host) j (role j) inst (kernel w) = (e, rep, logs, k')"
    using prod_cases4 by blast
  have "e = None" using assms j r by (auto simp: cmd_cleanup_def exit_defs Let_def split: option.splits)
  with recover_clean [of _ j "role j" inst "kernel w" rep logs k'] r have c: "routes_removed rep = length (routes j)" "rules_removed rep = length (rules j)"
    "tables_removed rep = length (tables j)" "nftables_removed rep = length (nftables j)"
    "\<not> kill_switch_retained rep" by simp_all
  from j obtain f where "parse_flags args no_flags = Inr f"
    "load_state E (flag_state_file f) = Inr j"
    by (rule cleanup_journal_loaded)
  moreover have "out = Recovered (instance_id j) (role j) (length (routes j)) (length (rules j)) (length (tables j))
      (length (nftables j)) (length (sysctls_restored rep)) # map SysctlKept (sysctl_conflicts rep)"
    "KillSwitchKept \<notin> set err"
    using assms j r c \<open>e = None\<close> by (auto simp: cmd_cleanup_def Let_def)
  ultimately show ?thesis by blast
qed

section \<open>Key files end to end\<close>

lemma trim_nl_plain: "b = [] \<or> last b \<notin> {10, 13} \<Longrightarrow> trim_nl (b @ [10]) = b"
  by (cases b rule: rev_cases) (auto simp: trim_nl_def)

lemma printed_key: "trim_nl (encode_key k) = b64_encode k"
proof -
  have "last (b64_encode k) \<notin> {10, 13}" if "b64_encode k \<noteq> []"
    using encode_text [of "last (b64_encode k)" k] last_in_set [OF that] by auto
  then show ?thesis unfolding encode_key_def by (blast intro: trim_nl_plain)
qed

lemma written_private_key:
  assumes "write_private_key_file flt u p k files = (None, files')" and "length k = 32"
  shows "load_private_key_file (map_option file_mode (files' p)) (map_option file_data (files' p)) = Inr k"
    "load_private_key_file (map_option file_mode (files' p)) None = Inl PathErr"
proof -
  have "files' p = Some \<lparr>file_mode = 384 AND NOT u, file_data = encode_key k\<rparr>"
    using assms(1) by (auto simp: write_private_key_file_def write_exclusive_def Let_def
        split: if_splits option.splits)
  then show "load_private_key_file (map_option file_mode (files' p)) (map_option file_data (files' p)) = Inr k"
    "load_private_key_file (map_option file_mode (files' p)) None = Inl PathErr"
    using parse_encode [of k] assms(2)
    by (simp_all add: load_private_key_file_def require_private_perms_def masked_private key_len_def)
qed

lemma run_key_commands:
  assumes "run E S [''keygen'', p] w = (0, out, err, w')"
  shows "cmd_keygen E [p] w = (0, out, err, w')" "run E2 S [''public-key'', p] w2 = cmd_public_key E2 [p] w2"
proof -
  have r: "reject_secret_flags [''keygen'', p] = None"
    using assms by (cases "reject_secret_flags [''keygen'', p]") (simp_all add: run_def exit_defs)
  then show "cmd_keygen E [p] w = (0, out, err, w')" using assms by (simp add: run_def)
  from r have "reject_secret_flags [''public-key'', p] = None" by (auto simp: has_prefix_def split: if_splits)
  then show "run E2 S [''public-key'', p] w2 = cmd_public_key E2 [p] w2" by (simp add: run_def)
qed

text \<open>
  C11. A key made by \<open>keygen\<close> works with \<open>public-key\<close>: after a successful \<open>keygen p\<close>, in the world
  it left, \<open>public-key p\<close> exits with 0 and prints the very public key that \<open>keygen\<close> printed; the
  printed text decodes to the public key, and the file did not exist before; if the file cannot be read
  back, \<open>public-key\<close> prints nothing and exits with the permission code. The random source
  delivers the 32 bytes of a private key.
\<close>

theorem keygen_then_public_key:
  assumes "e_random E = Some priv" and "length priv = 32"
    and "run E S [''keygen'', p] w = (0, out, err, w')" and "e_base_mult E' = e_base_mult E"
  shows "key_files w p = None \<and> (\<exists>text. out = [WrotePrivateKey p text]
    \<and> run E' S [''public-key'', p] w' =
        (if e_key_read_fails E' then (4, [], [KeyFileFailed PathErr], w') else (0, [PublicKeyLine text], [], w'))
    \<and> b64_decode text = Some (e_base_mult E priv))"
proof -
  note r = run_key_commands [OF assms(3)]
  have p: "p \<noteq> []" using r(1) by (auto simp: cmd_keygen_def single_path_arg_def exit_defs)
  from r(1) assms(1,2) p obtain files where
    f: "write_private_key_file (e_write_faults E) (e_umask E) p priv (key_files w) = (None, files)"
      "out = [WrotePrivateKey p (b64_encode (e_base_mult E priv))]" "w' = w\<lparr>key_files := files\<rparr>"
    by (auto simp: cmd_keygen_def single_path_arg_def generate_private_key_def public_key_def key_len_def
        printed_key exit_defs split: prod.splits option.splits)
  have "key_files w p = None"
    using f(1) by (auto simp: write_private_key_file_def write_exclusive_def split: option.splits if_splits)
  moreover have "cmd_public_key E' [p] w' = (if e_key_read_fails E' then (4, [], [KeyFileFailed PathErr], w')
      else (0, [PublicKeyLine (b64_encode (e_base_mult E priv))], [], w'))"
    using written_private_key [OF f(1) assms(2)] p assms(2,4)
    by (simp add: cmd_public_key_def f(3) single_path_arg_def public_key_def key_len_def printed_key exit_defs)
  ultimately show ?thesis by (simp add: f(2) r(2) b64_roundtrip)
qed

text \<open>
  \<open>cleanup\<close> ignores what stands after the first argument that is no flag, the ownership pins
  included: with \<open>--state-file p x --role server --instance id\<close> nothing is pinned, and recovery
  runs as if neither had been given.
\<close>

theorem cleanup_ignores_later_pins:
  assumes "\<not> has_prefix x ''-''"
  shows "cmd_cleanup E S (''--state-file'' # p # x # rest) w = cmd_cleanup E S [''--state-file'', p] w"
  using assms by (simp add: cmd_cleanup_def cleanup_journal_def flag_body_def flag_value_def cut_at_def
      has_prefix_def Let_def)

section \<open>Cleanup after a crash\<close>

lemma cleanup_of_state:
  assumes "load_state E p = Inr j" and "p \<noteq> []"
  shows "cleanup_journal E [''--state-file'', p] = Inr (j, [])"
  using assms by (simp add: cleanup_journal_def flag_body_def flag_value_def cut_at_def has_prefix_def no_flags_def
      set_flag_def Let_def)

lemma cleanup_recovers:
  assumes "cleanup_journal E args = Inr (j, inst)" and "cmd_cleanup E S args w = (code, out, err, w')"
  shows "\<exists>e rep logs k. recover (linux_ops S cleanup_host) j (role j) inst (kernel w) = (e, rep, logs, k)
    \<and> w' = w\<lparr>kernel := k\<rparr> \<and> code = (if e = None then 0 else 5)"
proof -
  obtain e rep logs k where r: "recover (linux_ops S cleanup_host) j (role j) inst (kernel w) = (e, rep, logs, k)"
    using prod_cases4 by blast
  with assms show ?thesis by (auto simp: cmd_cleanup_def exit_defs Let_def split: option.splits)
qed

text \<open>
  C3. A crash never strands the host. A crash is the death of the process, which loses nothing, or a
  power failure, which leaves any version of the directory since its last sync and anything in the
  files that were not flushed. If it happens at any point while the program updates its journal, whatever
  had failed, and one of the journals \<open>J\<close> could be loaded after a crash before the update, then the next
  \<open>cleanup --state-file\<close> finds a journal that it trusts, one of \<open>J\<close> or the new one (only the new one once
  the update has succeeded with a sync of the directory), runs recovery on it, and exits with 0 exactly
  when that recovery has no error and with the run-time code otherwise; it is never a configuration error.
\<close>

theorem cleanup_after_crash:
  assumes "write_to (journal_enc (rfc3339_text (60 * k))) (e_euid E) tmp ino flt p j s = (we, ss)" and "p \<noteq> tmp"
    and "fresh_inode ino s"
    and "\<And>s'. crash s s' \<Longrightarrow> load_state (E\<lparr>e_fs := s'\<rparr>) p \<in> Inr ` J"
    and "t \<in> set (s # ss)" and "crash t t'"
    and "p \<noteq> []" and "\<not> e_stat_fails E" and "\<not> e_read_fails E"
    and "cmd_cleanup (E\<lparr>e_fs := t'\<rparr>) S [''--state-file'', p] w = (code, out, err, w')"
  shows "\<exists>a \<in> (if we = None \<and> f_dir_sync flt = None \<and> t = last ss then {clean_journal (with_schema j)}
        else insert (clean_journal (with_schema j)) J). \<exists>e rep logs h.
    recover (linux_ops S cleanup_host) a (role a) [] (kernel w) = (e, rep, logs, h)
    \<and> w' = w\<lparr>kernel := h\<rparr> \<and> code = (if e = None then 0 else 5)"
proof -
  let ?A = "if we = None \<and> f_dir_sync flt = None \<and> t = last ss then {clean_journal (with_schema j)}
    else insert (clean_journal (with_schema j)) J"
  have "json_load (e_layout E) (e_euid E) p s' \<in> Inr ` J" if "crash s s'" for s'
    using assms(4) [OF that] assms(8,9) by simp
  then have "load_state (E\<lparr>e_fs := t'\<rparr>) p \<in> Inr ` ?A"
    using json_crash_result [OF assms(1-3) _ assms(5,6)] assms(8,9) by simp
  then obtain a where a: "a \<in> ?A" "load_state (E\<lparr>e_fs := t'\<rparr>) p = Inr a" by blast
  from cleanup_recovers [OF cleanup_of_state [OF a(2) assms(7)] assms(10)] a(1) show ?thesis by blast
qed

section \<open>A concrete environment, and the witnesses\<close>

definition sample_env :: "unit env" where
  "sample_env = \<lparr>e_info = \<lparr>version = ''dev'', commit = ''c'', date = ''d'', go_version = ''go''\<rparr>,
     e_random = Some (replicate 32 7), e_write_faults = no_write_faults, e_umask = 18, e_base_mult = rev,
     e_read = (\<lambda>_. None), e_yaml_client = (\<lambda>_. []), e_yaml_server = (\<lambda>_. []),
     e_euid = 0, e_stat_fails = False, e_read_fails = False, e_key_read_fails = False, e_layout = Map.empty, e_fs = json_fs\<rparr>"

definition new_world :: "'k \<Rightarrow> 'k world" where
  "new_world k = \<lparr>key_files = Map.empty, kernel = k\<rparr>"

text \<open>
  \<open>singlePathArg\<close> promises a non-flag argument, but an argument that starts with a dash and
  does not name a secret is taken as the path: \<open>keygen -x\<close> succeeds and creates a file \<open>-x\<close>.
\<close>

theorem flag_taken_as_path:
  "\<exists>out files. run sample_env S [''keygen'', ''-x''] (new_world k) = (0, out, [], \<lparr>key_files = files, kernel = k\<rparr>)
    \<and> files ''-x'' \<noteq> None"
  by (simp add: run_def cmd_keygen_def has_prefix_def flag_name_def trim_left_def cut_at_def to_lower_def
      lower_char_def banned_names_def single_path_arg_def generate_private_key_def sample_env_def
      write_private_key_file_def write_exclusive_def no_write_faults_def public_key_def key_len_def
      new_world_def exit_defs Let_def)

theorem secret_flags_refused_witness:
  "\<exists>c \<in> set [''keygen'', ''-PSK=x'']. \<forall>E S w. run E S [''keygen'', ''-PSK=x''] w = (2, [], [SecretFlag c], w)"
  by (rule secret_flags_refused [where a = "''-PSK=x''" and dashes = "''-''" and name = "''PSK''"
        and suffix = "''=x''" and b = "''psk''"])
    (simp_all add: to_lower_def lower_char_def has_prefix_def char_of_def bit_0)

theorem run_exit_codes_witness:
  "\<exists>out err. run sample_env quiet_os [''client''] (new_world ()) = (2, out, err, new_world ()) \<and> out = [] \<and> err \<noteq> []"
proof -
  obtain c out e w' where r: "run sample_env quiet_os [''client''] (new_world ()) = (c, out, e, w')"
    using prod_cases4 by blast
  then have "c = 2" by (simp add: run_def has_prefix_def cmd_run_prepare_def exit_defs)
  with run_exit_codes [OF r] r show ?thesis by simp
qed

lemma sample_cleanup_journal:
  "cleanup_journal sample_env [''--state-file'', ''j''] = Inr (sample_journal, [])"
  by (simp add: cleanup_journal_def flag_body_def flag_value_def cut_at_def has_prefix_def no_flags_def
      set_flag_def sample_env_def sample_json_load Let_def)

lemma sample_run_cleanup:
  "run sample_env S [''cleanup'', ''--state-file'', ''j''] w = cmd_cleanup sample_env S [''--state-file'', ''j''] w"
  by (simp add: run_def has_prefix_def flag_name_def trim_left_def cut_at_def to_lower_def
      lower_char_def banned_names_def Let_def)

theorem cleanup_success_complete_witness:
  "\<exists>out err w' f. cmd_cleanup sample_env quiet_os [''--state-file'', ''j''] (new_world ()) = (0, out, err, w')
    \<and> parse_flags [''--state-file'', ''j''] no_flags = Inr f \<and> KillSwitchKept \<notin> set err"
proof -
  obtain c out err w' where r:
    "cmd_cleanup sample_env quiet_os [''--state-file'', ''j''] (new_world ()) = (c, out, err, w')"
    using prod_cases4 by blast
  have "\<exists>rep logs. recover (linux_ops quiet_os cleanup_host) sample_journal ''client'' [] () = (None, rep, logs, ())"
  proof -
    have "journal_validate sample_journal = None" "check_owner sample_journal ''client'' [] = None"
      using sample_journal_ok by (simp_all add: journal_validate_None check_owner_None owned_by_def sample_journal_def)
    then show ?thesis
      by (simp add: recover_def) (simp add: sample_journal_def linux_ops_def quiet_os_def deleted_by_def
          idempotent_delete_def restore_resolver_state_def trim_space_def is_space_def Let_def)
  qed
  then have "c = 0"
    using r by (auto simp: cmd_cleanup_def sample_cleanup_journal new_world_def exit_defs Let_def)
      (simp add: sample_journal_def exit_defs)
  with cleanup_success_complete [of sample_env quiet_os "[''--state-file'', ''j'']" "new_world ()" out err w'] r
  show ?thesis by auto
qed

lemma sample_cleanup_log:
  "Ran ''ip'' (table_args 200) \<in> set (snd (kernel (snd (snd (snd
     (run sample_env (logged quiet_os) [''cleanup'', ''--state-file'', ''j''] (new_world ((), []))))))))"
proof -
  have "journal_validate sample_journal = None" "check_owner sample_journal ''client'' [] = None"
    using sample_journal_ok by (simp_all add: journal_validate_None check_owner_None owned_by_def sample_journal_def)
  then have "Ran ''ip'' (table_args 200) \<in> set (snd (snd (snd (snd
      (recover (linux_ops (logged quiet_os) cleanup_host) sample_journal ''client'' [] ((), []))))))"
    by (simp add: recover_def) (simp add: sample_journal_def linux_ops_def quiet_os_def logged_def deleted_by_def
        idempotent_delete_def restore_resolver_state_def trim_space_def is_space_def ip_cmd_def cleanup_host_def Let_def)
  then show ?thesis
    by (simp add: sample_run_cleanup cleanup_world sample_cleanup_journal new_world_def) (simp add: sample_journal_def)
qed

theorem cleanup_confined_witness:
  "\<exists>j. owned_os_call \<lparr>ip_path = [], sysctl_path = [], nft_path = []\<rparr> j (Ran ''ip'' (table_args 200))"
proof -
  obtain c out e w' where
    r: "run sample_env (logged quiet_os) [''cleanup'', ''--state-file'', ''j''] (new_world ((), [])) = (c, out, e, w')"
    using prod_cases4 by blast
  then have "Ran ''ip'' (table_args 200) \<in> set (snd (kernel w'))" using sample_cleanup_log by simp
  from cleanup_confined [OF r [unfolded new_world_def] this] show ?thesis by blast
qed

theorem cleanup_ignores_later_pins_witness:
  "cmd_cleanup sample_env quiet_os [''--state-file'', ''j'', ''x'', ''--role'', ''server''] (new_world ())
     = cmd_cleanup sample_env quiet_os [''--state-file'', ''j''] (new_world ())"
  by (rule cleanup_ignores_later_pins) (simp add: has_prefix_def)

theorem keygen_then_public_key_witness:
  "\<exists>text out err w'. run sample_env quiet_os [''keygen'', ''k''] (new_world ()) = (0, out, err, w')
    \<and> run sample_env quiet_os [''public-key'', ''k''] w' = (0, [PublicKeyLine text], [], w')"
proof -
  have "\<exists>out err w'. run sample_env quiet_os [''keygen'', ''k''] (new_world ()) = (0, out, err, w')"
    by (simp add: run_def cmd_keygen_def has_prefix_def single_path_arg_def generate_private_key_def
        sample_env_def write_private_key_file_def write_exclusive_def no_write_faults_def public_key_def
        key_len_def new_world_def exit_defs Let_def)
  then obtain out err w' where r: "run sample_env quiet_os [''keygen'', ''k''] (new_world ()) = (0, out, err, w')" by blast
  have "e_random sample_env = Some (replicate 32 7)" by (simp add: sample_env_def)
  from keygen_then_public_key [OF this _ r refl] r show ?thesis by (auto simp: sample_env_def)
qed

theorem cleanup_after_crash_witness:
  "\<exists>ss code out err w'. write_to (journal_enc (rfc3339_text (60 * 0))) 0 ''t'' 2 no_faults ''j'' sample_journal json_fs = (None, ss)
    \<and> cmd_cleanup (sample_env\<lparr>e_fs := hd ss\<rparr>) quiet_os [''--state-file'', ''j''] (new_world ()) = (code, out, err, w')
    \<and> (code = 0 \<or> code = 5)"
proof -
  obtain ss where w: "write_to (journal_enc (rfc3339_text (60 * 0))) (e_euid sample_env) ''t'' 2 no_faults ''j'' sample_journal json_fs
      = (None, ss)" and "ss \<noteq> []" using sample_json_write [of 0] by (auto simp: sample_env_def)
  then have t: "hd ss \<in> set (json_fs # ss)" by simp
  obtain code out err w' where c: "cmd_cleanup (sample_env\<lparr>e_fs := hd ss\<rparr>) quiet_os
      [''--state-file'', ''j''] (new_world ()) = (code, out, err, w')" using prod_cases4 by blast
  have l: "load_state (sample_env\<lparr>e_fs := s'\<rparr>) ''j'' \<in> Inr ` {sample_journal}" if "crash json_fs s'" for s'
    using sample_json_crash [OF that] by (simp add: sample_env_def)
  have "\<exists>e. code = (if e = (None :: recover_err option) then 0 else 5)"
    using cleanup_after_crash [OF w _ json_fs_fresh l t crash.killed _ _ _ c] by (fastforce simp: sample_env_def)
  then have "code = 0 \<or> code = 5" by (auto split: if_splits)
  with w c show ?thesis by (auto simp: sample_env_def)
qed

end
