(* ===== verification/Spec2Isabelle.thy ===== *)
theory Spec2Isabelle
  imports Prelude Ring ByteQueue TestClock JournalSchema JournalRecover JournalStore JournalHost
    JsonText Json Rfc3339 JournalJson JournalLoad SystemClock
    PacketBuf Reason BuildInfo Base64 Identity Float64 Netip ConfigChecks ConfigClient ConfigServer
    ConfigTypes DurationText PlainPacket Tun TunCancel Congestion Binary64 Phase0Sim StaleFeedback QuicDatagram QueueClock KeyVectors Cli
begin

text \<open>
  Red MPUDP is a multipath VPN over UDP, in Go. This commit holds what surrounds the data plane: the
  command line, the configuration, key material, the journal of network changes with its crash
  recovery, the TUN device, pooled packet buffers, bounded queues, a deterministic clock for tests,
  reason codes, and two experiments (the congestion controller on a simulated bottleneck, and QUIC
  datagrams). The library models that code function by function and proves what makes it correct.

  How the parts interact. \<open>run\<close> (\<open>cmd/red-mpudp\<close>) dispatches to the subcommands. \<open>keygen\<close>, \<open>psk\<close>
  and \<open>public-key\<close> use \<open>internal/identity\<close>; \<open>check-config\<close>, \<open>client\<close> and \<open>server\<close> load the
  configuration with \<open>internal/config\<close>; \<open>cleanup\<close> loads a journal (\<open>internal/journal/store.go\<close>),
  checks the ownership pins, and runs \<open>Recover\<close> (\<open>recover.go\<close>) on the Linux host
  (\<open>host_linux.go\<close>). The TUN layer reads packets into buffers of the pool (\<open>pooled.go\<close>). A bounded
  queue stamps its items with a clock that it is given.

  Theories and the code they model:
  \<^item> \<open>Prelude\<close>: Go's 64-bit integers over \<open>int\<close> (\<open>wrap64\<close>), panics (\<open>may_panic\<close>), division towards
    zero, the string functions of the standard library on ASCII, decimal and hexadecimal texts, the
    locales \<open>simulation\<close> (one step refines one step) and \<open>settling_jobs\<close> (running a list of jobs
    again changes nothing), and the collections of automation.
  \<^item> \<open>Ring\<close>, \<open>ByteQueue\<close>: \<open>internal/bounded\<close>. Both refine a bounded list; the locale
    \<open>bounded_fifo\<close> holds what the queue needs of the ring. \<open>QueueClock\<close>: programs and callbacks that use a queue
    and the clock that stamps its items, with the locale \<open>monotone_clock\<close> that the test clock provides.
  \<^item> \<open>TestClock\<close>: \<open>internal/testclock\<close>. \<open>Set\<close> loops until no timer is due; callbacks are a
    parameter that may change the clock and a world of their own. \<open>SystemClock\<close>: \<open>internal/clock\<close>
    over the timers of package \<open>time\<close>, and the locale \<open>timer_impl\<close>, the contract of a timer, that
    both clocks are shown to keep.
  \<^item> \<open>JournalSchema\<close>, \<open>JournalStore\<close>, \<open>JournalRecover\<close>, \<open>JournalHost\<close>: \<open>internal/journal\<close>. A file
    system is a directory, the versions of it that may be on disk, and inodes with flushed or unflushed
    contents. A \<open>crash\<close> is the death of the process, which leaves everything in place, or a power failure,
    which leaves any version since the last sync of the directory, with anything in the inodes that were not
    flushed. \<open>Recover\<close> runs over a record of host operations, as over the Go interface.
  \<^item> \<open>JsonText\<close>, \<open>Json\<close>, \<open>Rfc3339\<close>, \<open>JournalJson\<close>, \<open>JournalLoad\<close>: the journal as a JSON document, with
    what \<open>encoding/json\<close> does with strings, numbers, fields and times, and the locale \<open>time_codec\<close>;
    a document that was printed is parsed back, so a journal that was stored is loaded.
  \<^item> \<open>Base64\<close>, \<open>Sha256\<close>, \<open>Identity\<close>, \<open>KeyVectors\<close>: \<open>internal/identity\<close> with the encodings and
    hashes it uses of the standard library; \<open>KeyVectors\<close> recomputes the peer id of the repository's
    golden file in the kernel.
  \<^item> \<open>Netip\<close>, \<open>Float64\<close>, \<open>ConfigChecks\<close>, \<open>ConfigTypes\<close>, \<open>DurationText\<close>, \<open>ConfigClient\<close>, \<open>ConfigServer\<close>:
    \<open>internal/config\<close>. Validation is the list of all problems, as in the code; the theorems say for
    which configurations it is empty. Durations are parsed and printed as package \<open>time\<close> does, fractions
    included, and what is printed is read back.
  \<^item> \<open>PacketBuf\<close>, \<open>Tun\<close>: \<open>internal/packetbuf\<close> (production and debug build) and \<open>internal/tun\<close>. A
    buffer is a cell of a heap and a pointer its index, so aliasing is visible; \<open>own_step\<close> is the
    step relation of callers that use what they own. \<open>TunCancel\<close>: a read and the goroutines that cancel
    it, close the device or use it meanwhile, as a state machine.
  \<^item> \<open>Congestion\<close>, \<open>Binary64\<close>, \<open>Phase0Sim\<close>: \<open>internal/congestion/phase0sim\<close>, the controller in
    64-bit integers, the link, the flows and the fairness index in binary64. \<open>StaleFeedback\<close>: an
    experiment whose reports stop.
  \<^item> \<open>QuicDatagram\<close>: \<open>experiments/quicdatagram\<close>. \<open>Reason\<close>: \<open>internal/reason\<close>. \<open>BuildInfo\<close>:
    \<open>internal/buildinfo\<close>. \<open>Cli\<close>: \<open>cmd/red-mpudp\<close>. \<open>PlainPacket\<close>: the packets of
    \<open>test/integration\<close> with their checksum; the check accepts what the builder makes.

  What the theorems show. Recovery: the kill switch is removed last and only after everything else
  succeeded, a sysctl is restored only while it holds what the program installed, a second run
  changes nothing, and the report counts what was undone. Journal: after the death of the process or a power failure at any point of an
  update, Load gives the old journal or the new one, and only the new one once the update has succeeded; what
  it trusts is, by the permission rules of the file system, under the control of the right owner alone. Command line: secrets are refused, exit codes say what happened, cleanup touches
  only what the journal names. Configuration: a file loads exactly when it satisfies what Validate checks, and
  \<open>check-config\<close> is a dry run of the start.
  Buffers: what the pool hands out has no other owner, and reads and writes do not leak.
  Cancellation: on a pollable file a cancelled read returns its context's error, and one call's deadline
  does not end another as long as no callback is late; both assumptions are shown to matter. Queues and
  clock: first in first out within the limits, exact expiry, timers in deadline order, every tick
  counted. Simulation: the run returns and stays within its limits.

  Termination and bounds. Loops over data are structural or have a measure (\<open>drop_expired\<close> the count of
  the ring, \<open>components\<close> the length of the text, \<open>itoa\<close> and \<open>fold_carry\<close> the number). Two loops may run forever and are
  partial functions: \<open>set_loop\<close> (callbacks may re-arm timers) and \<open>run_loop\<close> (a step may have length
  zero). For both there are theorems when they return, and examples where they do not. No fuel is
  used.
  Byte budgets below \<open>2 ^ 62\<close> keep the sums of a queue within 64 bits; rates below \<open>2 ^ 53\<close> are exact
  in binary64.

  Assumptions. Floating point is binary64 with rounding to nearest even, every operation rounded by
  itself as on amd64; signed zeros are not distinguished. Case mapping and trimming of strings are
  those of ASCII. An operation under a mutex is one step; concurrency is the order of steps.
  Changes of one directory reach the disk in their order; the metadata and contents of an inode that was not
  flushed are arbitrary after a power failure.
  A file is pollable when its descriptor is in non-blocking mode, as package \<open>os\<close> documents. X25519,
  random bytes, the YAML decoder, the layout parser behind the strict one of \<open>time\<close>, commands and
  system calls are parameters, and a theorem that needs something of them says so in a hypothesis.

  Not modelled: \<open>internal/noisehandshake\<close>, a package comment; the rest of \<open>test/integration\<close>, which
  drives network namespaces; the wording of error messages, which are constructors here.
\<close>

section \<open>Configuration and command line\<close>

lemma client_file_valid:
  assumes "\<forall>data c. e_yaml_client E data = [Inr c] \<longrightarrow> exact_rates (c_congestion (apply_client_defaults c))"
  shows "(\<exists>c. load_client_file E p = Inr c) \<longleftrightarrow> (\<exists>data c. e_read E p = Some data
    \<and> e_yaml_client E data = [Inr c] \<and> client_ok (apply_client_defaults c))"
proof -
  have "(\<exists>c. load_client (e_yaml_client E) data = Inr c)
      \<longleftrightarrow> (\<exists>c. e_yaml_client E data = [Inr c] \<and> validate_client (apply_client_defaults c) = [])" for data
    by (auto simp: load_client_def Let_def err_of_def decode_one [symmetric] split: sum.split)
  moreover have "validate_client (apply_client_defaults c) = [] \<longleftrightarrow> client_ok (apply_client_defaults c)"
    if "e_yaml_client E data = [Inr c]" for data c
    using client_valid assms that by blast
  moreover have "(\<exists>c. load_client_file E p = Inr c) \<longleftrightarrow>
      (\<exists>data. e_read E p = Some data \<and> (\<exists>c. load_client (e_yaml_client E) data = Inr c))"
    by (auto simp: load_client_file_def split: option.split sum.split)
  ultimately show ?thesis by metis
qed

lemma server_file_valid:
  assumes "\<forall>data s. e_yaml_server E data = [Inr s] \<longrightarrow> exact_rates (s_congestion (apply_server_defaults s))"
  shows "(\<exists>s. load_server_file E p = Inr s) \<longleftrightarrow> (\<exists>data s. e_read E p = Some data
    \<and> e_yaml_server E data = [Inr s] \<and> server_ok (apply_server_defaults s))"
proof -
  have "(\<exists>s. load_server (e_yaml_server E) data = Inr s)
      \<longleftrightarrow> (\<exists>s. e_yaml_server E data = [Inr s] \<and> validate_server (apply_server_defaults s) = [])" for data
    by (auto simp: load_server_def Let_def err_of_def decode_one [symmetric] split: sum.split)
  moreover have "validate_server (apply_server_defaults s) = [] \<longleftrightarrow> server_ok (apply_server_defaults s)"
    if "e_yaml_server E data = [Inr s]" for data s
    using server_valid assms that by blast
  moreover have "(\<exists>s. load_server_file E p = Inr s) \<longleftrightarrow>
      (\<exists>data. e_read E p = Some data \<and> (\<exists>s. load_server (e_yaml_server E) data = Inr s))"
    by (auto simp: load_server_file_def split: option.split sum.split)
  ultimately show ?thesis by metis
qed

lemma role_commands:
  assumes "kind = ''client'' \<or> kind = ''server''"
  shows "run E S [''check-config'', kind, p] w =
      (case reject_secret_flags [p] of Some m \<Rightarrow> (2, [], [m], w) | None \<Rightarrow> cmd_check_config E [kind, p] w)"
    and "run E S [kind, p] w =
      (case reject_secret_flags [p] of Some m \<Rightarrow> (2, [], [m], w) | None \<Rightarrow> cmd_run_prepare E kind [p] w)"
proof -
  have skip: "reject_secret_flags (a # as) = reject_secret_flags as" if "\<not> has_prefix a ''-''" for a as
    using that by simp
  have plain: "\<not> has_prefix ''check-config'' ''-''" "\<not> has_prefix kind ''-''"
    using assms by (auto simp: has_prefix_def)
  have r: "reject_secret_flags [''check-config'', kind, p] = reject_secret_flags [p]"
    "reject_secret_flags [kind, p] = reject_secret_flags [p]"
    by (simp_all only: skip [OF plain(1)] skip [OF plain(2)])
  have k: "kind \<notin> {''version'', ''--version'', ''-v''}" "kind \<notin> {''help'', ''--help'', ''-h''}"
    "kind \<noteq> ''keygen''" "kind \<noteq> ''public-key''" "kind \<noteq> ''psk''" "kind \<noteq> ''check-config''"
    using assms by auto
  show "run E S [''check-config'', kind, p] w =
      (case reject_secret_flags [p] of Some m \<Rightarrow> (2, [], [m], w) | None \<Rightarrow> cmd_check_config E [kind, p] w)"
    unfolding run_def list.case r exit_defs by simp
  show "run E S [kind, p] w =
      (case reject_secret_flags [p] of Some m \<Rightarrow> (2, [], [m], w) | None \<Rightarrow> cmd_run_prepare E kind [p] w)"
    unfolding run_def list.case r exit_defs by (simp only: k assms if_False if_True)
qed

text \<open>What both commands make of a file: a message that explains the refusal, or nothing.\<close>

definition config_problem :: "'b env \<Rightarrow> string \<Rightarrow> string \<Rightarrow> message option" where
  "config_problem E kind p =
     (if kind = ''client'' then (case load_client_file E p of Inl m \<Rightarrow> Some m | Inr _ \<Rightarrow> None)
      else (case load_server_file E p of Inl m \<Rightarrow> Some m | Inr _ \<Rightarrow> None))"

lemma config_commands:
  assumes "kind = ''client'' \<or> kind = ''server''"
  shows "cmd_check_config E [kind, p] w = (case config_problem E kind p of
      Some m \<Rightarrow> (3, [], [m], w) | None \<Rightarrow> (0, [ConfigValid kind p], [], w))"
    and "cmd_run_prepare E kind [p] w = (case config_problem E kind p of
      Some m \<Rightarrow> (3, [], [m], w) | None \<Rightarrow> (0, [ConfigLoaded kind p], [], w))"
  using assms by (auto simp: cmd_check_config_def cmd_run_prepare_def config_problem_def exit_defs split: sum.split)

lemma config_problem_None:
  "config_problem E ''client'' p = None \<longleftrightarrow> (\<exists>c. load_client_file E p = Inr c)"
  "config_problem E ''server'' p = None \<longleftrightarrow> (\<exists>s. load_server_file E p = Inr s)"
  by (simp_all add: config_problem_def split: sum.split)

text \<open>
  C17. \<open>check-config\<close> is a dry run of \<open>client\<close> and \<open>server\<close>: with the same role and file it exits with
  the same code and prints the same errors, and neither changes anything. The code is 2 exactly when
  the path looks like a flag with a secret; it is 0 exactly when it does not, the file can be read, and it
  holds one document whose fields, after the defaults, satisfy the rules that Validate checks; it is 3
  otherwise, and a refusal is always explained. (Validate checks less than the comments of \<open>types.go\<close> promise: it lets priorities
  near the end of 32 bits through, and some fields of the client have no check; both are findings.)
  The pacing rates are small enough to be exact in binary64.
\<close>

theorem check_config_dry_run:
  assumes "kind = ''client'' \<or> kind = ''server''"
    and "\<And>data c. e_yaml_client E data = [Inr c] \<Longrightarrow> exact_rates (c_congestion (apply_client_defaults c))"
    and "\<And>data s. e_yaml_server E data = [Inr s] \<Longrightarrow> exact_rates (s_congestion (apply_server_defaults s))"
    and "run E S [''check-config'', kind, p] w = (code, out, err, w')"
  shows "w' = w \<and> (\<exists>started. run E S [kind, p] w = (code, started, err, w))
    \<and> (code = 2 \<longleftrightarrow> reject_secret_flags [p] \<noteq> None)
    \<and> (code = 0 \<longleftrightarrow> reject_secret_flags [p] = None \<and> (\<exists>data. e_read E p = Some data
        \<and> (if kind = ''client'' then \<exists>c. e_yaml_client E data = [Inr c] \<and> client_ok (apply_client_defaults c)
           else \<exists>s. e_yaml_server E data = [Inr s] \<and> server_ok (apply_server_defaults s))))
    \<and> code \<in> {0, 2, 3} \<and> (err = [] \<longleftrightarrow> code = 0)"
proof (cases "reject_secret_flags [p]")
  case None
  have "config_problem E kind p = None \<longleftrightarrow> (\<exists>data. e_read E p = Some data
      \<and> (if kind = ''client'' then \<exists>c. e_yaml_client E data = [Inr c] \<and> client_ok (apply_client_defaults c)
         else \<exists>s. e_yaml_server E data = [Inr s] \<and> server_ok (apply_server_defaults s)))"
  proof (cases "kind = ''client''")
    case True
    with client_file_valid [of E p] assms(2) show ?thesis by (simp add: config_problem_None)
  next
    case False
    with assms(1) server_file_valid [of E p] assms(3) show ?thesis by (simp add: config_problem_None)
  qed
  with None assms(4) show ?thesis unfolding role_commands [OF assms(1)] config_commands [OF assms(1)]
    by (cases "config_problem E kind p") auto
next
  case (Some m)
  with assms(4) show ?thesis unfolding role_commands [OF assms(1)] by auto
qed

theorem check_config_dry_run_witness:
  "fst (run (sample_env\<lparr>e_read := (\<lambda>_. Some ()), e_yaml_client := (\<lambda>_. [Inr sample_client])\<rparr>) quiet_os
     [''check-config'', ''client'', ''f''] (new_world ())) = 0"
proof -
  let ?E = "sample_env\<lparr>e_read := (\<lambda>_. Some ()), e_yaml_client := (\<lambda>_. [Inr sample_client])\<rparr>"
  have d: "apply_client_defaults sample_client = sample_client"
    by (simp add: apply_client_defaults_def sample_client_def or_default_def
        apply_health_defaults_def apply_congestion_defaults_def)
  moreover have "exact_rates (c_congestion sample_client)" by (simp add: sample_client_def exact_rates_def)
  moreover have "reject_secret_flags [''f''] = None" by (simp add: has_prefix_def)
  moreover obtain code out err w' where "run ?E quiet_os [''check-config'', ''client'', ''f''] (new_world ()) = (code, out, err, w')"
    using prod_cases4 by blast
  ultimately show ?thesis
    using check_config_dry_run [of "''client''" ?E quiet_os "''f''" "new_world ()" code out err w'] sample_client_ok
    by (simp add: sample_env_def)
qed

section \<open>Configuration and device\<close>

lemma loaded_server_valid: "load_server yaml data = Inr s \<Longrightarrow> validate_server s = []"
  by (auto simp: load_server_def Let_def err_of_def split: sum.splits if_splits)

text \<open>
  C18. A server configuration that loads describes a device that the TUN layer accepts, except for
  the interface name: the two layers check names by different rules, and the names \<open>.\<close> and \<open>..\<close> and
  names with a carriage return or a zero byte load and are then refused.
\<close>

theorem loaded_server_device:
  assumes "load_server yaml data = Inr s" and "0 \<le> m"
  shows "validate_config \<lparr>cfg_name = s_tun_name s, cfg_address = s_tun_address s, cfg_mtu = s_tun_mtu s,
      cfg_max_packet = m\<rparr> =
    (if s_tun_name s \<in> {''.'', ''..''} \<or> CHR 0x0D \<in> set (s_tun_name s) \<or> CHR 0x00 \<in> set (s_tun_name s)
     then Some (NameBadChar (s_tun_name s)) else None)"
proof -
  from loaded_server_valid [OF assms(1)]
  have v: "iface_name_ok (s_tun_name s)" "1112 \<le> s_tun_mtu s" "s_tun_mtu s \<le> 1400"
    "prefix_valid (s_tun_address s)" "is4 (prefix_addr (s_tun_address s))"
    by (simp_all add: validate_server_def iface_name_ok tun_mtu_ok)
  have "validate_name (s_tun_name s) =
    (if s_tun_name s \<in> {''.'', ''..''} \<or> CHR 0x0D \<in> set (s_tun_name s) \<or> CHR 0x00 \<in> set (s_tun_name s)
     then Some (NameBadChar (s_tun_name s)) else None)"
    using v(1) by (auto simp: validate_name_def iface_name_ok_def tun_name_max_def contains_any_iff)
  moreover have "s_tun_name s \<noteq> []" using v(1) by (simp add: iface_name_ok_def)
  ultimately show ?thesis
    using v(2-5) assms(2) by (simp add: validate_config_def min_mtu_def max_mtu_def)
qed

theorem loaded_server_device_witness:
  "validate_config \<lparr>cfg_name = ''red0'', cfg_address = s_tun_address sample_server, cfg_mtu = s_tun_mtu sample_server,
     cfg_max_packet = 0\<rparr> = None"
proof -
  have "apply_server_defaults sample_server = sample_server"
    by (simp add: apply_server_defaults_def sample_server_def or_default_def
        apply_health_defaults_def apply_congestion_defaults_def)
  moreover have "exact_rates (s_congestion sample_server)" by (simp add: sample_server_def exact_rates_def)
  ultimately have "load_server (\<lambda>d. [Inr d]) sample_server = Inr sample_server"
    using sample_server_ok server_valid [of sample_server] by (simp add: load_server_def decode_strict_def err_of_def)
  from loaded_server_device [OF this, of 0] show ?thesis by (simp add: sample_server_def)
qed

end
